(* ===== verification/Prelude.thy ===== *)
theory Prelude
  imports Main "HOL-Library.Word" "HOL-Library.Product_Lexorder" "HOL-Library.List_Lexorder"
    "HOL-Library.Char_ord" "HOL-Library.Multiset" "HOL-Library.Code_Target_Nat"
begin

text \<open>
  Shared vocabulary of the development: the machine types of the C++ sources, the casts
  between them, the pieces of the standard library the components use (\<open>std::map\<close> with
  ordered keys, \<open>std::adjacent_find\<close>, erasing the first match), and the one locale every
  stateful component is an instance of.

  \<^item> \<open>std::uint8_t/16/32/64_t\<close> are words of that width, so \<open>+\<close> wraps as in C++.
  \<^item> \<open>std::int64_t\<close> (only times and native codes) is \<open>int\<close>; the two casts to and
    from \<open>std::uint64_t\<close> are written out (\<open>to_u64\<close>, \<open>to_i64\<close>).
  \<^item> \<open>std::size_t\<close> (container sizes and byte totals of objects in memory) is \<open>nat\<close>;
    subtraction is written with its wrap-around (\<open>szsub\<close>).
\<close>

section \<open>Machine types\<close>

type_synonym u8 = "8 word"
type_synonym u16 = "16 word"
type_synonym u32 = "32 word"
type_synonym u64 = "64 word"
type_synonym i64 = int
type_synonym size_t = nat

abbreviation u64_max :: u64 where "u64_max \<equiv> - 1"

definition size_max :: size_t where
  "size_max = 2 ^ 64 - 1"

definition i64_max :: i64 where
  "i64_max = 2 ^ 63 - 1"

definition to_u64 :: "i64 \<Rightarrow> u64" where
  "to_u64 i = word_of_int i"

definition to_i64 :: "u64 \<Rightarrow> i64" where
  "to_i64 w = sint w"

definition szsub :: "size_t \<Rightarrow> size_t \<Rightarrow> size_t" where
  "szsub a b = (if b \<le> a then a - b else a + 2 ^ 64 - b)"

section \<open>Status codes\<close>

text \<open>
  \<open>pdcm_status_t\<close> of \<open>include/pdcm/status.h\<close>. Operations that return a \<open>Status\<close>
  return its code; the diagnostic message of a returned status is not modelled. A status
  that is stored (\<open>ErrorMetadata::status\<close>, \<open>ProviderReadResult::call_status\<close>) keeps its
  message, since byte accounting and evidence comparison read it.
\<close>

datatype pdcm_status =
    SUCCESS | PARTIAL_RESULT | INVALID_ARGUMENT | UNSUPPORTED | NOT_INITIALIZED
  | UNAVAILABLE | PERMISSION_DENIED | TIMEOUT | RESOURCE_EXHAUSTED | BUFFER_TOO_SMALL
  | NOT_FOUND | STALE_GENERATION | INTERNAL | PROTOCOL_INCOMPATIBLE

definition ok :: "pdcm_status \<Rightarrow> bool" where
  "ok c \<longleftrightarrow> c = SUCCESS"

section \<open>Standard library pieces\<close>

fun adjacent_find :: "'a list \<Rightarrow> bool" where
  "adjacent_find (x # y # zs) = (x = y \<or> adjacent_find (y # zs))"
| "adjacent_find _ = False"

fun erase_first :: "('a \<Rightarrow> bool) \<Rightarrow> 'a list \<Rightarrow> 'a list" where
  "erase_first P [] = []"
| "erase_first P (x # xs) = (if P x then xs else x # erase_first P xs)"

text \<open>
  \<open>std::map<K, V>\<close>: an association list in strictly ascending key order, so that iterating
  it visits the entries in the order the C++ iterator does. \<open>map_of\<close> is \<open>find\<close>,
  \<open>omap_put\<close> is \<open>m[k] = v\<close>, \<open>omap_emplace\<close> is \<open>m.emplace(k, v)\<close>.
\<close>

type_synonym ('k, 'v) omap = "('k \<times> 'v) list"

fun omap_put :: "'k::linorder \<Rightarrow> 'v \<Rightarrow> ('k, 'v) omap \<Rightarrow> ('k, 'v) omap" where
  "omap_put k v [] = [(k, v)]"
| "omap_put k v (e # m) =
     (if fst e < k then e # omap_put k v m
      else if fst e = k then (k, v) # m
      else (k, v) # e # m)"

definition omap_emplace :: "'k::linorder \<Rightarrow> 'v \<Rightarrow> ('k, 'v) omap \<Rightarrow> ('k, 'v) omap" where
  "omap_emplace k v m = (case map_of m k of None \<Rightarrow> omap_put k v m | Some _ \<Rightarrow> m)"

definition omap_erase :: "'k \<Rightarrow> ('k, 'v) omap \<Rightarrow> ('k, 'v) omap" where
  "omap_erase k m = filter (\<lambda>e. fst e \<noteq> k) m"

definition omap_ok :: "('k::linorder, 'v) omap \<Rightarrow> bool" where
  "omap_ok m = sorted_wrt (<) (map fst m)"

text \<open>\<open>std::to_string\<close> of an unsigned integer, and the character classes of the C locale.\<close>

fun to_string :: "nat \<Rightarrow> string" where
  "to_string n =
     (if n < 10 then [char_of (48 + n)] else to_string (n div 10) @ [char_of (48 + n mod 10)])"

declare to_string.simps [simp del]

definition islower :: "char \<Rightarrow> bool" where
  "islower c \<longleftrightarrow> 97 \<le> (of_char c :: nat) \<and> (of_char c :: nat) \<le> 122"

definition isdigit :: "char \<Rightarrow> bool" where
  "isdigit c \<longleftrightarrow> 48 \<le> (of_char c :: nat) \<and> (of_char c :: nat) \<le> 57"

section \<open>Lemmas on words and sizes\<close>

named_theorems word_inc \<open>increments guarded by a check against the maximum\<close>

lemma unat_inc [word_inc]:
  fixes x :: "'a::len word"
  assumes "x \<noteq> - 1"
  shows "unat (x + 1) = Suc (unat x)"
proof -
  have "1 + x \<noteq> 0"
    using assms by (metis add.commute add_eq_0_iff)
  then show ?thesis
    by (simp add: add.commute unatSuc)
qed

lemma less_inc [word_inc]:
  fixes x :: "'a::len word"
  shows "x \<noteq> - 1 \<Longrightarrow> x < x + 1"
  by (simp add: word_less_nat_alt unat_inc)

lemma inc_nonzero [word_inc]:
  fixes x :: "'a::len word"
  shows "x \<noteq> - 1 \<Longrightarrow> x + 1 \<noteq> 0"
  using less_inc [of x] by auto

lemma inc_le_iff [word_inc]:
  fixes x :: "'a::len word"
  shows "x \<noteq> - 1 \<Longrightarrow> x + 1 \<le> y \<longleftrightarrow> x < y"
  by (auto simp: word_less_nat_alt word_le_nat_alt unat_inc)

lemma less_inc_iff [word_inc]:
  fixes x y :: "'a::len word"
  shows "x \<noteq> - 1 \<Longrightarrow> y < x + 1 \<longleftrightarrow> y \<le> x"
  by (simp add: word_less_nat_alt word_le_nat_alt unat_inc less_Suc_eq_le)

lemma szsub_exact [simp]: "b \<le> a \<Longrightarrow> szsub a b = a - b"
  by (simp add: szsub_def)

lemma less_szsub_iff: "b \<le> a \<Longrightarrow> x > szsub a b \<longleftrightarrow> x + b > a"
  by auto

lemma uint_to_u64: "0 \<le> i \<Longrightarrow> i \<le> i64_max \<Longrightarrow> uint (to_u64 i) = i"
  by (simp add: to_u64_def i64_max_def uint_word_of_int)

lemma to_u64_le_iff:
  "0 \<le> i \<Longrightarrow> i \<le> i64_max \<Longrightarrow> to_u64 i \<le> w \<longleftrightarrow> i \<le> uint w"
  by (simp add: word_le_def uint_to_u64)

lemma to_i64_small: "uint w \<le> i64_max \<Longrightarrow> to_i64 w = uint w"
proof -
  assume "uint w \<le> i64_max"
  then have "uint w < 2 ^ 63"
    by (simp add: i64_max_def)
  moreover have "- (2 ^ 63) \<le> uint w"
    by (rule order_trans [OF _ uint_ge_0]) simp
  ultimately show ?thesis
    by (simp add: to_i64_def sint_uint signed_take_bit_int_eq_self)
qed

section \<open>Lemmas on lists\<close>

lemma adjacent_find_sorted:
  fixes xs :: "'a::linorder list"
  shows "sorted xs \<Longrightarrow> adjacent_find xs \<longleftrightarrow> \<not> distinct xs"
proof (induction xs rule: adjacent_find.induct)
  case (1 x y zs)
  then have "x \<le> y" and "sorted (y # zs)" and ge: "\<forall>z\<in>set zs. y \<le> z" by auto
  have "x \<in> set (y # zs) \<longleftrightarrow> x = y"
    using \<open>x \<le> y\<close> ge by (auto simp: antisym)
  with 1 show ?case by auto
qed auto

lemma adjacent_find_sort [simp]:
  fixes xs :: "'a::linorder list"
  shows "adjacent_find (sort xs) \<longleftrightarrow> \<not> distinct xs"
  by (simp add: adjacent_find_sorted)

lemma set_erase_first: "set (erase_first P xs) \<subseteq> set xs"
  by (induction xs) auto

lemma length_erase_first:
  "find P xs = Some x \<Longrightarrow> length xs = Suc (length (erase_first P xs))"
  by (induction xs) (auto split: if_splits)

lemma mset_erase_first:
  "find P xs = Some x \<Longrightarrow> mset xs = add_mset x (mset (erase_first P xs))"
  by (induction xs) (auto split: if_splits)

lemma erase_first_none: "find P xs = None \<Longrightarrow> erase_first P xs = xs"
  by (induction xs) (auto split: if_splits)

lemma sum_list_erase_first:
  fixes f :: "'a \<Rightarrow> nat"
  shows "find P xs = Some x \<Longrightarrow>
    sum_list (map f xs) = f x + sum_list (map f (erase_first P xs))"
  by (induction xs) (auto split: if_splits)

lemma sorted_wrt_erase_first: "sorted_wrt R xs \<Longrightarrow> sorted_wrt R (erase_first P xs)"
  by (induction xs) (use set_erase_first in fastforce)+

lemma find_Some_D: "find P xs = Some x \<Longrightarrow> x \<in> set xs \<and> P x"
  by (induction xs) (auto split: if_splits)

lemma find_None_D: "find P xs = None \<Longrightarrow> x \<in> set xs \<Longrightarrow> \<not> P x"
  by (auto simp: find_None_iff)

section \<open>Lemmas on ordered maps\<close>

lemma map_of_omap_put: "omap_ok m \<Longrightarrow> map_of (omap_put k v m) = (map_of m)(k \<mapsto> v)"
proof (induction m)
  case (Cons e m)
  then have "omap_ok m" and "\<forall>x\<in>set (map fst m). fst e < x"
    by (auto simp: omap_ok_def)
  with Cons show ?case
    by (cases e) (auto simp: fun_eq_iff map_of_eq_None_iff)
qed simp

lemma set_omap_put_fst: "fst ` set (omap_put k v m) = insert k (fst ` set m)"
  by (induction m) (auto split: if_splits)

lemma omap_ok_put [simp]: "omap_ok m \<Longrightarrow> omap_ok (omap_put k v m)"
proof (induction m)
  case (Cons e m)
  then have ok: "omap_ok m" and gt: "\<forall>x\<in>fst ` set m. fst e < x"
    by (auto simp: omap_ok_def)
  then have "\<forall>x\<in>fst ` set (omap_put k v m). fst e < x" if "fst e < k"
    using that by (simp add: set_omap_put_fst)
  with Cons ok gt show ?case
    by (auto simp: omap_ok_def)
qed (simp add: omap_ok_def)

lemma omap_ok_emplace [simp]: "omap_ok m \<Longrightarrow> omap_ok (omap_emplace k v m)"
  by (simp add: omap_emplace_def split: option.splits)

lemma omap_ok_filter [simp]: "omap_ok m \<Longrightarrow> omap_ok (filter P m)"
  by (induction m) (auto simp: omap_ok_def)

lemma omap_ok_erase [simp]: "omap_ok m \<Longrightarrow> omap_ok (omap_erase k m)"
  by (simp add: omap_erase_def)

lemma omap_ok_Nil [simp]: "omap_ok []"
  by (simp add: omap_ok_def)

lemma omap_ok_distinct: "omap_ok m \<Longrightarrow> distinct (map fst m)"
  unfolding omap_ok_def by (simp add: strict_sorted_iff)

lemma map_of_omap_emplace:
  "omap_ok m \<Longrightarrow> map_of (omap_emplace k v m) =
     (if map_of m k = None then (map_of m)(k \<mapsto> v) else map_of m)"
  by (auto simp: omap_emplace_def map_of_omap_put split: option.splits)

lemma map_of_omap_erase [simp]: "map_of (omap_erase k m) = (map_of m)(k := None)"
  by (induction m) (auto simp: omap_erase_def)

lemma length_omap_put:
  "omap_ok m \<Longrightarrow> length (omap_put k v m) = (if map_of m k = None then Suc (length m) else length m)"
proof (induction m)
  case (Cons e m)
  then have "omap_ok m" and "\<forall>x\<in>set (map fst m). fst e < x"
    by (auto simp: omap_ok_def)
  with Cons show ?case
    by (cases e) (auto simp: map_of_eq_None_iff)
qed simp

lemma length_omap_erase_le: "length (omap_erase k m) \<le> length m"
  by (simp add: omap_erase_def)

lemma omap_map_snd_ok [simp]:
  "omap_ok (map (\<lambda>(k, v). (k, f k v)) m) = omap_ok m"
  by (simp add: omap_ok_def comp_def case_prod_beta)

lemma omap_put_put [simp]: "omap_put k v (omap_put k w m) = omap_put k v m"
  by (induction m) auto

lemma omap_put_same [simp]: "omap_ok m \<Longrightarrow> map_of m k = Some v \<Longrightarrow> omap_put k v m = m"
proof (induction m)
  case (Cons e m)
  then have "omap_ok m" and "\<forall>x\<in>set (map fst m). fst e < x"
    by (auto simp: omap_ok_def)
  with Cons show ?case
    by (cases e) (fastforce dest: map_of_SomeD split: if_splits)
qed simp

lemma map_of_map_snd [simp]:
  "map_of (map (\<lambda>(k, v). (k, f k v)) m) k = map_option (f k) (map_of m k)"
  by (induction m) auto

lemma set_omap_put: "set (omap_put k v m) \<subseteq> insert (k, v) (set m)"
  by (induction m) auto

section \<open>Stateful components\<close>

text \<open>
  Every manager of the program is a state with operations under one mutex: an execution is
  a sequence of complete operations. The contract they share: the constructed state meets
  the representation invariant, and every operation keeps it. Its consequence, proved once
  here, is that the invariant holds after any sequence of operations.
\<close>

locale component =
  fixes init :: 's
    and step :: "'op \<Rightarrow> 's \<Rightarrow> 's"
    and inv :: "'s \<Rightarrow> bool"
  assumes inv_init: "inv init"
    and inv_step: "inv s \<Longrightarrow> inv (step op s)"
begin

lemma inv_from: "inv s \<Longrightarrow> inv (fold step ops s)"
  by (induction ops arbitrary: s) (auto intro: inv_step)

lemma inv_reach: "inv (fold step ops init)"
  by (rule inv_from [OF inv_init])

end

text \<open>
  A component with a rank that no operation lowers (a generation, an epoch, a next
  identifier): along any execution the rank is monotone.
\<close>

locale ranked_component = component init step inv
  for init :: 's and step :: "'op \<Rightarrow> 's \<Rightarrow> 's" and inv :: "'s \<Rightarrow> bool" +
  fixes rank :: "'s \<Rightarrow> 'r::preorder"
  assumes rank_step: "inv s \<Longrightarrow> rank s \<le> rank (step op s)"
begin

lemma rank_from: "inv s \<Longrightarrow> rank s \<le> rank (fold step ops s)"
proof (induction ops arbitrary: s)
  case (Cons op ops)
  have "rank s \<le> rank (step op s)" by (rule rank_step [OF Cons.prems])
  also have "\<dots> \<le> rank (fold step ops (step op s))"
    by (rule Cons.IH [OF inv_step [OF Cons.prems]])
  finally show ?case by simp
qed simp

end

end
