(* ===== verification/Common.thy ===== *)
theory Common
  imports Prelude Complex_Main
begin

text \<open>
  The value types of \<open>src/product/src/common\<close>: entities and metrics (\<open>domain_types.hpp\<close>),
  stored statuses, observations and their validation (\<open>observation.cpp\<close>), heartbeat evidence
  and health results and their validation (\<open>health.cpp\<close>). The validators are characterised
  by independent well-formedness predicates.
\<close>

section \<open>Entities, metrics, values\<close>

datatype entity_kind = EK_Unknown | EK_Device | EK_Node

primrec entity_kind_num :: "entity_kind \<Rightarrow> nat" where
  "entity_kind_num EK_Unknown = 0"
| "entity_kind_num EK_Device = 1"
| "entity_kind_num EK_Node = 2"

lemma entity_kind_num_inject [simp]: "entity_kind_num a = entity_kind_num b \<longleftrightarrow> a = b"
  by (cases a; cases b) auto

instantiation entity_kind :: linorder
begin

definition less_eq_entity_kind :: "entity_kind \<Rightarrow> entity_kind \<Rightarrow> bool" where
  "less_eq_entity_kind a b = (entity_kind_num a \<le> entity_kind_num b)"

definition less_entity_kind :: "entity_kind \<Rightarrow> entity_kind \<Rightarrow> bool" where
  "less_entity_kind a b = (entity_kind_num a < entity_kind_num b)"

instance
  by intro_classes (auto simp: less_eq_entity_kind_def less_entity_kind_def)

end

type_synonym metric_id = u32

datatype entity_ref =
  EntityRef (er_kind: entity_kind) (er_id: u64) (er_generation: u64)

text \<open>The tuple \<open>std::tie(kind, id, generation)\<close> that every ordering of entities compares.\<close>

definition entity_tuple :: "entity_ref \<Rightarrow> entity_kind \<times> u64 \<times> u64" where
  "entity_tuple e = (er_kind e, er_id e, er_generation e)"

lemma entity_tuple_inject [simp]: "entity_tuple a = entity_tuple b \<longleftrightarrow> a = b"
  by (cases a; cases b) (simp add: entity_tuple_def)

instantiation entity_ref :: linorder
begin

definition less_eq_entity_ref :: "entity_ref \<Rightarrow> entity_ref \<Rightarrow> bool" where
  "less_eq_entity_ref a b = (entity_tuple a \<le> entity_tuple b)"

definition less_entity_ref :: "entity_ref \<Rightarrow> entity_ref \<Rightarrow> bool" where
  "less_entity_ref a b = (entity_tuple a < entity_tuple b)"

instance
  by intro_classes (auto simp: less_eq_entity_ref_def less_entity_ref_def order_less_le)

end

text \<open>
  \<open>std::variant<int64_t, uint64_t, double, bool, string>\<close>. A \<open>double\<close> is kept as its
  value, a rational, so only finite doubles are modelled (the sources never look at the value of
  a \<open>double\<close>); the one place that computes with them rounds as IEEE 754 does (\<open>Doubles\<close>).
\<close>

datatype metric_value =
    V_int64 i64
  | V_uint64 u64
  | V_double rat
  | V_bool bool
  | V_string string

section \<open>Stored statuses and metadata\<close>

datatype status = Status (status_code: pdcm_status) (status_message: string)

definition status_success :: status where
  "status_success = Status SUCCESS []"

definition status_ok :: "status \<Rightarrow> bool" where
  "status_ok s = ok (status_code s)"

lemma status_ok_Status [simp]: "status_ok (Status c msg) \<longleftrightarrow> c = SUCCESS"
  by (simp add: status_ok_def ok_def)

fun statusName :: "pdcm_status \<Rightarrow> string" where
  "statusName SUCCESS = ''SUCCESS''"
| "statusName PARTIAL_RESULT = ''PARTIAL_RESULT''"
| "statusName INVALID_ARGUMENT = ''INVALID_ARGUMENT''"
| "statusName UNSUPPORTED = ''UNSUPPORTED''"
| "statusName NOT_INITIALIZED = ''NOT_INITIALIZED''"
| "statusName UNAVAILABLE = ''UNAVAILABLE''"
| "statusName PERMISSION_DENIED = ''PERMISSION_DENIED''"
| "statusName TIMEOUT = ''TIMEOUT''"
| "statusName RESOURCE_EXHAUSTED = ''RESOURCE_EXHAUSTED''"
| "statusName BUFFER_TOO_SMALL = ''BUFFER_TOO_SMALL''"
| "statusName NOT_FOUND = ''NOT_FOUND''"
| "statusName STALE_GENERATION = ''STALE_GENERATION''"
| "statusName INTERNAL = ''INTERNAL''"
| "statusName PROTOCOL_INCOMPATIBLE = ''PROTOCOL_INCOMPATIBLE''"

datatype observation_status =
  OS_Valid | OS_Stale | OS_NotAvailable | OS_Unsupported | OS_Error

record source_metadata =
  src_provider :: string
  src_native_source :: string

record error_metadata =
  em_status :: status
  em_native_code :: i64
  em_retryable :: bool

record derivation_metadata =
  dv_processor_id :: string
  dv_input_sequences :: "u64 list"
  dv_processor_version :: u32
  dv_depth :: u8

definition default_source :: source_metadata where
  "default_source = \<lparr>src_provider = [], src_native_source = []\<rparr>"

definition default_error :: error_metadata where
  "default_error = \<lparr>em_status = status_success, em_native_code = 0, em_retryable = False\<rparr>"

definition default_derivation :: derivation_metadata where
  "default_derivation =
     \<lparr>dv_processor_id = [], dv_input_sequences = [], dv_processor_version = 0, dv_depth = 0\<rparr>"

section \<open>Observations\<close>

record observation =
  obs_entity :: entity_ref
  obs_metric :: metric_id
  obs_value :: "metric_value option"
  obs_status :: observation_status
  obs_scheduled_monotonic_time_ns :: i64
  obs_source_sample_time_ns :: "i64 option"
  obs_observed_monotonic_time_ns :: i64
  obs_metric_semantic_version :: u32
  obs_observed_wall_time_ns :: i64
  obs_catalog_generation :: u64
  obs_commit_epoch :: u64
  obs_counter_epoch :: u64
  obs_source :: source_metadata
  obs_stale_age_ns :: "i64 option"
  obs_latest_failure :: "error_metadata option"
  obs_error :: error_metadata
  obs_derivation :: derivation_metadata

definition default_observation :: observation where
  "default_observation =
     \<lparr>obs_entity = EntityRef EK_Unknown 0 0, obs_metric = 0, obs_value = None,
      obs_status = OS_NotAvailable, obs_scheduled_monotonic_time_ns = 0,
      obs_source_sample_time_ns = None, obs_observed_monotonic_time_ns = 0,
      obs_metric_semantic_version = 0, obs_observed_wall_time_ns = 0,
      obs_catalog_generation = 0, obs_commit_epoch = 0, obs_counter_epoch = 0,
      obs_source = default_source, obs_stale_age_ns = None, obs_latest_failure = None,
      obs_error = default_error, obs_derivation = default_derivation\<rparr>"

definition validateObservation :: "observation \<Rightarrow> pdcm_status" where
  "validateObservation o' =
    (if er_kind (obs_entity o') = EK_Unknown \<or> er_generation (obs_entity o') = 0 \<or>
        obs_metric o' = 0 \<or> obs_metric_semantic_version o' = 0
     then INVALID_ARGUMENT
     else if obs_scheduled_monotonic_time_ns o' < 0 \<or> obs_observed_monotonic_time_ns o' < 0 \<or>
        obs_catalog_generation o' = 0 \<or>
        (case obs_source_sample_time_ns o' of None \<Rightarrow> False | Some t \<Rightarrow> t < 0)
     then INVALID_ARGUMENT
     else
      let has_value = obs_value o' \<noteq> None;
          metadata_bad =
            (case obs_status o' of
               OS_Valid \<Rightarrow>
                 \<not> has_value \<or> \<not> status_ok (em_status (obs_error o')) \<or>
                 obs_stale_age_ns o' \<noteq> None \<or> obs_latest_failure o' \<noteq> None
             | OS_Stale \<Rightarrow>
                 \<not> has_value \<or>
                 (case obs_stale_age_ns o' of None \<Rightarrow> True | Some age \<Rightarrow> age < 0) \<or>
                 (case obs_latest_failure o' of None \<Rightarrow> True | Some f \<Rightarrow> status_ok (em_status f))
             | _ \<Rightarrow>
                 has_value \<or> status_ok (em_status (obs_error o')) \<or>
                 obs_stale_age_ns o' \<noteq> None \<or> obs_latest_failure o' \<noteq> None)
      in if metadata_bad then INVALID_ARGUMENT
         else if dv_depth (obs_derivation o') > 4 then INVALID_ARGUMENT
         else if dv_processor_id (obs_derivation o') = [] then
           (if dv_depth (obs_derivation o') \<noteq> 0 \<or>
               dv_processor_version (obs_derivation o') \<noteq> 0 \<or>
               dv_input_sequences (obs_derivation o') \<noteq> []
            then INVALID_ARGUMENT else SUCCESS)
         else if dv_depth (obs_derivation o') = 0 \<or>
            dv_processor_version (obs_derivation o') = 0 \<or>
            dv_input_sequences (obs_derivation o') = []
         then INVALID_ARGUMENT
         else SUCCESS)"

section \<open>Heartbeat evidence and health results\<close>

datatype heartbeat_class = HB_Normal | HB_Warning | HB_Fault | HB_UnknownNative

datatype health_state = HS_Healthy | HS_Unknown | HS_Warning | HS_Error

datatype stable_health_code =
    HC_HeartbeatOk | HC_HeartbeatWarning | HC_HeartbeatFault | HC_HeartbeatMissing
  | HC_HeartbeatStale | HC_HeartbeatTimeout | HC_HeartbeatReadError
  | HC_HeartbeatUnsupported | HC_ProviderUnavailable | HC_ProcessorError

datatype health_limitation_code =
    HL_CatalogGap | HL_NativeMappingPending | HL_ProviderUnavailable
  | HL_EvidenceMissing | HL_EvidenceStale | HL_ReadFailure | HL_ProcessorError

record health_limitation =
  hl_code :: health_limitation_code
  hl_detail :: string

record heartbeat_evidence =
  ev_evidence_id :: u64
  ev_entity :: entity_ref
  ev_provider_data_id :: u32
  ev_native_class :: heartbeat_class
  ev_status :: observation_status
  ev_sequence_or_token :: u64
  ev_source_sample_time_ns :: "i64 option"
  ev_observed_monotonic_time_ns :: i64
  ev_source :: source_metadata
  ev_error :: error_metadata
  ev_catalog_generation :: u64

record evidence_ref =
  rf_evidence_id :: u64
  rf_sequence_or_token :: u64
  rf_source_sample_time_ns :: "i64 option"
  rf_observed_monotonic_time_ns :: i64
  rf_source :: source_metadata

record health_result =
  hr_entity :: entity_ref
  hr_subsystem_id :: u32
  hr_state :: health_state
  hr_item_status :: observation_status
  hr_catalog_generation :: u64
  hr_evaluated_monotonic_time_ns :: i64
  hr_evidence_age_ns :: i64
  hr_evidence :: "evidence_ref list"
  hr_limitations :: "health_limitation list"
  hr_code :: stable_health_code

text \<open>\<open>kFirmwareHeartbeatHealthId\<close> of \<open>semantic/catalog_types.hpp\<close>.\<close>

definition kFirmwareHeartbeatHealthId :: u32 where
  "kFirmwareHeartbeatHealthId = 1"

definition evidenceRefValid :: "evidence_ref \<Rightarrow> bool" where
  "evidenceRefValid e \<longleftrightarrow>
     rf_evidence_id e \<noteq> 0 \<and> rf_observed_monotonic_time_ns e \<ge> 0 \<and>
     (case rf_source_sample_time_ns e of None \<Rightarrow> True | Some t \<Rightarrow> t \<ge> 0) \<and>
     src_provider (rf_source e) \<noteq> []"

fun codeMatchesState :: "health_state \<Rightarrow> stable_health_code \<Rightarrow> bool" where
  "codeMatchesState HS_Healthy c = (c = HC_HeartbeatOk)"
| "codeMatchesState HS_Warning c = (c = HC_HeartbeatWarning)"
| "codeMatchesState HS_Error c = (c = HC_HeartbeatFault)"
| "codeMatchesState HS_Unknown c =
     (c \<noteq> HC_HeartbeatOk \<and> c \<noteq> HC_HeartbeatWarning \<and> c \<noteq> HC_HeartbeatFault)"

definition isDeterminateHealth :: "health_state \<Rightarrow> bool" where
  "isDeterminateHealth s \<longleftrightarrow> s = HS_Healthy \<or> s = HS_Warning \<or> s = HS_Error"

definition validateFirmwareHeartbeatEvidence :: "heartbeat_evidence \<Rightarrow> pdcm_status" where
  "validateFirmwareHeartbeatEvidence e =
    (if er_kind (ev_entity e) \<noteq> EK_Device \<or> er_generation (ev_entity e) = 0 \<or>
        ev_provider_data_id e = 0 \<or> ev_catalog_generation e = 0 \<or>
        ev_observed_monotonic_time_ns e < 0 \<or>
        (case ev_source_sample_time_ns e of None \<Rightarrow> False | Some t \<Rightarrow> t < 0) \<or>
        src_provider (ev_source e) = []
     then INVALID_ARGUMENT
     else if ev_status e = OS_Stale then INVALID_ARGUMENT
     else if ev_status e = OS_Valid then
       (if ev_native_class e = HB_UnknownNative \<or> ev_source_sample_time_ns e = None \<or>
           \<not> status_ok (em_status (ev_error e))
        then INVALID_ARGUMENT else SUCCESS)
     else if ev_native_class e \<noteq> HB_UnknownNative \<or> status_ok (em_status (ev_error e))
     then INVALID_ARGUMENT
     else SUCCESS)"

definition validateHealthResult :: "health_result \<Rightarrow> pdcm_status" where
  "validateHealthResult r =
    (if er_kind (hr_entity r) \<noteq> EK_Device \<or> er_generation (hr_entity r) = 0 \<or>
        hr_subsystem_id r \<noteq> kFirmwareHeartbeatHealthId \<or> hr_catalog_generation r = 0 \<or>
        hr_evaluated_monotonic_time_ns r < 0 \<or> hr_evidence_age_ns r < 0
     then INVALID_ARGUMENT
     else if \<not> list_all evidenceRefValid (hr_evidence r) then INVALID_ARGUMENT
     else if list_ex (\<lambda>l. hl_detail l = []) (hr_limitations r) then INVALID_ARGUMENT
     else if \<not> codeMatchesState (hr_state r) (hr_code r) then INVALID_ARGUMENT
     else if isDeterminateHealth (hr_state r) then
       (if hr_item_status r \<noteq> OS_Valid \<or> hr_evidence r = [] then INVALID_ARGUMENT else SUCCESS)
     else if hr_item_status r = OS_Valid then INVALID_ARGUMENT
     else SUCCESS)"

section \<open>Sizes of objects\<close>

text \<open>
  The \<open>sizeof\<close> terms of the byte accounting, for the LP64 layout of libstdc++ (a string has
  32 bytes, a vector or deque iterator pair as laid out there). No theorem unfolds them: the
  accounting results hold for any layout.
\<close>

definition sizeof_Observation :: size_t where "sizeof_Observation = 424"
definition sizeof_uint64 :: size_t where "sizeof_uint64 = 8"
definition sizeof_double :: size_t where "sizeof_double = 8"
definition sizeof_bool :: size_t where "sizeof_bool = 1"
definition sizeof_ErrorMetadata :: size_t where "sizeof_ErrorMetadata = 56"
definition sizeof_EvidenceRef :: size_t where "sizeof_EvidenceRef = 104"
definition sizeof_EntityRef :: size_t where "sizeof_EntityRef = 24"
definition sizeof_HealthLimitation :: size_t where "sizeof_HealthLimitation = 40"

fun valueBytes :: "metric_value \<Rightarrow> size_t" where
  "valueBytes (V_string s) = length s"
| "valueBytes (V_int64 _) = sizeof_uint64"
| "valueBytes (V_uint64 _) = sizeof_uint64"
| "valueBytes (V_double _) = sizeof_double"
| "valueBytes (V_bool _) = sizeof_bool"

section \<open>What the validators accept\<close>

text \<open>
  The status table of an observation: which statuses carry a value, an error, an age and a
  latest failure.
\<close>

definition obs_status_coherent :: "observation \<Rightarrow> bool" where
  "obs_status_coherent o' \<longleftrightarrow>
     (obs_value o' \<noteq> None \<longleftrightarrow> obs_status o' \<in> {OS_Valid, OS_Stale}) \<and>
     (obs_stale_age_ns o' \<noteq> None \<longleftrightarrow> obs_status o' = OS_Stale) \<and>
     (obs_latest_failure o' \<noteq> None \<longleftrightarrow> obs_status o' = OS_Stale) \<and>
     (obs_status o' \<noteq> OS_Stale \<longrightarrow>
        (status_ok (em_status (obs_error o')) \<longleftrightarrow> obs_status o' = OS_Valid)) \<and>
     (\<forall>age. obs_stale_age_ns o' = Some age \<longrightarrow> 0 \<le> age) \<and>
     (\<forall>f. obs_latest_failure o' = Some f \<longrightarrow> \<not> status_ok (em_status f))"

definition obs_identity_ok :: "observation \<Rightarrow> bool" where
  "obs_identity_ok o' \<longleftrightarrow>
     er_kind (obs_entity o') \<noteq> EK_Unknown \<and> er_generation (obs_entity o') \<noteq> 0 \<and>
     obs_metric o' \<noteq> 0 \<and> obs_metric_semantic_version o' \<noteq> 0 \<and>
     0 \<le> obs_scheduled_monotonic_time_ns o' \<and> 0 \<le> obs_observed_monotonic_time_ns o' \<and>
     obs_catalog_generation o' \<noteq> 0 \<and>
     (\<forall>t. obs_source_sample_time_ns o' = Some t \<longrightarrow> 0 \<le> t)"

text \<open>A derived observation has depth 1 to 4 and complete provenance, a raw one has none.\<close>

definition obs_provenance_ok :: "observation \<Rightarrow> bool" where
  "obs_provenance_ok o' \<longleftrightarrow>
     (let d = obs_derivation o'; derived = (dv_processor_id d \<noteq> [])
      in dv_depth d \<le> 4 \<and> (dv_depth d \<noteq> 0 \<longleftrightarrow> derived) \<and>
         (dv_processor_version d \<noteq> 0 \<longleftrightarrow> derived) \<and>
         (dv_input_sequences d \<noteq> [] \<longleftrightarrow> derived))"

lemma validateObservation_SUCCESS_iff:
  "validateObservation o' = SUCCESS \<longleftrightarrow>
     obs_identity_ok o' \<and> obs_status_coherent o' \<and> obs_provenance_ok o'"
proof -
  have "validateObservation o' = SUCCESS \<Longrightarrow> obs_identity_ok o'"
    by (auto simp: validateObservation_def obs_identity_ok_def not_less split: if_splits option.splits)
  moreover have "validateObservation o' = SUCCESS \<Longrightarrow> obs_status_coherent o'"
    by (auto simp: validateObservation_def obs_status_coherent_def Let_def not_less
        split: if_splits option.splits observation_status.splits)
  moreover have "validateObservation o' = SUCCESS \<Longrightarrow> obs_provenance_ok o'"
    by (auto simp: validateObservation_def obs_provenance_ok_def Let_def not_less
        split: if_splits observation_status.splits)
  moreover have "obs_identity_ok o' \<Longrightarrow> obs_status_coherent o' \<Longrightarrow> obs_provenance_ok o' \<Longrightarrow>
      validateObservation o' = SUCCESS"
    by (cases "obs_status o'")
      (auto simp: validateObservation_def obs_identity_ok_def obs_status_coherent_def
        obs_provenance_ok_def Let_def not_less split: if_splits option.splits)
  ultimately show ?thesis by blast
qed

lemma validateHealthResult_SUCCESS_D:
  assumes "validateHealthResult r = SUCCESS"
  shows "codeMatchesState (hr_state r) (hr_code r)"
    and "isDeterminateHealth (hr_state r) \<longleftrightarrow> hr_item_status r = OS_Valid"
    and "isDeterminateHealth (hr_state r) \<Longrightarrow> hr_evidence r \<noteq> []"
    and "er_kind (hr_entity r) = EK_Device" and "hr_subsystem_id r = kFirmwareHeartbeatHealthId"
    and "list_all evidenceRefValid (hr_evidence r)"
    and "hr_catalog_generation r \<noteq> 0"
    and "0 \<le> hr_evidence_age_ns r" and "0 \<le> hr_evaluated_monotonic_time_ns r"
  using assms by (auto simp: validateHealthResult_def not_less split: if_splits)

lemma validateFirmwareHeartbeatEvidence_SUCCESS_D:
  assumes "validateFirmwareHeartbeatEvidence e = SUCCESS"
  shows "er_kind (ev_entity e) = EK_Device" and "er_generation (ev_entity e) \<noteq> 0"
    and "ev_status e \<noteq> OS_Stale" and "src_provider (ev_source e) \<noteq> []"
    and "0 \<le> ev_observed_monotonic_time_ns e" and "ev_catalog_generation e \<noteq> 0"
    and "ev_status e = OS_Valid \<Longrightarrow> ev_native_class e \<noteq> HB_UnknownNative"
    and "ev_status e = OS_Valid \<Longrightarrow> \<exists>t\<ge>0. ev_source_sample_time_ns e = Some t"
    and "ev_source_sample_time_ns e = Some t \<Longrightarrow> 0 \<le> t"
  using assms
  by (auto simp: validateFirmwareHeartbeatEvidence_def not_less split: if_splits option.splits)

section \<open>Properties\<close>

text \<open>
  \<open>validateObservation\<close> accepts exactly the well-formed observations: a complete identity
  with non-negative times, a value, age, latest failure and error that agree with the status,
  and provenance that is complete (depth 1 to 4) for a derived value and absent for a raw one.
\<close>

theorem validateObservation_exact:
  "ok (validateObservation o') \<longleftrightarrow>
     obs_identity_ok o' \<and> obs_status_coherent o' \<and> obs_provenance_ok o'"
  by (simp add: ok_def validateObservation_SUCCESS_iff)

text \<open>
  A health result that passes \<open>validateHealthResult\<close> is coherent: its item status is valid
  exactly when its state is determinate, a determinate state cites evidence, and the stable
  code is the one of the state (OK for healthy, warning for warning, fault for error).
\<close>

theorem health_result_coherent:
  assumes "ok (validateHealthResult r)"
  shows "(hr_item_status r = OS_Valid \<longleftrightarrow> isDeterminateHealth (hr_state r)) \<and>
    (hr_state r = HS_Healthy \<longleftrightarrow> hr_code r = HC_HeartbeatOk) \<and>
    (hr_state r = HS_Warning \<longleftrightarrow> hr_code r = HC_HeartbeatWarning) \<and>
    (hr_state r = HS_Error \<longleftrightarrow> hr_code r = HC_HeartbeatFault) \<and>
    (hr_item_status r = OS_Valid \<longrightarrow> hr_evidence r \<noteq> [])"
proof -
  have v: "validateHealthResult r = SUCCESS" using assms by (simp add: ok_def)
  show ?thesis
    using validateHealthResult_SUCCESS_D(1-3) [OF v] by (cases "hr_state r") auto
qed

definition witness_source :: source_metadata where
  "witness_source = \<lparr>src_provider = ''mock'', src_native_source = []\<rparr>"

definition witness_health_result :: health_result where
  "witness_health_result =
     \<lparr>hr_entity = EntityRef EK_Device 0 1, hr_subsystem_id = 1, hr_state = HS_Healthy,
      hr_item_status = OS_Valid, hr_catalog_generation = 1, hr_evaluated_monotonic_time_ns = 5,
      hr_evidence_age_ns = 1,
      hr_evidence =
        [\<lparr>rf_evidence_id = 1, rf_sequence_or_token = 1, rf_source_sample_time_ns = Some 4,
          rf_observed_monotonic_time_ns = 4, rf_source = witness_source\<rparr>],
      hr_limitations = [], hr_code = HC_HeartbeatOk\<rparr>"

end
