(* ===== verification/Provider.thy ===== *)
theory Provider
  imports Common
begin

text \<open>
  The provider layer of \<open>src/product/src/provider\<close>: the data exchanged with a provider
  (\<open>provider.hpp\<close>), the abstract class \<open>Provider\<close> as a record of operations over a private
  state and as a locale with its contract, \<open>UnavailableProvider\<close>, and \<open>ProviderManager\<close>,
  whose lemmas are proved once for every provider that meets the contract.
\<close>

section \<open>Data exchanged with a provider\<close>

datatype provider_state = PS_Uninitialized | PS_Ready | PS_Unavailable | PS_Shutdown

datatype provider_failure_phase =
  PF_None | PF_Load | PF_Entry | PF_Abi | PF_NativeInitialize | PF_Discovery

datatype target_kind = TK_Unknown | TK_Fpga | TK_Emu

datatype provider_entity_state = PES_Unknown | PES_Ready | PES_Lost | PES_Error

datatype provider_data_kind = PD_Metric | PD_HeartbeatEvidence

primrec provider_data_kind_num :: "provider_data_kind \<Rightarrow> nat" where
  "provider_data_kind_num PD_Metric = 0"
| "provider_data_kind_num PD_HeartbeatEvidence = 1"

lemma provider_data_kind_num_inject [simp]:
  "provider_data_kind_num a = provider_data_kind_num b \<longleftrightarrow> a = b"
  by (cases a; cases b) auto

instantiation provider_data_kind :: linorder
begin

definition less_eq_provider_data_kind :: "provider_data_kind \<Rightarrow> provider_data_kind \<Rightarrow> bool" where
  "less_eq_provider_data_kind a b = (provider_data_kind_num a \<le> provider_data_kind_num b)"

definition less_provider_data_kind :: "provider_data_kind \<Rightarrow> provider_data_kind \<Rightarrow> bool" where
  "less_provider_data_kind a b = (provider_data_kind_num a < provider_data_kind_num b)"

instance
  by intro_classes (auto simp: less_eq_provider_data_kind_def less_provider_data_kind_def)

end

record provider_concurrency =
  pc_max_concurrency :: size_t
  pc_reentrant :: bool

record provider_init_options =
  po_target :: target_kind
  po_deadline :: i64

record provider_entity =
  pe_stable_native_id :: string
  pe_pci_bdf :: string
  pe_pdrv_version :: string
  pe_incarnation :: string
  pe_state :: provider_entity_state
  pe_manageable :: bool

record provider_capability =
  pcap_kind :: provider_data_kind
  pcap_data_id :: u32
  pcap_supported :: bool
  pcap_reason :: string

record provider_descriptor =
  pd_provider_version :: string
  pd_target :: target_kind
  pd_state :: provider_state
  pd_failure_phase :: provider_failure_phase
  pd_entities :: "provider_entity list"
  pd_capabilities :: "provider_capability list"
  pd_errors :: "status list"
  pd_detected_device_count :: u32

record provider_read_item =
  ri_entity :: entity_ref
  ri_kind :: provider_data_kind
  ri_data_id :: u32

record provider_read_request =
  rq_request_id :: u64
  rq_plan_generation :: u64
  rq_catalog_generation :: u64
  rq_scheduled_time :: i64
  rq_deadline :: i64
  rq_items :: "provider_read_item list"

record provider_read_item_result =
  rr_item :: provider_read_item
  rr_status :: observation_status
  rr_value :: "metric_value option"
  rr_heartbeat_class :: "heartbeat_class option"
  rr_sequence_or_token :: "u64 option"
  rr_source_sample_time_ns :: "i64 option"
  rr_native_source :: string
  rr_native_code :: i64
  rr_retryable :: bool

record provider_read_result =
  prr_call_status :: status
  prr_items :: "provider_read_item_result list"

record provider_discovery_result =
  pdr_call_status :: status
  pdr_descriptor :: provider_descriptor

definition default_descriptor :: provider_descriptor where
  "default_descriptor =
     \<lparr>pd_provider_version = [], pd_target = TK_Unknown, pd_state = PS_Uninitialized,
      pd_failure_phase = PF_None, pd_entities = [], pd_capabilities = [], pd_errors = [],
      pd_detected_device_count = 0\<rparr>"

definition default_read_item_result :: "provider_read_item \<Rightarrow> provider_read_item_result" where
  "default_read_item_result item =
     \<lparr>rr_item = item, rr_status = OS_NotAvailable, rr_value = None, rr_heartbeat_class = None,
      rr_sequence_or_token = None, rr_source_sample_time_ns = None, rr_native_source = [],
      rr_native_code = 0, rr_retryable = False\<rparr>"

section \<open>The class Provider\<close>

text \<open>The virtual functions of \<open>Provider\<close>; \<open>'p\<close> is the private state of an implementation.\<close>

record 'p provider_ops =
  p_initialize :: "provider_init_options \<Rightarrow> 'p \<Rightarrow> status \<times> 'p"
  p_shutdown :: "'p \<Rightarrow> 'p"
  p_state :: "'p \<Rightarrow> provider_state"
  p_concurrency :: "'p \<Rightarrow> provider_concurrency"
  p_discover :: "i64 \<Rightarrow> 'p \<Rightarrow> provider_discovery_result \<times> 'p"
  p_batchRead :: "provider_read_request \<Rightarrow> 'p \<Rightarrow> provider_read_result \<times> 'p"

section \<open>UnavailableProvider\<close>

type_synonym unavailable_provider = provider_state

definition UnavailableProvider_initialize ::
  "provider_init_options \<Rightarrow> unavailable_provider \<Rightarrow> status \<times> unavailable_provider" where
  "UnavailableProvider_initialize opts p =
     (Status UNAVAILABLE ''production provider integration is not configured'', PS_Unavailable)"

definition UnavailableProvider_shutdown :: "unavailable_provider \<Rightarrow> unavailable_provider" where
  "UnavailableProvider_shutdown p = PS_Shutdown"

definition UnavailableProvider_state :: "unavailable_provider \<Rightarrow> provider_state" where
  "UnavailableProvider_state p = p"

definition UnavailableProvider_concurrency :: "unavailable_provider \<Rightarrow> provider_concurrency" where
  "UnavailableProvider_concurrency p = \<lparr>pc_max_concurrency = 1, pc_reentrant = False\<rparr>"

definition UnavailableProvider_discover ::
  "i64 \<Rightarrow> unavailable_provider \<Rightarrow> provider_discovery_result \<times> unavailable_provider" where
  "UnavailableProvider_discover deadline p =
     (\<lparr>pdr_call_status = Status UNAVAILABLE ''provider is unavailable'',
       pdr_descriptor = default_descriptor\<lparr>pd_state := p, pd_failure_phase := PF_Load\<rparr>\<rparr>, p)"

definition UnavailableProvider_batchRead ::
  "provider_read_request \<Rightarrow> unavailable_provider \<Rightarrow> provider_read_result \<times> unavailable_provider" where
  "UnavailableProvider_batchRead request p =
     (\<lparr>prr_call_status = Status UNAVAILABLE ''provider is unavailable'', prr_items = []\<rparr>, p)"

definition UnavailableProvider :: "unavailable_provider provider_ops" where
  "UnavailableProvider =
     \<lparr>p_initialize = UnavailableProvider_initialize, p_shutdown = UnavailableProvider_shutdown,
      p_state = UnavailableProvider_state, p_concurrency = UnavailableProvider_concurrency,
      p_discover = UnavailableProvider_discover, p_batchRead = UnavailableProvider_batchRead\<rparr>"

lemmas UnavailableProvider_defs =
  UnavailableProvider_def UnavailableProvider_initialize_def UnavailableProvider_shutdown_def
  UnavailableProvider_state_def UnavailableProvider_concurrency_def
  UnavailableProvider_discover_def UnavailableProvider_batchRead_def

section \<open>ProviderManager\<close>

record 'p provider_manager =
  pm_provider :: 'p
  pm_state :: provider_state

definition ProviderManager :: "'p \<Rightarrow> 'p provider_manager" where
  "ProviderManager p = \<lparr>pm_provider = p, pm_state = PS_Uninitialized\<rparr>"

definition ProviderManager_initialize ::
  "'p provider_ops \<Rightarrow> provider_init_options \<Rightarrow> 'p provider_manager \<Rightarrow> status \<times> 'p provider_manager" where
  "ProviderManager_initialize P opts m =
    (if pm_state m = PS_Shutdown
     then (Status NOT_INITIALIZED ''provider manager is already shut down'', m)
     else
      let (st, p') = p_initialize P opts (pm_provider m);
          m' = m\<lparr>pm_provider := p', pm_state := p_state P p'\<rparr>
      in if status_ok st \<and> pm_state m' \<noteq> PS_Ready
         then (Status INTERNAL ''provider reported success without entering ready state'',
               m'\<lparr>pm_state := PS_Unavailable\<rparr>)
         else (st, m'))"

definition ProviderManager_discover ::
  "'p provider_ops \<Rightarrow> i64 \<Rightarrow> 'p provider_manager \<Rightarrow> provider_discovery_result \<times> 'p provider_manager" where
  "ProviderManager_discover P deadline m =
    (if pm_state m \<noteq> PS_Ready
     then (\<lparr>pdr_call_status = Status UNAVAILABLE ''provider manager is not ready'',
            pdr_descriptor = default_descriptor\<lparr>pd_state := pm_state m\<rparr>\<rparr>, m)
     else
      let (result, p') = p_discover P deadline (pm_provider m)
      in (result, m\<lparr>pm_provider := p', pm_state := p_state P p'\<rparr>))"

definition ProviderManager_batchRead ::
  "'p provider_ops \<Rightarrow> provider_read_request \<Rightarrow> 'p provider_manager \<Rightarrow>
   provider_read_result \<times> 'p provider_manager" where
  "ProviderManager_batchRead P request m =
    (if pm_state m \<noteq> PS_Ready
     then (\<lparr>prr_call_status = Status UNAVAILABLE ''provider manager is not ready'',
            prr_items = []\<rparr>, m)
     else
      let (result, p') = p_batchRead P request (pm_provider m)
      in (result, m\<lparr>pm_provider := p', pm_state := p_state P p'\<rparr>))"

definition ProviderManager_shutdown :: "'p provider_ops \<Rightarrow> 'p provider_manager \<Rightarrow> 'p provider_manager" where
  "ProviderManager_shutdown P m =
    (if pm_state m = PS_Shutdown then m
     else m\<lparr>pm_provider := p_shutdown P (pm_provider m), pm_state := PS_Shutdown\<rparr>)"

datatype pm_op =
    PM_initialize provider_init_options
  | PM_discover i64
  | PM_batchRead provider_read_request
  | PM_shutdown

fun pm_step :: "'p provider_ops \<Rightarrow> pm_op \<Rightarrow> 'p provider_manager \<Rightarrow> 'p provider_manager" where
  "pm_step P (PM_initialize opts) m = snd (ProviderManager_initialize P opts m)"
| "pm_step P (PM_discover deadline) m = snd (ProviderManager_discover P deadline m)"
| "pm_step P (PM_batchRead request) m = snd (ProviderManager_batchRead P request m)"
| "pm_step P PM_shutdown m = ProviderManager_shutdown P m"

lemmas ProviderManager_defs =
  ProviderManager_initialize_def ProviderManager_discover_def ProviderManager_batchRead_def
  ProviderManager_shutdown_def

text \<open>Shutdown is absorbing for any provider: no later operation reaches the provider.\<close>

lemma pm_step_shutdown: "pm_state m = PS_Shutdown \<Longrightarrow> pm_step P op m = m"
  by (cases op) (auto simp: ProviderManager_defs)

lemma pm_fold_shutdown: "pm_state m = PS_Shutdown \<Longrightarrow> fold (pm_step P) ops m = m"
  by (induction ops) (auto simp: pm_step_shutdown)

lemma shutdown_state: "pm_state (ProviderManager_shutdown P m) = PS_Shutdown"
  by (simp add: ProviderManager_shutdown_def)

section \<open>The contract of a provider, and what the manager makes of it\<close>

text \<open>
  The contract: a fresh provider is uninitialized; a successful \<open>initialize\<close> leaves it ready;
  \<open>shutdown\<close> leaves it shut down; a read whose call status is success or partial answers the
  requested items, in their order.
\<close>

locale provider =
  fixes P :: "'p provider_ops" and p0 :: 'p
  assumes fresh_state: "p_state P p0 = PS_Uninitialized"
    and initialize_ready: "p_initialize P opts p = (st, p') \<Longrightarrow> status_ok st \<Longrightarrow> p_state P p' = PS_Ready"
    and shutdown_shuts: "p_state P (p_shutdown P p) = PS_Shutdown"
    and batchRead_answers:
      "p_batchRead P request p = (result, p') \<Longrightarrow>
       status_code (prr_call_status result) \<in> {SUCCESS, PARTIAL_RESULT} \<Longrightarrow>
       map rr_item (prr_items result) = rq_items request"
begin

definition mirrored :: "'p provider_manager \<Rightarrow> bool" where
  "mirrored m \<longleftrightarrow> pm_state m = p_state P (pm_provider m)"

lemma mirrored_step: "mirrored m \<Longrightarrow> mirrored (pm_step P op m)"
  by (cases op)
    (auto simp: mirrored_def ProviderManager_defs shutdown_shuts initialize_ready Let_def
      split: prod.splits)

lemma mirrored_reach: "mirrored (fold (pm_step P) ops (ProviderManager p0))"
proof -
  have "mirrored m \<Longrightarrow> mirrored (fold (pm_step P) ops m)" for m
    by (induction ops arbitrary: m) (auto intro: mirrored_step)
  moreover have "mirrored (ProviderManager p0)"
    by (simp add: mirrored_def ProviderManager_def fresh_state)
  ultimately show ?thesis by blast
qed

lemma state_mirrors:
  "m = fold (pm_step P) ops (ProviderManager p0) \<Longrightarrow> pm_state m = p_state P (pm_provider m)"
  using mirrored_reach [of ops] by (simp add: mirrored_def)

lemma initialize_status:
  assumes "pm_state m \<noteq> PS_Shutdown"
  shows "fst (ProviderManager_initialize P opts m) = fst (p_initialize P opts (pm_provider m))"
  using assms by (auto simp: ProviderManager_initialize_def initialize_ready Let_def split: prod.splits)

lemma manager_batchRead_answers:
  assumes "ProviderManager_batchRead P request m = (result, m')"
    and "status_code (prr_call_status result) \<in> {SUCCESS, PARTIAL_RESULT}"
  shows "map rr_item (prr_items result) = rq_items request"
  using assms
  by (auto simp: ProviderManager_batchRead_def batchRead_answers split: if_splits prod.splits)

end

interpretation up: provider UnavailableProvider PS_Uninitialized
  by unfold_locales (auto simp: UnavailableProvider_defs)

text \<open>Behind \<open>UnavailableProvider\<close> no read or discovery ever succeeds.\<close>

definition pm_never_ready :: "unavailable_provider provider_manager \<Rightarrow> bool" where
  "pm_never_ready m \<longleftrightarrow> pm_state m \<noteq> PS_Ready \<and> pm_provider m \<noteq> PS_Ready"

lemma pm_never_ready_step: "pm_never_ready m \<Longrightarrow> pm_never_ready (pm_step UnavailableProvider op m)"
  by (cases op) (auto simp: pm_never_ready_def ProviderManager_defs UnavailableProvider_defs)

interpretation upm: component "ProviderManager PS_Uninitialized" "pm_step UnavailableProvider" pm_never_ready
  by unfold_locales (auto simp: pm_never_ready_step, simp add: pm_never_ready_def ProviderManager_def)

section \<open>Properties\<close>

text \<open>
  Shutting the provider manager down is final for every provider: whatever operations
  follow, neither the manager nor the provider behind it changes any more, so no call reaches
  a provider after its shutdown.
\<close>

theorem provider_shutdown_absorbing:
  "fold (pm_step P) ops (ProviderManager_shutdown P m) = ProviderManager_shutdown P m \<and>
   pm_state (ProviderManager_shutdown P m) = PS_Shutdown"
  by (simp add: pm_fold_shutdown shutdown_state)

text \<open>
  Behind the production placeholder \<open>UnavailableProvider\<close> the manager is never ready: after
  any operations, discovery and reads answer UNAVAILABLE and a read returns no item.
\<close>

theorem unavailable_never_ready:
  "let m = fold (pm_step UnavailableProvider) ops (ProviderManager PS_Uninitialized)
   in pm_state m \<noteq> PS_Ready \<and>
      status_code (pdr_call_status (fst (ProviderManager_discover UnavailableProvider t m))) = UNAVAILABLE \<and>
      status_code (prr_call_status (fst (ProviderManager_batchRead UnavailableProvider q m))) = UNAVAILABLE \<and>
      prr_items (fst (ProviderManager_batchRead UnavailableProvider q m)) = []"
  using upm.inv_reach [of ops]
  by (simp add: Let_def pm_never_ready_def ProviderManager_discover_def ProviderManager_batchRead_def)

end
