(* ===== verification/Session.thy ===== *)
theory Session
  imports Provider
begin

text \<open>
  \<open>src/product/src/core/runtime_config.*\<close> and \<open>session_manager.*\<close>: the runtime
  configuration and its validation, and the session table with its identifiers, life cycle
  and per-session quotas. Each mutex-protected member function is one atomic operation.
\<close>

section \<open>Runtime configuration\<close>

record resource_limits =
  max_sessions :: size_t
  max_outstanding_requests_per_session :: size_t
  max_watches_per_session :: size_t
  max_subscriptions_per_session :: size_t
  max_frame_bytes :: size_t

definition default_limits :: resource_limits where
  "default_limits =
     \<lparr>max_sessions = 64, max_outstanding_requests_per_session = 32,
      max_watches_per_session = 64, max_subscriptions_per_session = 32,
      max_frame_bytes = 4 * 1024 * 1024\<rparr>"

record runtime_config =
  rc_target :: target_kind
  rc_limits :: resource_limits
  rc_provider_call_timeout :: i64
  rc_shutdown_grace :: i64

definition RuntimeConfig_validate :: "runtime_config \<Rightarrow> pdcm_status" where
  "RuntimeConfig_validate c =
    (if rc_target c = TK_Unknown then INVALID_ARGUMENT
     else if max_sessions (rc_limits c) = 0 \<or>
        max_outstanding_requests_per_session (rc_limits c) = 0 \<or>
        max_watches_per_session (rc_limits c) = 0 \<or>
        max_subscriptions_per_session (rc_limits c) = 0 \<or>
        max_frame_bytes (rc_limits c) < 20
     then INVALID_ARGUMENT
     else if rc_provider_call_timeout c \<le> 0 \<or> rc_shutdown_grace c \<le> 0 then INVALID_ARGUMENT
     else SUCCESS)"

section \<open>The session table\<close>

datatype session_state = SS_Handshaking | SS_Active | SS_Draining | SS_Closing

record peer_identity =
  peer_user_id :: u32
  peer_group_id :: u32
  peer_process_id :: u64

record session_counters =
  outstanding_requests :: size_t
  watches :: size_t
  subscriptions :: size_t

record session_snapshot =
  ses_id :: u64
  ses_state :: session_state
  ses_peer :: peer_identity
  ses_counters :: session_counters

datatype counter_kind = CK_Request | CK_Watch | CK_Subscription

text \<open>
  The state of \<open>SessionManager\<close>. The \<open>unordered_map\<close> of sessions is kept as an
  association list sorted by identifier: no operation depends on its iteration order.
\<close>

record session_manager =
  sm_limits :: resource_limits
  sm_sessions :: "(u64 \<times> session_snapshot) list"
  sm_next_session_id :: u64
  sm_draining :: bool

definition SessionManager :: "resource_limits \<Rightarrow> session_manager" where
  "SessionManager limits =
     \<lparr>sm_limits = limits, sm_sessions = [], sm_next_session_id = 1, sm_draining = False\<rparr>"

definition zero_counters :: session_counters where
  "zero_counters = \<lparr>outstanding_requests = 0, watches = 0, subscriptions = 0\<rparr>"

definition beginHandshake ::
  "peer_identity \<Rightarrow> session_manager \<Rightarrow> (pdcm_status \<times> u64) \<times> session_manager" where
  "beginHandshake peer m =
    (if sm_draining m then ((UNAVAILABLE, 0), m)
     else if length (sm_sessions m) \<ge> max_sessions (sm_limits m) then ((RESOURCE_EXHAUSTED, 0), m)
     else if sm_next_session_id m = 0 then ((INTERNAL, 0), m)
     else
      let sid = sm_next_session_id m;
          next = (if sid = u64_max then 0 else sid + 1);
          snapshot = \<lparr>ses_id = sid, ses_state = SS_Handshaking, ses_peer = peer,
                      ses_counters = zero_counters\<rparr>
      in ((SUCCESS, sid),
          m\<lparr>sm_next_session_id := next, sm_sessions := omap_emplace sid snapshot (sm_sessions m)\<rparr>))"

definition activate :: "u64 \<Rightarrow> session_manager \<Rightarrow> pdcm_status \<times> session_manager" where
  "activate sid m =
    (case map_of (sm_sessions m) sid of
       None \<Rightarrow> (NOT_FOUND, m)
     | Some s \<Rightarrow>
        if sm_draining m \<or> ses_state s \<noteq> SS_Handshaking then (UNAVAILABLE, m)
        else (SUCCESS,
              m\<lparr>sm_sessions := omap_put sid (s\<lparr>ses_state := SS_Active\<rparr>) (sm_sessions m)\<rparr>))"

fun drain_state :: "session_state \<Rightarrow> session_state" where
  "drain_state SS_Active = SS_Draining"
| "drain_state SS_Handshaking = SS_Closing"
| "drain_state s = s"

definition beginDraining :: "session_manager \<Rightarrow> pdcm_status \<times> session_manager" where
  "beginDraining m =
    (SUCCESS,
     m\<lparr>sm_draining := True,
       sm_sessions := map (\<lambda>(sid, s). (sid, s\<lparr>ses_state := drain_state (ses_state s)\<rparr>)) (sm_sessions m)\<rparr>)"

definition SessionManager_close :: "u64 \<Rightarrow> session_manager \<Rightarrow> pdcm_status \<times> session_manager" where
  "SessionManager_close sid m =
    (case map_of (sm_sessions m) sid of
       None \<Rightarrow> (NOT_FOUND, m)
     | Some s \<Rightarrow> (SUCCESS, m\<lparr>sm_sessions := omap_erase sid (sm_sessions m)\<rparr>))"

definition closeAll :: "session_manager \<Rightarrow> session_manager" where
  "closeAll m = m\<lparr>sm_draining := True, sm_sessions := []\<rparr>"

fun limit :: "resource_limits \<Rightarrow> counter_kind \<Rightarrow> size_t" where
  "limit l CK_Request = max_outstanding_requests_per_session l"
| "limit l CK_Watch = max_watches_per_session l"
| "limit l CK_Subscription = max_subscriptions_per_session l"

fun counter :: "session_counters \<Rightarrow> counter_kind \<Rightarrow> size_t" where
  "counter c CK_Request = outstanding_requests c"
| "counter c CK_Watch = watches c"
| "counter c CK_Subscription = subscriptions c"

text \<open>Writing through the reference that \<open>SessionManager::counter\<close> returns.\<close>

fun set_counter :: "counter_kind \<Rightarrow> size_t \<Rightarrow> session_counters \<Rightarrow> session_counters" where
  "set_counter CK_Request v c = c\<lparr>outstanding_requests := v\<rparr>"
| "set_counter CK_Watch v c = c\<lparr>watches := v\<rparr>"
| "set_counter CK_Subscription v c = c\<lparr>subscriptions := v\<rparr>"

definition reserve :: "u64 \<Rightarrow> counter_kind \<Rightarrow> session_manager \<Rightarrow> pdcm_status \<times> session_manager" where
  "reserve sid kind m =
    (case map_of (sm_sessions m) sid of
       None \<Rightarrow> (NOT_FOUND, m)
     | Some s \<Rightarrow>
        if ses_state s \<noteq> SS_Active then (UNAVAILABLE, m)
        else
         let value = counter (ses_counters s) kind
         in if value \<ge> limit (sm_limits m) kind then (RESOURCE_EXHAUSTED, m)
            else (SUCCESS,
                  m\<lparr>sm_sessions := omap_put sid
                      (s\<lparr>ses_counters := set_counter kind (value + 1) (ses_counters s)\<rparr>)
                      (sm_sessions m)\<rparr>))"

definition release :: "u64 \<Rightarrow> counter_kind \<Rightarrow> session_manager \<Rightarrow> pdcm_status \<times> session_manager" where
  "release sid kind m =
    (case map_of (sm_sessions m) sid of
       None \<Rightarrow> (NOT_FOUND, m)
     | Some s \<Rightarrow>
        let value = counter (ses_counters s) kind
        in if value = 0 then (INVALID_ARGUMENT, m)
           else (SUCCESS,
                 m\<lparr>sm_sessions := omap_put sid
                     (s\<lparr>ses_counters := set_counter kind (value - 1) (ses_counters s)\<rparr>)
                     (sm_sessions m)\<rparr>))"

definition SessionManager_snapshot :: "u64 \<Rightarrow> session_manager \<Rightarrow> session_snapshot option" where
  "SessionManager_snapshot sid m = map_of (sm_sessions m) sid"

definition SessionManager_size :: "session_manager \<Rightarrow> size_t" where
  "SessionManager_size m = length (sm_sessions m)"

text \<open>
  The public operations, as labels. \<open>reserveRequest\<close>, \<open>reserveWatch\<close> and
  \<open>reserveSubscription\<close> are \<open>reserve\<close> at a kind, and the release functions likewise.
\<close>

datatype sm_op =
    SM_beginHandshake peer_identity
  | SM_activate u64
  | SM_beginDraining
  | SM_close u64
  | SM_closeAll
  | SM_reserve u64 counter_kind
  | SM_release u64 counter_kind

fun sm_step :: "sm_op \<Rightarrow> session_manager \<Rightarrow> session_manager" where
  "sm_step (SM_beginHandshake peer) m = snd (beginHandshake peer m)"
| "sm_step (SM_activate sid) m = snd (activate sid m)"
| "sm_step SM_beginDraining m = snd (beginDraining m)"
| "sm_step (SM_close sid) m = snd (SessionManager_close sid m)"
| "sm_step SM_closeAll m = closeAll m"
| "sm_step (SM_reserve sid kind) m = snd (reserve sid kind m)"
| "sm_step (SM_release sid kind) m = snd (release sid kind m)"

lemmas sm_op_defs =
  beginHandshake_def activate_def beginDraining_def SessionManager_close_def closeAll_def
  reserve_def release_def

section \<open>Invariant\<close>

lemma counter_set_counter [simp]:
  "counter (set_counter k v c) k' = (if k = k' then v else counter c k')"
  by (cases k; cases k') auto

definition session_ok :: "session_manager \<Rightarrow> u64 \<Rightarrow> session_snapshot \<Rightarrow> bool" where
  "session_ok m sid s \<longleftrightarrow>
     ses_id s = sid \<and> sid \<noteq> 0 \<and> (sm_next_session_id m \<noteq> 0 \<longrightarrow> sid < sm_next_session_id m) \<and>
     (\<forall>k. counter (ses_counters s) k \<le> limit (sm_limits m) k) \<and>
     (sm_draining m \<longrightarrow> ses_state s \<in> {SS_Draining, SS_Closing})"

definition sm_inv :: "session_manager \<Rightarrow> bool" where
  "sm_inv m \<longleftrightarrow>
     omap_ok (sm_sessions m) \<and> length (sm_sessions m) \<le> max_sessions (sm_limits m) \<and>
     (\<forall>sid s. map_of (sm_sessions m) sid = Some s \<longrightarrow> session_ok m sid s)"

lemma zero_counters_le [simp]: "counter zero_counters k \<le> n"
  by (cases k) (auto simp: zero_counters_def)

lemma drain_state_drained: "drain_state st \<noteq> SS_Closing \<Longrightarrow> drain_state st = SS_Draining"
  by (cases st) auto

lemma sm_invD: "sm_inv m \<Longrightarrow> map_of (sm_sessions m) sid = Some s \<Longrightarrow> session_ok m sid s"
  by (simp add: sm_inv_def)

text \<open>Replacing one session by one that is well-formed keeps the invariant.\<close>

lemma sm_inv_put:
  assumes "sm_inv m" "map_of (sm_sessions m) sid = Some s" "session_ok m sid s'"
  shows "sm_inv (m\<lparr>sm_sessions := omap_put sid s' (sm_sessions m)\<rparr>)"
  using assms by (auto simp: sm_inv_def map_of_omap_put length_omap_put session_ok_def)

lemma sm_inv_beginHandshake:
  assumes "sm_inv m"
  shows "sm_inv (snd (beginHandshake peer m))"
proof (cases "fst (fst (beginHandshake peer m)) = SUCCESS")
  case False
  then show ?thesis using assms by (auto simp: beginHandshake_def Let_def split: if_splits)
next
  case True
  define new where "new = \<lparr>ses_id = sm_next_session_id m, ses_state = SS_Handshaking,
    ses_peer = peer, ses_counters = zero_counters\<rparr>"
  let ?m = "snd (beginHandshake peer m)" and ?n = "sm_next_session_id m"
  have room: "length (sm_sessions m) < max_sessions (sm_limits m)" and nz: "?n \<noteq> 0"
    and nd: "\<not> sm_draining m"
    using True by (auto simp: beginHandshake_def split: if_splits)
  have fresh: "map_of (sm_sessions m) ?n = None"
    using assms nz by (cases "map_of (sm_sessions m) ?n") (auto simp: sm_inv_def session_ok_def)
  then have m': "?m = m\<lparr>sm_next_session_id := (if ?n = u64_max then 0 else ?n + 1),
      sm_sessions := omap_put ?n new (sm_sessions m)\<rparr>"
    using room nz nd by (simp add: beginHandshake_def Let_def omap_emplace_def new_def)
  have "session_ok ?m ?n new"
    using nz nd by (auto simp: m' session_ok_def new_def zero_counters_le less_inc)
  moreover have "session_ok ?m sid s" if "session_ok m sid s" for sid s
    using that nz by (auto simp: m' session_ok_def inc_nonzero intro: less_trans [OF _ less_inc])
  ultimately show ?thesis
    using assms room fresh
    by (auto simp: m' sm_inv_def map_of_omap_put length_omap_put)
qed

lemma sm_inv_step:
  assumes "sm_inv m"
  shows "sm_inv (sm_step op m)"
proof (cases op)
  case (SM_beginHandshake peer)
  then show ?thesis by (simp add: sm_inv_beginHandshake assms)
next
  case (SM_activate sid)
  then show ?thesis
    using assms
    by (auto simp: activate_def intro!: sm_inv_put split: option.splits)
      (auto dest!: sm_invD simp: session_ok_def)
next
  case SM_beginDraining
  then show ?thesis
    using assms
    by (auto simp: sm_inv_def beginDraining_def session_ok_def drain_state_drained)
next
  case (SM_close sid)
  then show ?thesis
    using assms length_omap_erase_le [of sid "sm_sessions m"]
    by (auto simp: sm_inv_def SessionManager_close_def session_ok_def split: option.splits if_splits)
next
  case SM_closeAll
  then show ?thesis by (simp add: sm_inv_def closeAll_def)
next
  case (SM_reserve sid kind)
  then show ?thesis
    using assms
    by (auto simp: reserve_def Let_def intro!: sm_inv_put split: option.splits)
      (auto dest!: sm_invD simp: session_ok_def)
next
  case (SM_release sid kind)
  then show ?thesis
    using assms
    by (auto simp: release_def Let_def intro!: sm_inv_put split: option.splits)
      (auto dest!: sm_invD simp: session_ok_def intro: order_trans [OF diff_le_self])
qed

lemma sm_limits_step [simp]: "sm_limits (sm_step op m) = sm_limits m"
  by (cases op) (auto simp: sm_op_defs Let_def split: option.splits)

interpretation sm: component "SessionManager limits" sm_step
  "\<lambda>m. sm_inv m \<and> sm_limits m = limits" for limits
  by unfold_locales (auto simp: sm_inv_step, auto simp: sm_inv_def SessionManager_def)

section \<open>Identifiers\<close>

text \<open>The identifiers that the successful handshakes of an execution return, in order.\<close>

fun issued :: "sm_op list \<Rightarrow> session_manager \<Rightarrow> u64 list" where
  "issued [] m = []"
| "issued (op # ops) m =
    (case op of
       SM_beginHandshake peer \<Rightarrow>
         (case fst (beginHandshake peer m) of (st, sid) \<Rightarrow> if st = SUCCESS then [sid] else [])
     | _ \<Rightarrow> []) @ issued ops (sm_step op m)"

lemma sm_next_mono:
  "sm_next_session_id (sm_step op m) \<noteq> 0 \<Longrightarrow>
   sm_next_session_id m \<noteq> 0 \<and> sm_next_session_id m \<le> sm_next_session_id (sm_step op m)"
  by (cases op) (auto simp: sm_op_defs Let_def word_inc intro: less_imp_le split: option.splits if_splits)

lemma issued_bound:
  "sid \<in> set (issued ops m) \<Longrightarrow> sm_next_session_id m \<noteq> 0 \<and> sm_next_session_id m \<le> sid"
proof (induction ops arbitrary: m)
  case (Cons op ops)
  show ?case
  proof (cases "sid \<in> set (issued ops (sm_step op m))")
    case True
    then show ?thesis using Cons.IH [OF True] sm_next_mono [of op m] by auto
  next
    case False
    with Cons.prems show ?thesis
      by (cases op) (auto simp: beginHandshake_def Let_def split: if_splits)
  qed
qed simp

lemma issued_sorted: "sorted_wrt (<) (issued ops m)"
proof (induction ops arbitrary: m)
  case (Cons op ops)
  show ?case
  proof (cases op)
    case (SM_beginHandshake peer)
    have "sm_next_session_id m < sid"
      if "sid \<in> set (issued ops (sm_step op m))" "fst (fst (beginHandshake peer m)) = SUCCESS" for sid
      using issued_bound [OF that(1)] that(2) SM_beginHandshake
      by (auto simp: beginHandshake_def Let_def inc_le_iff split: if_splits)
    then show ?thesis
      using Cons.IH SM_beginHandshake
      by (auto simp: beginHandshake_def Let_def split: if_splits)
  qed (use Cons.IH in auto)
qed simp

section \<open>Life cycle\<close>

text \<open>The transitions of a session that stays in the table.\<close>

inductive session_trans :: "session_state \<Rightarrow> session_state \<Rightarrow> bool" where
  activated: "session_trans SS_Handshaking SS_Active"
| rejected: "session_trans SS_Handshaking SS_Closing"
| drained: "session_trans SS_Active SS_Draining"

code_pred session_trans .

inductive_cases session_trans_ActiveE: "session_trans s SS_Active"

lemma session_trans_star [simp]:
  "session_trans\<^sup>*\<^sup>* SS_Handshaking SS_Active" "session_trans\<^sup>*\<^sup>* SS_Handshaking SS_Closing"
  "session_trans\<^sup>*\<^sup>* SS_Active SS_Draining"
  by (rule r_into_rtranclp [of session_trans], rule session_trans.intros)+

lemma drain_trans: "session_trans\<^sup>*\<^sup>* s (drain_state s)"
  by (cases s) auto

lemma session_step:
  assumes "sm_inv m" "map_of (sm_sessions m) sid = Some s" "map_of (sm_sessions (sm_step op m)) sid = Some s'"
  shows "session_trans\<^sup>*\<^sup>* (ses_state s) (ses_state s') \<and> ses_peer s' = ses_peer s"
  using assms
  by (cases op)
    (auto simp: sm_op_defs sm_inv_def Let_def map_of_omap_put map_of_omap_emplace drain_trans
      split: option.splits if_splits)

lemma session_absent_step:
  assumes "sm_inv m" "map_of (sm_sessions m) sid = None" "sid \<noteq> 0"
    and "sm_next_session_id m \<noteq> 0 \<longrightarrow> sid < sm_next_session_id m"
  shows "map_of (sm_sessions (sm_step op m)) sid = None"
  using assms
  by (cases op)
    (auto simp: sm_op_defs sm_inv_def Let_def map_of_omap_put map_of_omap_emplace
      split: option.splits if_splits)

lemma id_below_next_step:
  assumes "sm_next_session_id m \<noteq> 0 \<longrightarrow> sid < sm_next_session_id m"
  shows "sm_next_session_id (sm_step op m) \<noteq> 0 \<longrightarrow> sid < sm_next_session_id (sm_step op m)"
  using assms sm_next_mono [of op m] by auto

lemma session_absent_fold:
  assumes "sm_inv m" "map_of (sm_sessions m) sid = None" "sid \<noteq> 0"
    and "sm_next_session_id m \<noteq> 0 \<longrightarrow> sid < sm_next_session_id m"
  shows "map_of (sm_sessions (fold sm_step ops m)) sid = None"
  using assms
proof (induction ops arbitrary: m)
  case (Cons op ops)
  then show ?case
    using session_absent_step [of m sid op] id_below_next_step [of m sid op] sm_inv_step [of m op]
    by simp
qed simp

lemma session_life:
  assumes "sm_inv m" "map_of (sm_sessions m) sid = Some s"
    and "map_of (sm_sessions (fold sm_step ops m)) sid = Some s'"
  shows "session_trans\<^sup>*\<^sup>* (ses_state s) (ses_state s') \<and> ses_peer s' = ses_peer s"
  using assms
proof (induction ops arbitrary: m s)
  case (Cons op ops)
  let ?m = "sm_step op m"
  have inv: "sm_inv ?m" using Cons.prems(1) by (rule sm_inv_step)
  have "session_ok m sid s" using Cons.prems by (auto simp: sm_inv_def)
  then have "sid \<noteq> 0" and "sm_next_session_id ?m \<noteq> 0 \<longrightarrow> sid < sm_next_session_id ?m"
    using id_below_next_step [of m sid op] by (auto simp: session_ok_def)
  then obtain t where t: "map_of (sm_sessions ?m) sid = Some t"
    using Cons.prems(3) session_absent_fold [OF inv, of sid ops] by fastforce
  have "session_trans\<^sup>*\<^sup>* (ses_state s) (ses_state t) \<and> ses_peer t = ses_peer s"
    using session_step [OF Cons.prems(1,2) t] .
  moreover have "session_trans\<^sup>*\<^sup>* (ses_state t) (ses_state s') \<and> ses_peer s' = ses_peer t"
    using Cons.IH [OF inv t] Cons.prems(3) by simp
  ultimately show ?case by (auto intro: rtranclp_trans)
qed simp

section \<open>Draining\<close>

lemma sm_draining_step: "sm_draining m \<Longrightarrow> sm_draining (sm_step op m)"
  by (cases op) (auto simp: sm_op_defs Let_def split: option.splits)

lemma sm_draining_fold: "sm_draining m \<Longrightarrow> sm_draining (fold sm_step ops m)"
  by (induction ops arbitrary: m) (auto intro: sm_draining_step)

lemma drained_refuses:
  assumes "sm_inv m" "sm_draining m"
  shows "fst (fst (beginHandshake peer m)) = UNAVAILABLE"
    and "fst (activate sid m) \<in> {NOT_FOUND, UNAVAILABLE}"
    and "fst (reserve sid kind m) \<in> {NOT_FOUND, UNAVAILABLE}"
proof -
  have "ses_state s \<noteq> SS_Active" if "map_of (sm_sessions m) sid = Some s" for s
    using assms that by (force simp: sm_inv_def session_ok_def)
  then show "fst (reserve sid kind m) \<in> {NOT_FOUND, UNAVAILABLE}"
    by (auto simp: reserve_def split: option.splits)
qed (use assms in \<open>auto simp: beginHandshake_def activate_def split: option.splits\<close>)

section \<open>Quotas\<close>

lemma set_counter_set_counter [simp]: "set_counter k v (set_counter k w c) = set_counter k v c"
  by (cases k) auto

lemma set_counter_same [simp]: "set_counter k (counter c k) c = c"
  by (cases k) auto

lemma reserve_release:
  assumes "sm_inv m" "reserve sid kind m = (SUCCESS, m')"
  shows "release sid kind m' = (SUCCESS, m)"
  using assms
  by (auto simp: reserve_def release_def Let_def sm_inv_def map_of_omap_put
      split: option.splits if_splits)

lemma reserve_status:
  assumes "map_of (sm_sessions m) sid = Some s" "ses_state s = SS_Active"
  shows "fst (reserve sid kind m) =
    (if counter (ses_counters s) kind < limit (sm_limits m) kind then SUCCESS else RESOURCE_EXHAUSTED)"
  using assms by (auto simp: reserve_def Let_def)

section \<open>Properties\<close>

text \<open>
  C16: In every reachable state the session table respects its limits: at most
  \<open>max_sessions\<close> sessions, each keyed by its own non-zero identifier and each of its
  counters within the configured quota.
\<close>

theorem session_quotas_kept:
  assumes "m = fold sm_step ops (SessionManager limits)"
  shows "SessionManager_size m \<le> max_sessions limits \<and>
    (\<forall>sid s. SessionManager_snapshot sid m = Some s \<longrightarrow>
       ses_id s = sid \<and> sid \<noteq> 0 \<and> (\<forall>k. counter (ses_counters s) k \<le> limit limits k))"
  using sm.inv_reach [of ops limits]
  by (auto simp: assms SessionManager_size_def SessionManager_snapshot_def sm_inv_def session_ok_def)

definition witness_peer :: peer_identity where
  "witness_peer = \<lparr>peer_user_id = 0, peer_group_id = 0, peer_process_id = 1\<rparr>"

definition witness_limits :: resource_limits where
  "witness_limits =
     \<lparr>max_sessions = 4, max_outstanding_requests_per_session = 2, max_watches_per_session = 2,
      max_subscriptions_per_session = 2, max_frame_bytes = 20\<rparr>"

definition witness_ops :: "sm_op list" where
  "witness_ops = [SM_beginHandshake witness_peer, SM_activate 1, SM_reserve 1 CK_Watch]"

theorem session_quotas_kept_witness:
  "SessionManager_size (fold sm_step witness_ops (SessionManager witness_limits)) \<le> 4"
  using session_quotas_kept [OF refl, of witness_ops witness_limits]
  by (simp add: witness_limits_def)

text \<open>
  Session identifiers are never reused: along any execution, closings included, the
  identifiers of the successful handshakes increase strictly (also when the counter is
  exhausted: then no further identifier is issued).
\<close>

theorem session_ids_never_reused:
  "sorted_wrt (<) (issued ops (SessionManager limits))"
  by (rule issued_sorted)

text \<open>
  A session that is in the table now and after any further operations has moved only
  along handshaking, active, draining or handshaking, closing, and keeps its peer identity: a
  session never becomes active twice and never leaves draining.
\<close>

theorem session_life_cycle:
  assumes "m = fold sm_step ops (SessionManager limits)"
    and "SessionManager_snapshot sid m = Some s"
    and "SessionManager_snapshot sid (fold sm_step ops' m) = Some s'"
  shows "session_trans\<^sup>*\<^sup>* (ses_state s) (ses_state s') \<and> ses_peer s' = ses_peer s"
  using sm.inv_reach [of ops limits] assms
  by (intro session_life [of m sid s ops' s']) (auto simp: SessionManager_snapshot_def)

text \<open>
  Draining is final: after \<open>beginDraining\<close>, whatever follows, every handshake is refused
  with UNAVAILABLE and no session can be activated or reserve a resource.
\<close>

theorem session_draining_final:
  fixes m0 ops ops'
  assumes "m0 = fold sm_step ops (SessionManager limits)"
    and "m = fold sm_step ops' (snd (beginDraining m0))"
  shows "fst (fst (beginHandshake peer m)) = UNAVAILABLE \<and> fst (activate sid m) \<noteq> SUCCESS \<and>
    fst (reserve sid kind m) \<noteq> SUCCESS"
proof -
  have "m = fold sm_step (ops @ SM_beginDraining # ops') (SessionManager limits)"
    by (simp add: assms)
  then have inv: "sm_inv m" using sm.inv_reach [of "ops @ SM_beginDraining # ops'" limits] by simp
  have "sm_draining m"
    unfolding assms(2) by (rule sm_draining_fold) (simp add: beginDraining_def)
  from drained_refuses(1) [OF inv this, of peer] drained_refuses(2) [OF inv this, of sid]
    drained_refuses(3) [OF inv this, of sid kind]
  show ?thesis by auto
qed

text \<open>
  A reservation succeeds exactly while the counter of an active session is below its
  quota, and releasing after it restores the table exactly.
\<close>

theorem session_reserve_exact:
  assumes "m = fold sm_step ops (SessionManager limits)"
    and "SessionManager_snapshot sid m = Some s" and "ses_state s = SS_Active"
  shows "(fst (reserve sid kind m) = SUCCESS \<longleftrightarrow> counter (ses_counters s) kind < limit limits kind) \<and>
    (fst (reserve sid kind m) = SUCCESS \<longrightarrow> release sid kind (snd (reserve sid kind m)) = (SUCCESS, m))"
proof -
  have inv: "sm_inv m" and l: "sm_limits m = limits"
    using sm.inv_reach [of ops limits] by (simp_all add: assms(1))
  have "fst (reserve sid kind m) = SUCCESS \<longleftrightarrow> counter (ses_counters s) kind < limit limits kind"
    using reserve_status [of m sid s kind] assms(2,3) l by (simp add: SessionManager_snapshot_def)
  with reserve_release [OF inv] show ?thesis by (metis prod.collapse)
qed

end
