(* ===== verification/Catalog.thy ===== *)
theory Catalog
  imports Provider
begin

text \<open>
  \<open>src/product/src/semantic\<close>: the target catalog and its validation, the immutable
  \<open>CatalogView\<close> with its queries, and \<open>SemanticCatalog::commit\<close>, which turns a provider
  descriptor into the next view and keeps the identity history from which entity identifiers
  and generations come.
\<close>

section \<open>Catalog data\<close>

datatype entity_state = ES_Unknown | ES_Ready | ES_Error

record string_attribute =
  sa_status :: observation_status
  sa_value :: string

record entity_record =
  en_ref :: entity_ref
  en_state :: entity_state
  en_native_id :: string_attribute
  en_pci_bdf :: string_attribute
  en_pdrv_version :: string_attribute
  en_provider_version :: string
  en_target :: target_kind
  en_item_status :: pdcm_status

datatype metric_value_kind = MK_Int64 | MK_Uint64 | MK_Double | MK_Bool | MK_String | MK_Enum

datatype metric_temporality = MT_Gauge | MT_CumulativeCounter

datatype metric_collection_mode = CM_Poll | CM_Event | CM_Derived

datatype requirement_level = RL_Required | RL_Conditional

datatype metrics_catalog_status = MC_BlockedExternal | MC_Ready

record metric_descriptor =
  md_id :: metric_id
  md_name :: string
  md_value_type :: metric_value_kind
  md_unit :: string
  md_temporality :: metric_temporality
  md_scope :: entity_kind
  md_collection_mode :: metric_collection_mode
  md_default_period_ns :: u64
  md_min_period_ns :: u64
  md_freshness_ns :: u64
  md_supports_fpga :: bool
  md_supports_emu :: bool
  md_requirement :: requirement_level
  md_semantic_version :: u32
  md_provider_mapping_approved :: bool
  md_dependencies :: "metric_id list"

record health_catalog_entry =
  hc_subsystem_id :: u32
  hc_scope :: entity_kind
  hc_requirement :: requirement_level
  hc_evidence_contract :: string
  hc_provider_data_id :: "u32 option"
  hc_freshness_ns :: u64
  hc_semantic_version :: u32
  hc_limitation :: string

definition default_health_entry :: health_catalog_entry where
  "default_health_entry =
     \<lparr>hc_subsystem_id = kFirmwareHeartbeatHealthId, hc_scope = EK_Device,
      hc_requirement = RL_Required, hc_evidence_contract = ''firmware_heartbeat'',
      hc_provider_data_id = None, hc_freshness_ns = 0, hc_semantic_version = 1,
      hc_limitation = ''native mapping pending''\<rparr>"

record target_catalog =
  tc_catalog_version :: u32
  tc_target :: target_kind
  tc_metrics_status :: metrics_catalog_status
  tc_metrics :: "metric_descriptor list"
  tc_health :: "health_catalog_entry list"

datatype capability_kind = CP_MetricsCatalog | CP_Metric | CP_Health

datatype capability_reason =
    CR_Supported | CR_CatalogBlockedExternal | CR_ProviderUnsupported | CR_DependencyMissing
  | CR_TemporarilyUnavailable | CR_PermissionHidden | CR_PostP0Disabled | CR_TopologyUnsupported

record capability_item =
  ci_kind :: capability_kind
  ci_id :: u32
  ci_supported :: bool
  ci_reason :: capability_reason
  ci_semantic_version :: u32
  ci_catalog_generation :: u64

record capability_set =
  cs_entity :: entity_ref
  cs_catalog_generation :: u64
  cs_items :: "capability_item list"

record catalog_diff =
  df_old_generation :: u64
  df_new_generation :: u64
  df_added_entities :: size_t
  df_removed_entities :: size_t
  df_changed_entities :: size_t
  df_capabilities_changed :: bool
  df_topology_changed :: bool

record catalog_commit_result =
  ccr_status :: pdcm_status
  ccr_detected_device_count :: u32
  ccr_catalog_generation :: u64
  ccr_committed :: bool
  ccr_diff :: catalog_diff

definition default_diff :: catalog_diff where
  "default_diff =
     \<lparr>df_old_generation = 0, df_new_generation = 0, df_added_entities = 0,
      df_removed_entities = 0, df_changed_entities = 0, df_capabilities_changed = False,
      df_topology_changed = False\<rparr>"

section \<open>The target catalog\<close>

definition validMetricName :: "string \<Rightarrow> bool" where
  "validMetricName name \<longleftrightarrow>
     (case name of
        [] \<Rightarrow> False
      | c # _ \<Rightarrow>
         (c = CHR ''_'' \<or> islower c) \<and>
         list_all (\<lambda>v. islower v \<or> isdigit v \<or> v = CHR ''_'') name)"

text \<open>The loop over the metrics, with the sets of identifiers and names seen so far.\<close>

fun validateMetrics :: "u32 set \<Rightarrow> string set \<Rightarrow> metric_descriptor list \<Rightarrow> pdcm_status" where
  "validateMetrics ids names [] = SUCCESS"
| "validateMetrics ids names (metric # metrics) =
    (if md_id metric = 0 \<or> \<not> validMetricName (md_name metric) \<or> md_unit metric = [] \<or>
        md_scope metric \<noteq> EK_Device \<or> md_semantic_version metric = 0 \<or>
        md_min_period_ns metric = 0 \<or> md_default_period_ns metric < md_min_period_ns metric \<or>
        md_freshness_ns metric < md_default_period_ns metric \<or>
        md_id metric \<in> ids \<or> md_name metric \<in> names
     then INVALID_ARGUMENT
     else if md_requirement metric = RL_Required \<and> md_collection_mode metric \<noteq> CM_Derived \<and>
        \<not> md_provider_mapping_approved metric
     then INVALID_ARGUMENT
     else validateMetrics (insert (md_id metric) ids) (insert (md_name metric) names) metrics)"

definition TargetCatalog_validate :: "target_catalog \<Rightarrow> pdcm_status" where
  "TargetCatalog_validate c =
    (if tc_catalog_version c = 0 \<or> (tc_target c \<noteq> TK_Fpga \<and> tc_target c \<noteq> TK_Emu)
     then INVALID_ARGUMENT
     else if tc_metrics_status c = MC_BlockedExternal \<and> tc_metrics c \<noteq> [] then INVALID_ARGUMENT
     else if validateMetrics {} {} (tc_metrics c) \<noteq> SUCCESS
     then validateMetrics {} {} (tc_metrics c)
     else
      (case tc_health c of
         [h] \<Rightarrow>
          if hc_subsystem_id h \<noteq> kFirmwareHeartbeatHealthId \<or> hc_scope h \<noteq> EK_Device \<or>
             hc_requirement h \<noteq> RL_Required \<or> hc_evidence_contract h \<noteq> ''firmware_heartbeat'' \<or>
             hc_freshness_ns h = 0 \<or> hc_semantic_version h = 0 \<or> hc_limitation h = []
          then INVALID_ARGUMENT else SUCCESS
       | _ \<Rightarrow> INVALID_ARGUMENT))"

definition TargetCatalog_blocked :: "target_kind \<Rightarrow> target_catalog" where
  "TargetCatalog_blocked target =
     \<lparr>tc_catalog_version = 1, tc_target = target, tc_metrics_status = MC_BlockedExternal,
      tc_metrics = [], tc_health = [default_health_entry\<lparr>hc_freshness_ns := 5000000000\<rparr>]\<rparr>"

section \<open>Catalog views\<close>

record catalog_view =
  cv_generation :: u64
  cv_detected_device_count :: u32
  cv_topology_unsupported :: bool
  cv_entities :: "entity_record list"
  cv_capability_sets :: "capability_set list"

definition empty_view :: catalog_view where
  "empty_view =
     \<lparr>cv_generation = 0, cv_detected_device_count = 0, cv_topology_unsupported = False,
      cv_entities = [], cv_capability_sets = []\<rparr>"

record entity_list_result =
  el_status :: pdcm_status
  el_detected_device_count :: u32
  el_catalog_generation :: u64
  el_entities :: "entity_record list"

definition CatalogView_list :: "entity_kind \<Rightarrow> catalog_view \<Rightarrow> entity_list_result" where
  "CatalogView_list kind v =
    (let result = \<lparr>el_status = SUCCESS, el_detected_device_count = cv_detected_device_count v,
                   el_catalog_generation = cv_generation v, el_entities = []\<rparr>
     in if kind \<noteq> EK_Unknown \<and> kind \<noteq> EK_Device then result\<lparr>el_status := UNSUPPORTED\<rparr>
        else if cv_topology_unsupported v then result\<lparr>el_status := UNSUPPORTED\<rparr>
        else
         let partial = list_ex (\<lambda>e. en_item_status e \<noteq> SUCCESS) (cv_entities v)
         in result\<lparr>el_entities := cv_entities v,
                   el_status := (if partial then PARTIAL_RESULT else SUCCESS)\<rparr>)"

definition CatalogView_resolve :: "entity_ref \<Rightarrow> catalog_view \<Rightarrow> pdcm_status \<times> entity_record option" where
  "CatalogView_resolve entity v =
    (if er_kind entity \<noteq> EK_Device then (INVALID_ARGUMENT, None)
     else
      case find (\<lambda>r. er_kind (en_ref r) = er_kind entity \<and> er_id (en_ref r) = er_id entity)
             (cv_entities v) of
        None \<Rightarrow> (NOT_FOUND, None)
      | Some r \<Rightarrow>
         if er_generation (en_ref r) \<noteq> er_generation entity then (STALE_GENERATION, None)
         else (SUCCESS, Some r))"

definition CatalogView_capabilities ::
  "entity_ref \<Rightarrow> catalog_view \<Rightarrow> pdcm_status \<times> capability_set option" where
  "CatalogView_capabilities entity v =
    (let (st, _) = CatalogView_resolve entity v
     in if \<not> ok st then (st, None)
        else
         case find (\<lambda>s. cs_entity s = entity) (cv_capability_sets v) of
           None \<Rightarrow> (NOT_FOUND, None)
         | Some s \<Rightarrow> (SUCCESS, Some s))"

section \<open>Differences of views\<close>

definition sameCapabilitySemantics :: "capability_set \<Rightarrow> capability_set \<Rightarrow> bool" where
  "sameCapabilitySemantics lhs rhs \<longleftrightarrow>
     cs_entity lhs = cs_entity rhs \<and>
     list_all2
       (\<lambda>l r. ci_kind l = ci_kind r \<and> ci_id l = ci_id r \<and> ci_supported l = ci_supported r \<and>
              ci_reason l = ci_reason r \<and> ci_semantic_version l = ci_semantic_version r)
       (cs_items lhs) (cs_items rhs)"

definition find_entity :: "entity_record \<Rightarrow> entity_record list \<Rightarrow> entity_record option" where
  "find_entity e es =
     find (\<lambda>c. er_kind (en_ref c) = er_kind (en_ref e) \<and> er_id (en_ref c) = er_id (en_ref e)) es"

definition difference :: "catalog_view \<Rightarrow> catalog_view \<Rightarrow> catalog_diff" where
  "difference old_view new_view =
     \<lparr>df_old_generation = cv_generation old_view,
      df_new_generation = cv_generation new_view,
      df_added_entities =
        length (filter (\<lambda>e. find_entity e (cv_entities old_view) = None) (cv_entities new_view)),
      df_removed_entities =
        length (filter (\<lambda>e. find_entity e (cv_entities new_view) = None) (cv_entities old_view)),
      df_changed_entities =
        length (filter (\<lambda>e. case find_entity e (cv_entities old_view) of
                              None \<Rightarrow> False | Some old \<Rightarrow> old \<noteq> e) (cv_entities new_view)),
      df_capabilities_changed =
        (\<not> list_all2 sameCapabilitySemantics (cv_capability_sets old_view)
              (cv_capability_sets new_view)),
      df_topology_changed =
        (cv_topology_unsupported old_view \<noteq> cv_topology_unsupported new_view \<or>
         cv_detected_device_count old_view \<noteq> cv_detected_device_count new_view)\<rparr>"

section \<open>The semantic catalog\<close>

record identity_history =
  ih_id :: u64
  ih_generation :: u64
  ih_incarnation :: string
  ih_present :: bool

record semantic_catalog =
  sc_target_catalog :: target_catalog
  sc_snapshot :: catalog_view
  sc_identity_history :: "(string, identity_history) omap"
  sc_next_entity_id :: u64

definition catalog_start :: "target_catalog \<Rightarrow> semantic_catalog" where
  "catalog_start tc =
     \<lparr>sc_target_catalog = tc, sc_snapshot = empty_view, sc_identity_history = [],
      sc_next_entity_id = 0\<rparr>"

text \<open>The constructor throws on an invalid target catalog.\<close>

definition SemanticCatalog :: "target_catalog \<Rightarrow> semantic_catalog option" where
  "SemanticCatalog tc =
    (if \<not> ok (TargetCatalog_validate tc) then None else Some (catalog_start tc))"

definition target_kind_num :: "target_kind \<Rightarrow> nat" where
  "target_kind_num t = (case t of TK_Unknown \<Rightarrow> 0 | TK_Fpga \<Rightarrow> 1 | TK_Emu \<Rightarrow> 2)"

definition identityKey :: "target_catalog \<Rightarrow> provider_entity \<Rightarrow> string" where
  "identityKey tc entity =
    (if pe_stable_native_id entity = [] \<or> pe_pci_bdf entity = [] then []
     else to_string (target_kind_num (tc_target tc)) @ ''|'' @ pe_pci_bdf entity @ ''|'' @
          pe_stable_native_id entity)"

definition find_capability ::
  "provider_data_kind \<Rightarrow> u32 \<Rightarrow> provider_descriptor \<Rightarrow> provider_capability option" where
  "find_capability kind data_id d =
     find (\<lambda>c. pcap_kind c = kind \<and> pcap_data_id c = data_id) (pd_capabilities d)"

definition provider_supports :: "provider_data_kind \<Rightarrow> u32 \<Rightarrow> provider_descriptor \<Rightarrow> bool" where
  "provider_supports kind data_id d =
     (case find_capability kind data_id d of None \<Rightarrow> False | Some c \<Rightarrow> pcap_supported c)"

definition buildCapabilities ::
  "target_catalog \<Rightarrow> entity_record \<Rightarrow> provider_descriptor \<Rightarrow> u64 \<Rightarrow> capability_set" where
  "buildCapabilities tc entity d generation =
    (let metrics =
           \<lparr>ci_kind = CP_MetricsCatalog, ci_id = 0,
            ci_supported = (tc_metrics_status tc = MC_Ready),
            ci_reason = (if tc_metrics_status tc = MC_BlockedExternal
                         then CR_CatalogBlockedExternal else CR_Supported),
            ci_semantic_version = tc_catalog_version tc, ci_catalog_generation = generation\<rparr>;
         metric_items = map (\<lambda>m.
           (let supported = provider_supports PD_Metric (md_id m) d
            in \<lparr>ci_kind = CP_Metric, ci_id = md_id m, ci_supported = supported,
                ci_reason = (if supported then CR_Supported else CR_ProviderUnsupported),
                ci_semantic_version = md_semantic_version m, ci_catalog_generation = generation\<rparr>))
           (tc_metrics tc);
         h = hd (tc_health tc);
         health0 =
           \<lparr>ci_kind = CP_Health, ci_id = hc_subsystem_id h, ci_supported = False,
            ci_reason = CR_ProviderUnsupported, ci_semantic_version = hc_semantic_version h,
            ci_catalog_generation = generation\<rparr>;
         health =
           (case hc_provider_data_id h of
              None \<Rightarrow> health0\<lparr>ci_reason := CR_DependencyMissing\<rparr>
            | Some data_id \<Rightarrow>
               let supported = provider_supports PD_HeartbeatEvidence data_id d
               in health0\<lparr>ci_supported := supported,
                          ci_reason := (if supported then CR_Supported
                                        else CR_ProviderUnsupported)\<rparr>)
     in \<lparr>cs_entity = en_ref entity, cs_catalog_generation = generation,
         cs_items = metrics # metric_items @ [health]\<rparr>)"

fun entityState :: "provider_entity_state \<Rightarrow> entity_state" where
  "entityState PES_Ready = ES_Ready"
| "entityState PES_Error = ES_Error"
| "entityState PES_Unknown = ES_Unknown"
| "entityState PES_Lost = ES_Unknown"

definition validAttribute :: "string \<Rightarrow> string_attribute" where
  "validAttribute v = \<lparr>sa_status = OS_Valid, sa_value = v\<rparr>"

definition unavailableAttribute :: string_attribute where
  "unavailableAttribute = \<lparr>sa_status = OS_NotAvailable, sa_value = []\<rparr>"

text \<open>
  The identity of the single device in the next history: a new entry, or the old one with its
  generation raised when the device was absent or changed incarnation. \<open>Inl\<close> is an early
  return of \<open>commit\<close>.
\<close>

definition select_identity ::
  "string \<Rightarrow> string \<Rightarrow> bool \<Rightarrow> (string, identity_history) omap \<Rightarrow> u64 \<Rightarrow>
   pdcm_status + identity_history \<times> u64" where
  "select_identity key incarnation was_present history next_id =
    (case map_of history key of
       None \<Rightarrow>
        if next_id = u64_max then Inl INTERNAL
        else Inr (\<lparr>ih_id = next_id, ih_generation = 1, ih_incarnation = incarnation,
                   ih_present = True\<rparr>, next_id + 1)
     | Some h \<Rightarrow>
        if \<not> was_present \<or> ih_incarnation h \<noteq> incarnation
        then (if ih_generation h = u64_max then Inl INTERNAL
              else Inr (h\<lparr>ih_generation := ih_generation h + 1, ih_incarnation := incarnation,
                         ih_present := True\<rparr>, next_id))
        else Inr (h\<lparr>ih_incarnation := incarnation, ih_present := True\<rparr>, next_id))"

definition entity_record_of ::
  "provider_descriptor \<Rightarrow> provider_entity \<Rightarrow> identity_history \<Rightarrow> entity_record" where
  "entity_record_of d pe h =
    (let pdrv = (if pe_pdrv_version pe = [] then unavailableAttribute
                 else validAttribute (pe_pdrv_version pe))
     in \<lparr>en_ref = EntityRef EK_Device (ih_id h) (ih_generation h),
         en_state = entityState (pe_state pe),
         en_native_id = validAttribute (pe_stable_native_id pe),
         en_pci_bdf = validAttribute (pe_pci_bdf pe),
         en_pdrv_version = pdrv,
         en_provider_version = pd_provider_version d,
         en_target = pd_target d,
         en_item_status =
           (if pe_state pe \<noteq> PES_Ready \<or> sa_status pdrv \<noteq> OS_Valid \<or> pd_errors d \<noteq> []
            then PARTIAL_RESULT else SUCCESS)\<rparr>)"

definition mark_absent :: "(string, identity_history) omap \<Rightarrow> (string, identity_history) omap" where
  "mark_absent history = map (\<lambda>(k, h). (k, h\<lparr>ih_present := False\<rparr>)) history"

definition was_present :: "semantic_catalog \<Rightarrow> string \<Rightarrow> bool" where
  "was_present c key = (case map_of (sc_identity_history c) key of None \<Rightarrow> False | Some h \<Rightarrow> ih_present h)"

definition SemanticCatalog_commit ::
  "provider_descriptor \<Rightarrow> semantic_catalog \<Rightarrow> catalog_commit_result \<times> semantic_catalog" where
  "SemanticCatalog_commit d c =
    (let previous = sc_snapshot c;
         result = (\<lambda>st. \<lparr>ccr_status = st, ccr_detected_device_count = pd_detected_device_count d,
                         ccr_catalog_generation = cv_generation previous, ccr_committed = False,
                         ccr_diff = default_diff\<rparr>);
         manageable = filter pe_manageable (pd_entities d);
         count = pd_detected_device_count d;
         key = identityKey (sc_target_catalog c) (hd manageable);
         publish = (\<lambda>st entities sets history next_id.
           let next = \<lparr>cv_generation = cv_generation previous + 1, cv_detected_device_count = count,
                       cv_topology_unsupported = (count > 1), cv_entities = entities,
                       cv_capability_sets = sets\<rparr>
           in ((result st)\<lparr>ccr_catalog_generation := cv_generation next, ccr_committed := True,
                           ccr_diff := difference previous next\<rparr>,
               c\<lparr>sc_snapshot := next, sc_identity_history := history, sc_next_entity_id := next_id\<rparr>));
         absent = mark_absent (sc_identity_history c)
     in if pd_target d \<noteq> tc_target (sc_target_catalog c) \<or> pd_state d \<noteq> PS_Ready
        then (result INVALID_ARGUMENT, c)
        else if length manageable \<noteq> unat count then (result INVALID_ARGUMENT, c)
        else if count = 1 \<and> key = [] then (result INVALID_ARGUMENT, c)
        else if cv_generation previous = u64_max then (result INTERNAL, c)
        else if count = 1 then
         (case select_identity key (pe_incarnation (hd manageable)) (was_present c key) absent
                 (sc_next_entity_id c) of
            Inl st \<Rightarrow> (result st, c)
          | Inr (h, next_id) \<Rightarrow>
             let entity = entity_record_of d (hd manageable) h
             in publish (en_item_status entity) [entity]
                  [buildCapabilities (sc_target_catalog c) entity d (cv_generation previous + 1)]
                  (omap_put key h absent) next_id)
        else publish (if count > 1 then UNSUPPORTED else SUCCESS) [] [] absent
               (sc_next_entity_id c))"

section \<open>Lookups in a view\<close>

lemma CatalogView_resolve_Some:
  assumes "CatalogView_resolve entity v = (st, Some r)"
  shows "st = SUCCESS \<and> r \<in> set (cv_entities v) \<and> en_ref r = entity"
  using assms
  by (auto simp: CatalogView_resolve_def dest!: find_Some_D intro: entity_ref.expand
      split: if_splits option.splits)

lemma CatalogView_resolve_None:
  "CatalogView_resolve entity v = (st, None) \<Longrightarrow> st \<in> {INVALID_ARGUMENT, NOT_FOUND, STALE_GENERATION}"
  by (auto simp: CatalogView_resolve_def split: if_splits option.splits)

section \<open>The shape of a commit\<close>

lemma mark_absent_ok [simp]: "omap_ok (mark_absent H) = omap_ok H"
  by (simp add: mark_absent_def)

lemma map_of_mark_absent [simp]:
  "map_of (mark_absent H) k = map_option (\<lambda>h. h\<lparr>ih_present := False\<rparr>) (map_of H k)"
  by (simp add: mark_absent_def)

lemma commit_elim:
  assumes "SemanticCatalog_commit d c = (r, c')"
  obtains
    (rejected) "c' = c" "\<not> ccr_committed r" "ccr_status r \<in> {INVALID_ARGUMENT, INTERNAL}"
      "ccr_catalog_generation r = cv_generation (sc_snapshot c)"
  | (single) key pe h next_id where
      "ccr_committed r" "pd_detected_device_count d = 1" "cv_generation (sc_snapshot c) \<noteq> u64_max"
      "pd_target d = tc_target (sc_target_catalog c)"
      "filter pe_manageable (pd_entities d) = [pe]"
      "key = identityKey (sc_target_catalog c) pe" "key \<noteq> []"
      "select_identity key (pe_incarnation pe) (was_present c key)
         (mark_absent (sc_identity_history c)) (sc_next_entity_id c) = Inr (h, next_id)"
      "ccr_status r = en_item_status (entity_record_of d pe h)"
      "c' = c\<lparr>sc_snapshot :=
              \<lparr>cv_generation = cv_generation (sc_snapshot c) + 1, cv_detected_device_count = 1,
               cv_topology_unsupported = False, cv_entities = [entity_record_of d pe h],
               cv_capability_sets =
                 [buildCapabilities (sc_target_catalog c) (entity_record_of d pe h) d
                    (cv_generation (sc_snapshot c) + 1)]\<rparr>,
            sc_identity_history := omap_put key h (mark_absent (sc_identity_history c)),
            sc_next_entity_id := next_id\<rparr>"
  | (other) "ccr_committed r" "pd_detected_device_count d \<noteq> 1"
      "cv_generation (sc_snapshot c) \<noteq> u64_max"
      "ccr_status r = (if pd_detected_device_count d > 1 then UNSUPPORTED else SUCCESS)"
      "c' = c\<lparr>sc_snapshot :=
              \<lparr>cv_generation = cv_generation (sc_snapshot c) + 1,
               cv_detected_device_count = pd_detected_device_count d,
               cv_topology_unsupported = (pd_detected_device_count d > 1), cv_entities = [],
               cv_capability_sets = []\<rparr>,
            sc_identity_history := mark_absent (sc_identity_history c)\<rparr>"
proof (cases "ccr_committed r")
  case False
  then show ?thesis
    using assms rejected
    by (auto simp: SemanticCatalog_commit_def Let_def select_identity_def
        split: if_splits sum.splits option.splits)
next
  case True
  show ?thesis
  proof (cases "pd_detected_device_count d = 1")
    case one: True
    with assms True obtain pe where pe: "filter pe_manageable (pd_entities d) = [pe]"
      by (auto simp: SemanticCatalog_commit_def Let_def length_Suc_conv split: if_splits)
    let ?key = "identityKey (sc_target_catalog c) pe"
    obtain h next_id where sel: "select_identity ?key (pe_incarnation pe) (was_present c ?key)
         (mark_absent (sc_identity_history c)) (sc_next_entity_id c) = Inr (h, next_id)"
      using assms True one
      by (auto simp: SemanticCatalog_commit_def Let_def pe split: if_splits sum.splits)
    have cond: "pd_target d = tc_target (sc_target_catalog c)" "pd_state d = PS_Ready"
      "?key \<noteq> []" "cv_generation (sc_snapshot c) \<noteq> u64_max"
      using assms True one by (auto simp: SemanticCatalog_commit_def Let_def pe split: if_splits)
    have "r = fst (SemanticCatalog_commit d c)" and "c' = snd (SemanticCatalog_commit d c)"
      using assms by simp_all
    note result = this [unfolded SemanticCatalog_commit_def Let_def, simplified pe one sel cond, simplified]
    show ?thesis
      by (rule single [of pe ?key h next_id]) (simp_all add: result pe one sel cond)
  next
    case False
    then show ?thesis
      by (intro other)
        (use assms True in \<open>auto simp: SemanticCatalog_commit_def Let_def split: if_splits\<close>)
  qed
qed

section \<open>Invariant\<close>

text \<open>The identity key of a published entity, from its published attributes.\<close>

definition entity_key :: "target_catalog \<Rightarrow> entity_record \<Rightarrow> string" where
  "entity_key tc e =
     to_string (target_kind_num (tc_target tc)) @ ''|'' @ sa_value (en_pci_bdf e) @ ''|'' @
     sa_value (en_native_id e)"

definition history_ok :: "(string, identity_history) omap \<Rightarrow> u64 \<Rightarrow> bool" where
  "history_ok H next_id \<longleftrightarrow>
     omap_ok H \<and>
     (\<forall>k h. map_of H k = Some h \<longrightarrow> ih_id h < next_id \<and> ih_generation h \<noteq> 0) \<and>
     (\<forall>k1 k2 h1 h2. map_of H k1 = Some h1 \<longrightarrow> map_of H k2 = Some h2 \<longrightarrow>
        ih_id h1 = ih_id h2 \<longrightarrow> k1 = k2)"

text \<open>
  The published capability set of the entity \<open>e\<close>: it names the entity, and it and all its
  items carry the generation of the view.
\<close>

definition set_matches :: "u64 \<Rightarrow> entity_record \<Rightarrow> capability_set \<Rightarrow> bool" where
  "set_matches generation e s \<longleftrightarrow>
     cs_entity s = en_ref e \<and> cs_catalog_generation s = generation \<and>
     (\<forall>i \<in> set (cs_items s). ci_catalog_generation i = generation)"

definition view_entity :: "semantic_catalog \<Rightarrow> entity_record \<Rightarrow> bool" where
  "view_entity c e \<longleftrightarrow>
     (\<exists>h. map_of (sc_identity_history c) (entity_key (sc_target_catalog c) e) = Some h \<and>
          ih_present h \<and> en_ref e = EntityRef EK_Device (ih_id h) (ih_generation h))"

definition cat_inv :: "semantic_catalog \<Rightarrow> bool" where
  "cat_inv c \<longleftrightarrow>
     TargetCatalog_validate (sc_target_catalog c) = SUCCESS \<and>
     history_ok (sc_identity_history c) (sc_next_entity_id c) \<and>
     length (cv_entities (sc_snapshot c)) =
       (if cv_detected_device_count (sc_snapshot c) = 1 then 1 else 0) \<and>
     cv_topology_unsupported (sc_snapshot c) = (cv_detected_device_count (sc_snapshot c) > 1) \<and>
     list_all (view_entity c) (cv_entities (sc_snapshot c)) \<and>
     list_all2 (set_matches (cv_generation (sc_snapshot c)))
       (cv_entities (sc_snapshot c)) (cv_capability_sets (sc_snapshot c))"

lemma select_identity_ok:
  assumes "history_ok H next_id" "select_identity k inc present H next_id = Inr (h, next_id')"
  shows "history_ok (omap_put k h H) next_id'" and "ih_present h" and "ih_incarnation h = inc"
proof -
  have lt: "ih_id g < next_id" if "map_of H k' = Some g" for k' g
    using assms(1) that by (auto simp: history_ok_def)
  show "history_ok (omap_put k h H) next_id'"
  proof (cases "map_of H k")
    case None
    then have h: "h = \<lparr>ih_id = next_id, ih_generation = 1, ih_incarnation = inc, ih_present = True\<rparr>"
      and n: "next_id' = next_id + 1" "next_id \<noteq> u64_max"
      using assms(2) by (auto simp: select_identity_def split: if_splits)
    have "ih_id g < next_id + 1" if "map_of H k' = Some g" for k' g
      using lt [OF that] less_inc [OF n(2)] by (rule less_trans)
    with None n(2) assms(1) lt show ?thesis
      by (auto simp: history_ok_def map_of_omap_put h n(1) less_inc)
  next
    case (Some g)
    then have "ih_id h = ih_id g" "next_id' = next_id" "ih_generation h \<noteq> 0"
      using assms by (auto simp: select_identity_def history_ok_def inc_nonzero split: if_splits)
    with Some assms(1) show ?thesis
      by (auto simp: history_ok_def map_of_omap_put)
  qed
qed (use assms(2) in \<open>auto simp: select_identity_def split: option.splits if_splits\<close>)

lemma history_ok_mark_absent: "history_ok H n \<Longrightarrow> history_ok (mark_absent H) n"
  by (auto simp: history_ok_def)

lemma buildCapabilities_matches: "set_matches g e (buildCapabilities tc e d g)"
  by (auto simp: set_matches_def buildCapabilities_def Let_def split: option.splits)

lemma entity_key_record:
  "identityKey tc pe \<noteq> [] \<Longrightarrow> entity_key tc (entity_record_of d pe h) = identityKey tc pe"
  by (auto simp: entity_key_def entity_record_of_def identityKey_def validAttribute_def Let_def
      split: if_splits)

lemma en_ref_record [simp]:
  "en_ref (entity_record_of d pe h) = EntityRef EK_Device (ih_id h) (ih_generation h)"
  by (simp add: entity_record_of_def Let_def)

lemma cat_inv_commit:
  assumes "cat_inv c" "SemanticCatalog_commit d c = (r, c')"
  shows "cat_inv c'"
  using assms(2)
proof (cases rule: commit_elim)
  case rejected
  then show ?thesis using assms(1) by simp
next
  case (single key pe h next_id)
  have ok: "history_ok (mark_absent (sc_identity_history c)) (sc_next_entity_id c)"
    using assms(1) by (simp add: cat_inv_def history_ok_mark_absent)
  have "omap_ok (mark_absent (sc_identity_history c))"
    using ok by (simp add: history_ok_def)
  then show ?thesis
    using assms(1) single select_identity_ok [OF ok single(8)]
    by (simp add: cat_inv_def view_entity_def entity_key_record map_of_omap_put
        buildCapabilities_matches)
next
  case other
  then show ?thesis
    using assms(1) by (simp add: cat_inv_def history_ok_mark_absent)
qed

section \<open>Identities over time\<close>

text \<open>
  How histories evolve: an identity key keeps its identifier, its generation never falls, and
  while the generation stays the incarnation stays.
\<close>

definition hist_le :: "(string, identity_history) omap \<Rightarrow> (string, identity_history) omap \<Rightarrow> bool" where
  "hist_le H H' \<longleftrightarrow>
     (\<forall>k h. map_of H k = Some h \<longrightarrow>
        (\<exists>h'. map_of H' k = Some h' \<and> ih_id h' = ih_id h \<and> ih_generation h \<le> ih_generation h' \<and>
              (ih_generation h' = ih_generation h \<longrightarrow> ih_incarnation h' = ih_incarnation h)))"

lemma hist_le_refl: "hist_le H H"
  by (simp add: hist_le_def)

lemma hist_le_trans:
  assumes "hist_le H1 H2" "hist_le H2 H3"
  shows "hist_le H1 H3"
  unfolding hist_le_def
proof (intro allI impI)
  fix k h assume "map_of H1 k = Some h"
  with assms(1) obtain h2 where h2: "map_of H2 k = Some h2" "ih_id h2 = ih_id h"
    "ih_generation h \<le> ih_generation h2"
    "ih_generation h2 = ih_generation h \<longrightarrow> ih_incarnation h2 = ih_incarnation h"
    unfolding hist_le_def by blast
  with assms(2) obtain h3 where "map_of H3 k = Some h3" "ih_id h3 = ih_id h2"
    "ih_generation h2 \<le> ih_generation h3"
    "ih_generation h3 = ih_generation h2 \<longrightarrow> ih_incarnation h3 = ih_incarnation h2"
    unfolding hist_le_def by blast
  with h2 show "\<exists>h'. map_of H3 k = Some h' \<and> ih_id h' = ih_id h \<and> ih_generation h \<le> ih_generation h' \<and>
      (ih_generation h' = ih_generation h \<longrightarrow> ih_incarnation h' = ih_incarnation h)"
    by (intro exI [of _ h3]) auto
qed

lemma hist_le_mark_absent: "hist_le H (mark_absent H)"
  by (simp add: hist_le_def)

lemma hist_le_select:
  assumes "omap_ok H" "select_identity k inc present H n = Inr (h, n')"
  shows "hist_le H (omap_put k h H)"
  using assms
  by (auto simp: hist_le_def map_of_omap_put select_identity_def less_inc [THEN less_imp_le]
      less_inc [THEN less_imp_neq, THEN not_sym] split: option.splits if_splits)

lemma commit_hist_le:
  assumes "cat_inv c" "SemanticCatalog_commit d c = (r, c')"
  shows "hist_le (sc_identity_history c) (sc_identity_history c')"
  using assms(2)
proof (cases rule: commit_elim)
  case (single key pe h next_id)
  have "omap_ok (mark_absent (sc_identity_history c))"
    using assms(1) by (simp add: cat_inv_def history_ok_def)
  then show ?thesis
    using single hist_le_trans [OF hist_le_mark_absent hist_le_select] by simp
qed (simp_all add: hist_le_refl hist_le_mark_absent)

definition cat_step :: "provider_descriptor \<Rightarrow> semantic_catalog \<Rightarrow> semantic_catalog" where
  "cat_step d c = snd (SemanticCatalog_commit d c)"

lemma cat_step_eq: "SemanticCatalog_commit d c = (fst (SemanticCatalog_commit d c), cat_step d c)"
  by (simp add: cat_step_def)

lemma cat_inv_step: "cat_inv c \<Longrightarrow> cat_inv (cat_step d c)"
  by (rule cat_inv_commit [OF _ cat_step_eq])

lemma cat_step_target [simp]: "sc_target_catalog (cat_step d c) = sc_target_catalog c"
  by (rule commit_elim [OF cat_step_eq [of d c]]) simp_all

lemma cat_fold_target [simp]: "sc_target_catalog (fold cat_step ds c) = sc_target_catalog c"
  by (induction ds arbitrary: c) simp_all

lemma cat_step_generation:
  "cv_generation (sc_snapshot c) \<le> cv_generation (sc_snapshot (cat_step d c))"
  by (rule commit_elim [OF cat_step_eq [of d c]]) (simp_all add: less_inc [THEN less_imp_le])

lemma fold_hist_le:
  "cat_inv c \<Longrightarrow> hist_le (sc_identity_history c) (sc_identity_history (fold cat_step ds c))"
proof (induction ds arbitrary: c)
  case (Cons d ds)
  then show ?case
    using hist_le_trans [OF commit_hist_le [OF Cons.prems cat_step_eq] Cons.IH [OF cat_inv_step]]
    by simp
qed (simp add: hist_le_refl)

lemma TargetCatalog_blocked_valid:
  "target \<noteq> TK_Unknown \<Longrightarrow> TargetCatalog_validate (TargetCatalog_blocked target) = SUCCESS"
  by (cases target) (simp_all add: TargetCatalog_validate_def TargetCatalog_blocked_def default_health_entry_def)

lemma cat_inv_init: "TargetCatalog_validate tc = SUCCESS \<Longrightarrow> cat_inv (catalog_start tc)"
  by (simp add: cat_inv_def history_ok_def empty_view_def catalog_start_def)

interpretation cat: ranked_component "catalog_start tc" cat_step
  "\<lambda>c. sc_target_catalog c = tc \<and> (TargetCatalog_validate tc = SUCCESS \<longrightarrow> cat_inv c)"
  "\<lambda>c. cv_generation (sc_snapshot c)" for tc
  by unfold_locales (auto simp: cat_inv_step cat_inv_init cat_step_generation, simp add: catalog_start_def)

lemma cat_inv_fold: "cat_inv c \<Longrightarrow> cat_inv (fold cat_step ds c)"
  by (induction ds arbitrary: c) (simp_all add: cat_inv_step)

text \<open>
  A published reference names one incarnation of one identity for ever: two views, however
  many commits apart, that publish the same reference publish the same identity key, and the
  incarnation recorded for it is the same.
\<close>

lemma published_reference_stable:
  assumes "cat_inv c" "c' = fold cat_step ds c"
    and "e \<in> set (cv_entities (sc_snapshot c))" "e' \<in> set (cv_entities (sc_snapshot c'))"
    and "en_ref e' = en_ref e"
  shows "entity_key (sc_target_catalog c') e' = entity_key (sc_target_catalog c) e"
    and "map_option ih_incarnation (map_of (sc_identity_history c') (entity_key (sc_target_catalog c') e')) =
         map_option ih_incarnation (map_of (sc_identity_history c) (entity_key (sc_target_catalog c) e))"
proof -
  let ?k = "entity_key (sc_target_catalog c) e" and ?k' = "entity_key (sc_target_catalog c') e'"
  have inv': "cat_inv c'" using cat_inv_fold [OF assms(1)] assms(2) by simp
  obtain h where h: "map_of (sc_identity_history c) ?k = Some h"
    "en_ref e = EntityRef EK_Device (ih_id h) (ih_generation h)"
    using assms(1,3) by (auto simp: cat_inv_def list_all_iff view_entity_def)
  obtain h' where h': "map_of (sc_identity_history c') ?k' = Some h'"
    "en_ref e' = EntityRef EK_Device (ih_id h') (ih_generation h')"
    using inv' assms(4) by (auto simp: cat_inv_def list_all_iff view_entity_def)
  obtain g where g: "map_of (sc_identity_history c') ?k = Some g" "ih_id g = ih_id h"
    "ih_generation g = ih_generation h \<longrightarrow> ih_incarnation g = ih_incarnation h"
    using fold_hist_le [OF assms(1), of ds] h(1) unfolding hist_le_def assms(2) by blast
  have eq: "?k' = ?k"
    using inv' h' h g assms(5) unfolding cat_inv_def history_ok_def by auto
  then show "?k' = ?k" .
  from eq g h h' assms(5)
  show "map_option ih_incarnation (map_of (sc_identity_history c') ?k') =
        map_option ih_incarnation (map_of (sc_identity_history c) ?k)"
    by auto
qed

section \<open>Reading a reachable view\<close>

lemma commit_result_generation:
  "SemanticCatalog_commit d c = (r, c') \<Longrightarrow> ccr_catalog_generation r = cv_generation (sc_snapshot c')"
  by (auto simp: SemanticCatalog_commit_def Let_def split: if_splits sum.splits)

lemma cat_inv_entities:
  assumes "cat_inv c" "e \<in> set (cv_entities (sc_snapshot c))"
  obtains s where "cv_entities (sc_snapshot c) = [e]" "cv_capability_sets (sc_snapshot c) = [s]"
    "set_matches (cv_generation (sc_snapshot c)) e s" "er_kind (en_ref e) = EK_Device" "view_entity c e"
proof -
  have "length (cv_entities (sc_snapshot c)) \<le> 1"
    using assms(1) by (auto simp: cat_inv_def split: if_splits)
  then have e: "cv_entities (sc_snapshot c) = [e]"
    using assms(2) by (cases "cv_entities (sc_snapshot c)") auto
  with assms(1) that show ?thesis
    by (fastforce simp: cat_inv_def list_all2_Cons1 view_entity_def)
qed

lemma view_resolves:
  assumes "cat_inv c" "e \<in> set (cv_entities (sc_snapshot c))"
  shows "CatalogView_resolve (en_ref e) (sc_snapshot c) = (SUCCESS, Some e)"
  using assms by (auto elim!: cat_inv_entities simp: CatalogView_resolve_def)

lemma view_capabilities:
  assumes "cat_inv c" "e \<in> set (cv_entities (sc_snapshot c))"
  obtains s where "CatalogView_capabilities (en_ref e) (sc_snapshot c) = (SUCCESS, Some s)"
    "set_matches (cv_generation (sc_snapshot c)) e s"
  using assms
  by (auto elim!: cat_inv_entities simp: CatalogView_capabilities_def view_resolves ok_def set_matches_def)

lemma rediscovered_reference_stale:
  assumes "cat_inv c" "c' = fold cat_step ds c"
    and e: "e \<in> set (cv_entities (sc_snapshot c))" and e': "e' \<in> set (cv_entities (sc_snapshot c'))"
    and "entity_key (sc_target_catalog c) e = k" "entity_key (sc_target_catalog c') e' = k"
    and "map_option ih_incarnation (map_of (sc_identity_history c') k) \<noteq>
         map_option ih_incarnation (map_of (sc_identity_history c) k)"
  shows "er_id (en_ref e') = er_id (en_ref e)" and "er_generation (en_ref e) < er_generation (en_ref e')"
    and "CatalogView_resolve (en_ref e) (sc_snapshot c') = (STALE_GENERATION, None)"
proof -
  have inv': "cat_inv c'" using cat_inv_fold [OF assms(1)] assms(2) by simp
  obtain s where "view_entity c e" by (rule cat_inv_entities [OF assms(1) e])
  then obtain h where h: "map_of (sc_identity_history c) k = Some h"
    "en_ref e = EntityRef EK_Device (ih_id h) (ih_generation h)"
    using assms(5) by (auto simp: view_entity_def)
  obtain s' where only: "cv_entities (sc_snapshot c') = [e']" and "view_entity c' e'"
    by (rule cat_inv_entities [OF inv' e'])
  then obtain h' where h': "map_of (sc_identity_history c') k = Some h'"
    "en_ref e' = EntityRef EK_Device (ih_id h') (ih_generation h')"
    using assms(6) by (auto simp: view_entity_def)
  have le: "ih_id h' = ih_id h" "ih_generation h \<le> ih_generation h'"
    "ih_generation h' = ih_generation h \<longrightarrow> ih_incarnation h' = ih_incarnation h"
    using fold_hist_le [OF assms(1), of ds] h(1) h'(1) unfolding hist_le_def assms(2) by fastforce+
  then have lt: "ih_generation h < ih_generation h'"
    using assms(7) h(1) h'(1) by auto
  then show "er_generation (en_ref e) < er_generation (en_ref e')" and "er_id (en_ref e') = er_id (en_ref e)"
    using h h' le by simp_all
  show "CatalogView_resolve (en_ref e) (sc_snapshot c') = (STALE_GENERATION, None)"
    using h h' le lt only by (simp add: CatalogView_resolve_def)
qed

section \<open>Properties\<close>

definition catalog_reachable :: "target_catalog \<Rightarrow> provider_descriptor list \<Rightarrow> semantic_catalog option" where
  "catalog_reachable tc ds = map_option (fold cat_step ds) (SemanticCatalog tc)"

lemma catalog_reachable_inv: "catalog_reachable tc ds = Some c \<Longrightarrow> cat_inv c"
  by (auto simp: catalog_reachable_def SemanticCatalog_def ok_def cat_inv_fold cat_inv_init split: if_splits)

definition witness_entity :: "string \<Rightarrow> provider_entity" where
  "witness_entity boot =
     \<lparr>pe_stable_native_id = ''dev'', pe_pci_bdf = ''bdf'', pe_pdrv_version = ''v1'',
      pe_incarnation = boot, pe_state = PES_Ready, pe_manageable = True\<rparr>"

definition witness_descriptor :: "string \<Rightarrow> provider_descriptor" where
  "witness_descriptor boot =
     default_descriptor\<lparr>pd_target := TK_Fpga, pd_state := PS_Ready,
       pd_entities := [witness_entity boot], pd_detected_device_count := 1\<rparr>"

definition witness_catalog :: "provider_descriptor list \<Rightarrow> semantic_catalog" where
  "witness_catalog ds = fold cat_step ds (catalog_start (TargetCatalog_blocked TK_Fpga))"

lemma witness_catalog_reachable:
  "catalog_reachable (TargetCatalog_blocked TK_Fpga) ds = Some (witness_catalog ds)"
  by (simp add: catalog_reachable_def SemanticCatalog_def TargetCatalog_blocked_valid ok_def witness_catalog_def)

text \<open>
  A catalog commit is all or nothing. If it is not committed the catalog, its view, the
  identity history and the next identifier are unchanged and the status is an error;
  if it is committed the published generation is the old one plus one, without wrap-around,
  and the result reports it.
\<close>

theorem catalog_commit_atomic:
  assumes "SemanticCatalog_commit d c = (r, c')"
  shows "if ccr_committed r
     then cv_generation (sc_snapshot c') = cv_generation (sc_snapshot c) + 1 \<and>
          cv_generation (sc_snapshot c) < cv_generation (sc_snapshot c') \<and>
          ccr_catalog_generation r = cv_generation (sc_snapshot c')
     else c' = c \<and> ccr_status r \<in> {INVALID_ARGUMENT, INTERNAL}"
  using assms
proof (cases rule: commit_elim)
  case (single key pe h next_id)
  then show ?thesis using commit_result_generation [OF assms] by (simp add: less_inc)
next
  case other
  then show ?thesis using commit_result_generation [OF assms] by (simp add: less_inc)
qed simp

text \<open>
  C15: Every view ever published is consistent: it has at most one entity, its reference
  resolves to it, and its capability query succeeds with a set in which every item carries
  the generation of that view.
\<close>

theorem catalog_view_consistent:
  assumes "catalog_reachable tc ds = Some c" and "e \<in> set (cv_entities (sc_snapshot c))"
  shows "cv_entities (sc_snapshot c) = [e] \<and>
    CatalogView_resolve (en_ref e) (sc_snapshot c) = (SUCCESS, Some e) \<and>
    (\<exists>s. CatalogView_capabilities (en_ref e) (sc_snapshot c) = (SUCCESS, Some s) \<and>
         (\<forall>i \<in> set (cs_items s). ci_catalog_generation i = cv_generation (sc_snapshot c)))"
proof -
  have inv: "cat_inv c" by (rule catalog_reachable_inv [OF assms(1)])
  obtain s where "cv_entities (sc_snapshot c) = [e]" by (rule cat_inv_entities [OF inv assms(2)])
  moreover obtain s where "CatalogView_capabilities (en_ref e) (sc_snapshot c) = (SUCCESS, Some s)"
    "set_matches (cv_generation (sc_snapshot c)) e s" by (rule view_capabilities [OF inv assms(2)])
  ultimately show ?thesis
    using view_resolves [OF inv assms(2)] by (auto simp: set_matches_def)
qed

theorem catalog_view_consistent_witness:
  "CatalogView_resolve (EntityRef EK_Device 0 1) (sc_snapshot (witness_catalog [witness_descriptor ''b'']))
   = (SUCCESS, Some (hd (cv_entities (sc_snapshot (witness_catalog [witness_descriptor ''b''])))))"
proof -
  let ?es = "cv_entities (sc_snapshot (witness_catalog [witness_descriptor ''b'']))"
  have ne: "?es \<noteq> [] \<and> en_ref (hd ?es) = EntityRef EK_Device 0 1" by code_simp
  then have "hd ?es \<in> set ?es" by simp
  from catalog_view_consistent [OF witness_catalog_reachable this] ne show ?thesis by simp
qed

text \<open>
  A published entity reference denotes one incarnation of one device for ever: two
  views any number of commits apart that publish the same reference publish the same
  identity key, with the same incarnation recorded for it.
\<close>

theorem entity_reference_unique:
  assumes "catalog_reachable tc ds = Some c" and "c' = fold cat_step ds' c"
    and "e \<in> set (cv_entities (sc_snapshot c))" and "e' \<in> set (cv_entities (sc_snapshot c'))"
    and "en_ref e' = en_ref e"
  shows "entity_key tc e' = entity_key tc e \<and>
    map_option ih_incarnation (map_of (sc_identity_history c') (entity_key tc e)) =
    map_option ih_incarnation (map_of (sc_identity_history c) (entity_key tc e))"
proof -
  have "sc_target_catalog c = tc" "sc_target_catalog c' = tc"
    using assms(1,2) by (auto simp: catalog_reachable_def SemanticCatalog_def catalog_start_def split: if_splits)
  with published_reference_stable [OF catalog_reachable_inv [OF assms(1)] assms(2-5)]
  show ?thesis by simp
qed

text \<open>
  A device rediscovered as another incarnation keeps its identifier and gets a strictly
  greater generation, so a reference taken before resolves to STALE_GENERATION, never to the
  new incarnation.
\<close>

theorem rediscovery_makes_stale:
  assumes "catalog_reachable tc ds = Some c" and "c' = fold cat_step ds' c"
    and "e \<in> set (cv_entities (sc_snapshot c))" and "e' \<in> set (cv_entities (sc_snapshot c'))"
    and "entity_key tc e' = entity_key tc e"
    and "map_option ih_incarnation (map_of (sc_identity_history c') (entity_key tc e)) \<noteq>
         map_option ih_incarnation (map_of (sc_identity_history c) (entity_key tc e))"
  shows "er_id (en_ref e') = er_id (en_ref e) \<and> er_generation (en_ref e) < er_generation (en_ref e') \<and>
    CatalogView_resolve (en_ref e) (sc_snapshot c') = (STALE_GENERATION, None)"
proof -
  have "sc_target_catalog c = tc" "sc_target_catalog c' = tc"
    using assms(1,2) by (auto simp: catalog_reachable_def SemanticCatalog_def catalog_start_def split: if_splits)
  with rediscovered_reference_stale [OF catalog_reachable_inv [OF assms(1)] assms(2-4), of "entity_key tc e"]
    assms(5,6)
  show ?thesis by simp
qed

end
