(* ===== verification/Events.thy ===== *)
theory Events
  imports Common "HOL-Library.Sublist"
begin

text \<open>
  \<open>src/product/src/data/event.hpp\<close> and \<open>event_store.*\<close>: events and the bounded store of
  published events. The store is a window over the sequence of all published events: the
  longest suffix that fits the count and byte limits.
\<close>

section \<open>Events\<close>

datatype event_type =
    ET_CatalogChanged | ET_EntityChanged | ET_CapabilityChanged | ET_MetricUpdate
  | ET_FirmwareHeartbeatHealthChanged | ET_ProviderStateChanged | ET_SubscriptionLossMarker
  | ET_DaemonDraining

primrec event_type_num :: "event_type \<Rightarrow> nat" where
  "event_type_num ET_CatalogChanged = 0"
| "event_type_num ET_EntityChanged = 1"
| "event_type_num ET_CapabilityChanged = 2"
| "event_type_num ET_MetricUpdate = 3"
| "event_type_num ET_FirmwareHeartbeatHealthChanged = 4"
| "event_type_num ET_ProviderStateChanged = 5"
| "event_type_num ET_SubscriptionLossMarker = 6"
| "event_type_num ET_DaemonDraining = 7"

lemma event_type_num_inject [simp]: "event_type_num a = event_type_num b \<longleftrightarrow> a = b"
  by (cases a; cases b) auto

instantiation event_type :: linorder
begin

definition less_eq_event_type :: "event_type \<Rightarrow> event_type \<Rightarrow> bool" where
  "less_eq_event_type a b = (event_type_num a \<le> event_type_num b)"

definition less_event_type :: "event_type \<Rightarrow> event_type \<Rightarrow> bool" where
  "less_event_type a b = (event_type_num a < event_type_num b)"

instance
  by intro_classes (auto simp: less_eq_event_type_def less_event_type_def)

end

datatype event_severity = SV_Info | SV_Warning | SV_Error | SV_Critical

primrec severity_num :: "event_severity \<Rightarrow> nat" where
  "severity_num SV_Info = 0"
| "severity_num SV_Warning = 1"
| "severity_num SV_Error = 2"
| "severity_num SV_Critical = 3"

record metric_update_payload =
  mu_status :: observation_status
  mu_commit_epoch :: u64

record subscription_loss_payload =
  sl_first_dropped_sequence :: u64
  sl_last_dropped_sequence :: u64
  sl_dropped_count :: u64

record health_change_payload =
  hp_previous_state :: health_state
  hp_state :: health_state
  hp_previous_code :: stable_health_code
  hp_code :: stable_health_code
  hp_evidence :: "evidence_ref list"
  hp_evidence_age_ns :: i64

datatype event_payload =
    P_None
  | P_MetricUpdate metric_update_payload
  | P_SubscriptionLoss subscription_loss_payload
  | P_HealthChange health_change_payload
  | P_String string

record event_draft =
  dr_type :: event_type
  dr_severity :: event_severity
  dr_entity :: "entity_ref option"
  dr_metric :: "metric_id option"
  dr_health_subsystem :: "u32 option"
  dr_occurrence_time_ns :: i64
  dr_catalog_generation :: u64
  dr_payload :: event_payload

definition default_draft :: event_draft where
  "default_draft =
     \<lparr>dr_type = ET_CatalogChanged, dr_severity = SV_Info, dr_entity = None, dr_metric = None,
      dr_health_subsystem = None, dr_occurrence_time_ns = 0, dr_catalog_generation = 0,
      dr_payload = P_None\<rparr>"

record pdcm_event =
  pv_boot_epoch :: u64
  pv_sequence :: u64
  pv_type :: event_type
  pv_severity :: event_severity
  pv_entity :: "entity_ref option"
  pv_metric :: "metric_id option"
  pv_health_subsystem :: "u32 option"
  pv_occurrence_time_ns :: i64
  pv_catalog_generation :: u64
  pv_payload :: event_payload

definition isNonDroppable :: "event_type \<Rightarrow> bool" where
  "isNonDroppable t \<longleftrightarrow> t = ET_SubscriptionLossMarker \<or> t = ET_DaemonDraining"

definition isStateChange :: "event_type \<Rightarrow> bool" where
  "isStateChange t \<longleftrightarrow>
     t = ET_CatalogChanged \<or> t = ET_EntityChanged \<or> t = ET_CapabilityChanged \<or>
     t = ET_FirmwareHeartbeatHealthChanged \<or> t = ET_ProviderStateChanged"

definition sizeof_PdcmEvent :: size_t where "sizeof_PdcmEvent = 176"
definition sizeof_monostate :: size_t where "sizeof_monostate = 1"
definition sizeof_MetricUpdatePayload :: size_t where "sizeof_MetricUpdatePayload = 16"
definition sizeof_SubscriptionLossPayload :: size_t where "sizeof_SubscriptionLossPayload = 24"
definition sizeof_HealthChangePayload :: size_t where "sizeof_HealthChangePayload = 40"

fun payloadBytes :: "event_payload \<Rightarrow> size_t" where
  "payloadBytes P_None = sizeof_monostate"
| "payloadBytes (P_MetricUpdate _) = sizeof_MetricUpdatePayload"
| "payloadBytes (P_SubscriptionLoss _) = sizeof_SubscriptionLossPayload"
| "payloadBytes (P_HealthChange p) =
     sizeof_HealthChangePayload + length (hp_evidence p) * sizeof_EvidenceRef +
     sum_list (map (\<lambda>e. length (src_provider (rf_source e)) + length (src_native_source (rf_source e)))
       (hp_evidence p))"
| "payloadBytes (P_String s) = length s"

definition eventBytes :: "pdcm_event \<Rightarrow> size_t" where
  "eventBytes e = sizeof_PdcmEvent + payloadBytes (pv_payload e)"

section \<open>The event store\<close>

record event_store_limits =
  el_max_events :: size_t
  el_max_bytes :: size_t

definition EventStoreLimits_validate :: "event_store_limits \<Rightarrow> pdcm_status" where
  "EventStoreLimits_validate l =
     (if el_max_events l = 0 \<or> el_max_bytes l = 0 then INVALID_ARGUMENT else SUCCESS)"

record event_store =
  es_limits :: event_store_limits
  es_boot_epoch :: u64
  es_next_sequence :: u64
  es_stored_bytes :: size_t
  es_events :: "pdcm_event list"

definition event_store_start :: "event_store_limits \<Rightarrow> u64 \<Rightarrow> event_store" where
  "event_store_start limits boot_epoch =
     \<lparr>es_limits = limits, es_boot_epoch = boot_epoch, es_next_sequence = 1,
      es_stored_bytes = 0, es_events = []\<rparr>"

definition EventStore :: "event_store_limits \<Rightarrow> u64 \<Rightarrow> event_store option" where
  "EventStore limits boot_epoch =
    (if \<not> ok (EventStoreLimits_validate limits) \<or> boot_epoch = 0 then None
     else Some (event_store_start limits boot_epoch))"

definition event_of_draft :: "u64 \<Rightarrow> u64 \<Rightarrow> event_draft \<Rightarrow> pdcm_event" where
  "event_of_draft boot_epoch sequence d =
     \<lparr>pv_boot_epoch = boot_epoch, pv_sequence = sequence, pv_type = dr_type d,
      pv_severity = dr_severity d, pv_entity = dr_entity d, pv_metric = dr_metric d,
      pv_health_subsystem = dr_health_subsystem d,
      pv_occurrence_time_ns = dr_occurrence_time_ns d,
      pv_catalog_generation = dr_catalog_generation d, pv_payload = dr_payload d\<rparr>"

text \<open>
  The eviction loop of \<open>publish\<close>. With the accounting of the invariant the byte counter of an
  empty queue is zero, so the loop never reaches \<open>front()\<close> of an empty queue.
\<close>

fun trimEvents :: "event_store_limits \<Rightarrow> size_t \<Rightarrow> pdcm_event list \<Rightarrow> size_t \<times> pdcm_event list" where
  "trimEvents l bytes [] = (bytes, [])"
| "trimEvents l bytes (e # es) =
    (if length (e # es) > el_max_events l \<or> bytes > el_max_bytes l
     then trimEvents l (szsub bytes (eventBytes e)) es
     else (bytes, e # es))"

definition draft_malformed :: "event_draft \<Rightarrow> bool" where
  "draft_malformed d \<longleftrightarrow>
     dr_occurrence_time_ns d < 0 \<or> dr_catalog_generation d = 0 \<or>
     (dr_type d = ET_MetricUpdate \<and> (dr_entity d = None \<or> dr_metric d = None)) \<or>
     (dr_type d = ET_FirmwareHeartbeatHealthChanged \<and>
      dr_health_subsystem d \<noteq> Some kFirmwareHeartbeatHealthId)"

definition EventStore_publish ::
  "event_draft \<Rightarrow> event_store \<Rightarrow> (pdcm_status \<times> pdcm_event option) \<times> event_store" where
  "EventStore_publish d s =
    (if draft_malformed d then ((INVALID_ARGUMENT, None), s)
     else if es_next_sequence s = u64_max then ((INTERNAL, None), s)
     else
      let event = event_of_draft (es_boot_epoch s) (es_next_sequence s) d;
          s = s\<lparr>es_next_sequence := es_next_sequence s + 1\<rparr>;
          bytes = eventBytes event
      in if bytes > el_max_bytes (es_limits s) then ((RESOURCE_EXHAUSTED, None), s)
         else
          let (stored, events) =
                trimEvents (es_limits s) (es_stored_bytes s + bytes) (es_events s @ [event])
          in ((SUCCESS, Some event), s\<lparr>es_stored_bytes := stored, es_events := events\<rparr>))"

record event_snapshot =
  sn_first_available_sequence :: u64
  sn_latest_sequence :: u64
  sn_events :: "pdcm_event list"

text \<open>\<open>std::upper_bound\<close> over the events, which are sorted by sequence.\<close>

definition EventStore_since :: "u64 \<Rightarrow> event_store \<Rightarrow> event_snapshot" where
  "EventStore_since n s =
     \<lparr>sn_first_available_sequence =
        (case es_events s of [] \<Rightarrow> es_next_sequence s | e # _ \<Rightarrow> pv_sequence e),
      sn_latest_sequence = es_next_sequence s - 1,
      sn_events = dropWhile (\<lambda>e. \<not> n < pv_sequence e) (es_events s)\<rparr>"

section \<open>Invariant\<close>

abbreviation events_bytes :: "pdcm_event list \<Rightarrow> size_t" where
  "events_bytes es \<equiv> sum_list (map eventBytes es)"

definition events_fit :: "event_store_limits \<Rightarrow> pdcm_event list \<Rightarrow> bool" where
  "events_fit l es \<longleftrightarrow> length es \<le> el_max_events l \<and> events_bytes es \<le> el_max_bytes l"

definition es_inv :: "event_store \<Rightarrow> bool" where
  "es_inv s \<longleftrightarrow>
     ok (EventStoreLimits_validate (es_limits s)) \<and> es_next_sequence s \<noteq> 0 \<and>
     sorted_wrt (<) (map pv_sequence (es_events s)) \<and>
     (\<forall>e \<in> set (es_events s). 0 < pv_sequence e \<and> pv_sequence e < es_next_sequence s) \<and>
     es_stored_bytes s = events_bytes (es_events s) \<and> events_fit (es_limits s) (es_events s)"

text \<open>The eviction loop keeps the longest suffix that fits.\<close>

lemma trimEvents_spec:
  assumes "trimEvents l (events_bytes es) es = (bytes, kept)"
  shows "bytes = events_bytes kept" and "suffix kept es" and "events_fit l kept"
    and "\<And>xs. suffix xs es \<Longrightarrow> events_fit l xs \<Longrightarrow> suffix xs kept"
proof -
  have "bytes = events_bytes kept \<and> suffix kept es \<and> events_fit l kept \<and>
    (\<forall>xs. suffix xs es \<longrightarrow> events_fit l xs \<longrightarrow> suffix xs kept)"
    using assms
  proof (induction es)
    case Nil
    then show ?case by (simp add: events_fit_def)
  next
    case (Cons e es)
    show ?case
    proof (cases "events_fit l (e # es)")
      case True
      with Cons.prems show ?thesis by (auto simp: events_fit_def)
    next
      case False
      then have "trimEvents l (events_bytes es) es = (bytes, kept)"
        using Cons.prems by (auto simp: events_fit_def split: if_splits)
      from Cons.IH [OF this] False show ?thesis
        by (auto simp: suffix_Cons)
    qed
  qed
  then show "bytes = events_bytes kept" "suffix kept es" "events_fit l kept"
    "\<And>xs. suffix xs es \<Longrightarrow> events_fit l xs \<Longrightarrow> suffix xs kept" by blast+
qed

lemma sorted_wrt_suffix: "sorted_wrt P xs \<Longrightarrow> suffix ys xs \<Longrightarrow> sorted_wrt P ys"
  by (auto simp: suffix_def sorted_wrt_append)

text \<open>A successful publication, in one step.\<close>

lemma publish_success:
  assumes "es_inv s" "EventStore_publish d s = ((SUCCESS, ev), s')"
  obtains e where "ev = Some e" "e = event_of_draft (es_boot_epoch s) (es_next_sequence s) d"
    "es_next_sequence s \<noteq> u64_max" "es_next_sequence s' = es_next_sequence s + 1"
    "es_limits s' = es_limits s" "es_boot_epoch s' = es_boot_epoch s"
    "eventBytes e \<le> el_max_bytes (es_limits s)"
    "trimEvents (es_limits s) (events_bytes (es_events s @ [e])) (es_events s @ [e]) =
       (es_stored_bytes s', es_events s')"
proof -
  show ?thesis
    by (rule that [of "event_of_draft (es_boot_epoch s) (es_next_sequence s) d"])
      (use assms in \<open>auto simp: EventStore_publish_def Let_def es_inv_def split: if_splits prod.splits\<close>)
qed

lemma es_inv_publish:
  assumes "es_inv s"
  shows "es_inv (snd (EventStore_publish d s))"
proof (cases "fst (fst (EventStore_publish d s)) = SUCCESS")
  case True
  then obtain ev s' where eq: "EventStore_publish d s = ((SUCCESS, ev), s')"
    by (metis prod.collapse)
  obtain e where e: "e = event_of_draft (es_boot_epoch s) (es_next_sequence s) d"
    and n: "es_next_sequence s \<noteq> u64_max" "es_next_sequence s' = es_next_sequence s + 1"
    and l: "es_limits s' = es_limits s"
    and trim: "trimEvents (es_limits s) (events_bytes (es_events s @ [e])) (es_events s @ [e]) =
       (es_stored_bytes s', es_events s')"
    by (rule publish_success [OF assms eq])
  note spec = trimEvents_spec [OF trim]
  have "pv_sequence x < es_next_sequence s + 1" if "pv_sequence x < es_next_sequence s" for x
    using that less_inc [OF n(1)] by (rule less_trans)
  then have all: "\<forall>x \<in> set (es_events s @ [e]). 0 < pv_sequence x \<and> pv_sequence x < es_next_sequence s'"
    using assms n by (auto simp: es_inv_def e event_of_draft_def less_inc word_neq_0_conv)
  have "sorted_wrt (<) (map pv_sequence (es_events s @ [e]))"
    using assms by (auto simp: es_inv_def sorted_wrt_append e event_of_draft_def)
  then have "sorted_wrt (<) (map pv_sequence (es_events s'))"
    by (rule sorted_wrt_suffix [OF _ map_mono_suffix [OF spec(2)]])
  moreover have "\<forall>x \<in> set (es_events s'). 0 < pv_sequence x \<and> pv_sequence x < es_next_sequence s'"
    using all spec(2) set_mono_suffix by blast
  ultimately show ?thesis
    using assms spec(1,3) n l by (simp add: eq es_inv_def inc_nonzero)
next
  case False
  have lt: "pv_sequence x < es_next_sequence s + 1"
    if "x \<in> set (es_events s)" "es_next_sequence s \<noteq> u64_max" for x
    using that assms less_inc [of "es_next_sequence s"] by (auto simp: es_inv_def intro: less_trans)
  from False show ?thesis
    using assms lt
    by (auto simp: EventStore_publish_def Let_def es_inv_def inc_nonzero split: if_splits prod.splits)
qed

definition es_step :: "event_draft \<Rightarrow> event_store \<Rightarrow> event_store" where
  "es_step d s = snd (EventStore_publish d s)"

lemma es_inv_init: "ok (EventStoreLimits_validate limits) \<Longrightarrow> es_inv (event_store_start limits boot)"
  by (simp add: event_store_start_def es_inv_def events_fit_def)

lemma es_inv_step: "es_inv s \<Longrightarrow> es_inv (es_step d s)"
  by (simp add: es_step_def es_inv_publish)

lemma es_step_next: "es_next_sequence s \<le> es_next_sequence (es_step d s)"
  by (auto simp: es_step_def EventStore_publish_def Let_def less_inc [THEN less_imp_le]
      split: prod.splits)

text \<open>What \<open>since\<close> returns: exactly the retained events after the given sequence.\<close>

lemma dropWhile_sorted:
  fixes key :: "'a \<Rightarrow> 'k::linorder"
  assumes "sorted_wrt (<) (map key xs)"
  shows "dropWhile (\<lambda>x. \<not> n < key x) xs = filter (\<lambda>x. n < key x) xs"
  using assms
proof (induction xs)
  case (Cons x xs)
  then have "n < key x \<Longrightarrow> filter (\<lambda>x. n < key x) xs = xs"
    by (auto simp: filter_id_conv intro: less_trans)
  with Cons show ?case by auto
qed simp

lemma EventStore_since_filter:
  "es_inv s \<Longrightarrow> sn_events (EventStore_since n s) = filter (\<lambda>e. n < pv_sequence e) (es_events s)"
  by (simp add: EventStore_since_def dropWhile_sorted es_inv_def)

section \<open>The store as a window over what was published\<close>

text \<open>The events of the successful publications of a sequence of drafts.\<close>

fun published :: "event_draft list \<Rightarrow> event_store \<Rightarrow> pdcm_event list" where
  "published [] s = []"
| "published (d # ds) s =
    (case EventStore_publish d s of
       ((st, ev), s') \<Rightarrow> (case ev of Some e \<Rightarrow> [e] | None \<Rightarrow> []) @ published ds s')"

lemma publish_events:
  assumes "es_inv s" "EventStore_publish d s = ((st, ev), s')"
  shows "ev = None \<and> es_events s' = es_events s \<or>
    (\<exists>e. ev = Some e \<and> suffix (es_events s') (es_events s @ [e]) \<and> es_events s' \<noteq> [] \<and>
         last (es_events s') = e)"
proof (cases "st = SUCCESS")
  case True
  obtain e where e: "ev = Some e" "eventBytes e \<le> el_max_bytes (es_limits s)"
    and trim: "trimEvents (es_limits s) (events_bytes (es_events s @ [e])) (es_events s @ [e]) =
       (es_stored_bytes s', es_events s')"
    by (rule publish_success [OF assms(1) assms(2) [unfolded True]])
  have "suffix [e] (es_events s')"
    using e(2) assms(1)
    by (intro trimEvents_spec(4) [OF trim])
      (auto simp: events_fit_def suffix_def es_inv_def EventStoreLimits_validate_def ok_def split: if_splits)
  with e trimEvents_spec(2) [OF trim] show ?thesis
    by (auto simp: suffix_def)
next
  case False
  with assms show ?thesis
    by (auto simp: EventStore_publish_def Let_def split: if_splits prod.splits)
qed

lemma store_is_window:
  assumes "es_inv s"
  shows "suffix (es_events (fold es_step ds s)) (es_events s @ published ds s)"
  using assms
proof (induction ds arbitrary: s)
  case (Cons d ds)
  obtain st ev s' where eq: "EventStore_publish d s = ((st, ev), s')"
    by (metis prod.exhaust)
  then have s': "es_step d s = s'" by (simp add: es_step_def)
  have IH: "suffix (es_events (fold es_step ds s')) (es_events s' @ published ds s')"
    using Cons.IH es_inv_publish [OF Cons.prems, of d] by (simp add: eq)
  have "suffix (es_events s') (es_events s @ (case ev of Some e \<Rightarrow> [e] | None \<Rightarrow> []))"
    using publish_events [OF Cons.prems eq] by (auto split: option.splits)
  then have "suffix (es_events s' @ published ds s') (es_events s @ published (d # ds) s)"
    by (auto simp: eq suffix_def)
  from suffix_order.trans [OF IH this] show ?case by (simp add: s')
qed simp

section \<open>Polling an event source\<close>

text \<open>
  The interface a subscriber relies on: a snapshot after a sequence is sorted, lies above the
  sequence and at or below its latest sequence, and latest sequences never fall.
\<close>

locale event_source =
  fixes since :: "u64 \<Rightarrow> 's \<Rightarrow> event_snapshot"
    and step :: "'op \<Rightarrow> 's \<Rightarrow> 's"
    and inv :: "'s \<Rightarrow> bool"
  assumes inv_step: "inv s \<Longrightarrow> inv (step op s)"
    and since_sorted: "inv s \<Longrightarrow> sorted_wrt (<) (map pv_sequence (sn_events (since n s)))"
    and since_above: "inv s \<Longrightarrow> e \<in> set (sn_events (since n s)) \<Longrightarrow> n < pv_sequence e"
    and since_latest: "inv s \<Longrightarrow> e \<in> set (sn_events (since n s)) \<Longrightarrow>
      pv_sequence e \<le> sn_latest_sequence (since n s)"
begin

lemma inv_fold: "inv s \<Longrightarrow> inv (fold step ops s)"
  by (induction ops arbitrary: s) (auto intro: inv_step)

text \<open>
  The events a poller reads when batches of operations of the source run between its polls,
  and it remembers the latest sequence of every non-empty snapshot.
\<close>

fun polled :: "u64 \<Rightarrow> 'op list list \<Rightarrow> 's \<Rightarrow> pdcm_event list" where
  "polled seen [] s = []"
| "polled seen (ops # batches) s =
    (let s = fold step ops s; sn = since seen s
     in sn_events sn @
        polled (if sn_events sn = [] then seen else sn_latest_sequence sn) batches s)"

lemma polled_above: "inv s \<Longrightarrow> e \<in> set (polled seen batches s) \<Longrightarrow> seen < pv_sequence e"
proof (induction batches arbitrary: seen s)
  case (Cons ops batches)
  let ?s = "fold step ops s"
  have inv: "inv ?s" by (rule inv_fold [OF Cons.prems(1)])
  show ?case
  proof (cases "e \<in> set (sn_events (since seen ?s))")
    case True
    then show ?thesis by (rule since_above [OF inv])
  next
    case False
    let ?seen = "if sn_events (since seen ?s) = [] then seen else sn_latest_sequence (since seen ?s)"
    have "?seen < pv_sequence e"
      using False Cons.prems(2) by (intro Cons.IH [OF inv]) (auto simp: Let_def split: if_splits)
    moreover have "seen \<le> ?seen"
    proof (cases "sn_events (since seen ?s)")
      case (Cons x xs)
      then have "x \<in> set (sn_events (since seen ?s))" by simp
      with inv Cons show ?thesis
        using since_above [of ?s x seen] since_latest [of ?s x seen] by simp
    qed simp
    ultimately show ?thesis by (rule le_less_trans [rotated])
  qed
qed simp

lemma polled_sorted: "inv s \<Longrightarrow> sorted_wrt (<) (map pv_sequence (polled seen batches s))"
proof (induction batches arbitrary: seen s)
  case (Cons ops batches)
  let ?s = "fold step ops s"
  let ?seen = "if sn_events (since seen ?s) = [] then seen else sn_latest_sequence (since seen ?s)"
  have inv: "inv ?s" by (rule inv_fold [OF Cons.prems])
  have "pv_sequence x < pv_sequence y"
    if "x \<in> set (sn_events (since seen ?s))" "y \<in> set (polled ?seen batches ?s)" for x y
    using since_latest [OF inv that(1)] polled_above [OF inv that(2)] that(1) by (auto split: if_splits)
  then show ?case
    using since_sorted [OF inv] Cons.IH [OF inv] by (auto simp: Let_def sorted_wrt_append)
qed simp

end

lemma le_pred_of_less: "(x::u64) < n \<Longrightarrow> x \<le> n - 1"
  using less_inc_iff [of "n - 1" x] by fastforce

interpretation store: event_source EventStore_since es_step es_inv
proof
  fix s :: event_store and n e
  assume inv: "es_inv s" and e: "e \<in> set (sn_events (EventStore_since n s))"
  then show "n < pv_sequence e" by (simp add: EventStore_since_filter)
  show "pv_sequence e \<le> sn_latest_sequence (EventStore_since n s)"
    using inv e by (auto simp: EventStore_since_filter)
      (auto simp: EventStore_since_def es_inv_def intro: le_pred_of_less)
next
  fix s :: event_store and n
  assume "es_inv s"
  then show "sorted_wrt (<) (map pv_sequence (sn_events (EventStore_since n s)))"
    by (simp add: EventStore_since_filter) (simp add: es_inv_def sorted_wrt_map sorted_wrt_filter)
qed (rule es_inv_step)

interpretation es: ranked_component "event_store_start limits boot" es_step
  "\<lambda>s. ok (EventStoreLimits_validate limits) \<longrightarrow> es_inv s" es_next_sequence for limits boot
  by unfold_locales (auto simp: es_step_next es_inv_step es_inv_init)

section \<open>Properties\<close>

text \<open>
  The event store is a bounded window over what was published: after any drafts its
  events are a suffix of all events returned by successful publications, within the count
  and byte limits, with the byte counter equal to the bytes held, and it is the longest
  such suffix of the events before the last publication and the published event.
\<close>

theorem event_store_window:
  assumes "EventStore limits boot = Some s0" and "s = fold es_step ds s0"
  shows "suffix (es_events s) (published ds s0) \<and> events_fit limits (es_events s) \<and>
    es_stored_bytes s = events_bytes (es_events s)"
proof -
  have "es_limits (es_step d s) = es_limits s" for d s
    by (auto simp: es_step_def EventStore_publish_def Let_def split: prod.splits)
  then have lim: "es_limits (fold es_step ds s) = es_limits s" for s
    by (induction ds arbitrary: s) auto
  have ok: "ok (EventStoreLimits_validate limits)" and s0: "s0 = event_store_start limits boot"
    using assms(1) by (auto simp: EventStore_def split: if_splits)
  have "es_inv s0" and "es_inv s"
    using es.inv_reach [where limits = limits and boot = boot and ops = ds] ok s0 assms(2) es_inv_init by auto
  then show ?thesis
    using store_is_window [of s0 ds] lim [of s0] s0 assms(2)
    by (simp add: es_inv_def event_store_start_def)
qed

definition witness_draft :: event_draft where
  "witness_draft = default_draft\<lparr>dr_catalog_generation := 1\<rparr>"

text \<open>
  Reading the store after a sequence returns exactly the retained events with a greater
  sequence, in strictly increasing order, and polling it repeatedly with the latest sequence
  seen, whatever is published in between, never returns an event twice or out of order.
\<close>

theorem event_polls_increasing:
  assumes "EventStore limits boot = Some s"
  shows "sorted_wrt (<) (map pv_sequence (store.polled seen batches s)) \<and>
    (let s' = fold es_step ds s
     in sn_events (EventStore_since n s') = filter (\<lambda>e. n < pv_sequence e) (es_events s'))"
proof -
  have inv: "es_inv s"
    using assms by (auto simp: EventStore_def es_inv_init split: if_splits)
  then have "es_inv (fold es_step ds s)" by (rule store.inv_fold)
  with inv show ?thesis
    by (simp add: store.polled_sorted EventStore_since_filter Let_def)
qed

end
