(* ===== verification/DataStore.thy ===== *)
theory DataStore
  imports Catalog Events
begin

unbundle bit_operations_syntax

text \<open>
  The operations of \<open>DataManager\<close> (\<open>src/product/src/data/data_manager.*\<close>): the sharded
  store of latest observations, last valid values and histories, the heartbeat evidence
  store, the health store, and the events each of them publishes. The results about them are
  in the theories \<open>DataStore_Commit\<close> and \<open>DataStore_Health\<close>.

  A member function that takes \<open>state_mutex_\<close> is one step; the publications it makes after
  releasing the mutex are part of the step.
\<close>

section \<open>Keys, limits, state\<close>

datatype data_key = DataKey (dk_entity: entity_ref) (dk_metric: metric_id)

definition data_key_tuple :: "data_key \<Rightarrow> entity_ref \<times> metric_id" where
  "data_key_tuple k = (dk_entity k, dk_metric k)"

lemma data_key_tuple_inject [simp]: "data_key_tuple a = data_key_tuple b \<longleftrightarrow> a = b"
  by (cases a; cases b) (simp add: data_key_tuple_def)

instantiation data_key :: linorder
begin

definition less_eq_data_key :: "data_key \<Rightarrow> data_key \<Rightarrow> bool" where
  "less_eq_data_key a b = (data_key_tuple a \<le> data_key_tuple b)"

definition less_data_key :: "data_key \<Rightarrow> data_key \<Rightarrow> bool" where
  "less_data_key a b = (data_key_tuple a < data_key_tuple b)"

instance
  by intro_classes (auto simp: less_eq_data_key_def less_data_key_def order_less_le)

end

record data_store_limits =
  dl_shard_count :: size_t
  dl_max_keys :: size_t
  dl_max_history_samples_per_key :: size_t
  dl_max_history_duration_ns :: i64
  dl_max_total_bytes :: size_t
  dl_max_value_bytes :: size_t
  dl_max_query_items :: size_t
  dl_max_tombstones :: size_t
  dl_max_events :: size_t
  dl_max_event_bytes :: size_t
  dl_max_evidence_items :: size_t
  dl_max_evidence_bytes :: size_t
  dl_evidence_ttl_ns :: i64
  dl_max_health_entries :: size_t
  dl_max_health_evidence_refs :: size_t
  dl_max_health_result_bytes :: size_t
  dl_max_health_bytes :: size_t

definition DataStoreLimits_validate :: "data_store_limits \<Rightarrow> pdcm_status" where
  "DataStoreLimits_validate l =
    (if dl_shard_count l = 0 \<or> dl_shard_count l > 256 \<or> dl_max_keys l = 0 \<or>
        dl_max_history_samples_per_key l = 0 \<or> dl_max_history_duration_ns l \<le> 0 \<or>
        dl_max_total_bytes l = 0 \<or> dl_max_value_bytes l = 0 \<or> dl_max_query_items l = 0 \<or>
        dl_max_tombstones l = 0 \<or> dl_max_events l = 0 \<or> dl_max_event_bytes l = 0 \<or>
        dl_max_evidence_items l = 0 \<or> dl_max_evidence_bytes l = 0 \<or> dl_evidence_ttl_ns l \<le> 0 \<or>
        dl_max_health_entries l = 0 \<or> dl_max_health_evidence_refs l = 0 \<or>
        dl_max_health_result_bytes l = 0 \<or> dl_max_health_bytes l = 0 \<or>
        dl_max_value_bytes l > dl_max_total_bytes l
     then INVALID_ARGUMENT else SUCCESS)"

record data_entry =
  dt_latest :: "observation option"
  dt_last_valid :: "observation option"
  dt_history :: "observation list"

definition default_entry :: data_entry where
  "default_entry = \<lparr>dt_latest = None, dt_last_valid = None, dt_history = []\<rparr>"

record catalog_state =
  cst_generation :: u64
  cst_topology_unsupported :: bool
  cst_entities :: "entity_ref list"
  cst_metrics :: "(u32, metric_descriptor) omap"
  cst_heartbeat :: "health_catalog_entry option"
  cst_heartbeat_supported :: bool

definition default_catalog_state :: catalog_state where
  "default_catalog_state =
     \<lparr>cst_generation = 0, cst_topology_unsupported = False, cst_entities = [], cst_metrics = [],
      cst_heartbeat = None, cst_heartbeat_supported = False\<rparr>"

type_synonym shard = "(data_key, data_entry) omap"

record data_manager =
  dm_limits :: data_store_limits
  dm_event_store :: event_store
  dm_shards :: "shard list"
  dm_catalog :: catalog_state
  dm_commit_epoch :: u64
  dm_tombstones :: "(entity_ref \<times> u64) list"
  dm_heartbeat_evidence :: "heartbeat_evidence list"
  dm_latest_heartbeat :: "(entity_ref, u64) omap"
  dm_health :: "(entity_ref, health_result) omap"
  dm_next_evidence_id :: u64

definition data_manager_start :: "data_store_limits \<Rightarrow> data_manager" where
  "data_manager_start l =
     \<lparr>dm_limits = l,
      dm_event_store =
        event_store_start \<lparr>el_max_events = dl_max_events l, el_max_bytes = dl_max_event_bytes l\<rparr> 1,
      dm_shards = replicate (dl_shard_count l) [], dm_catalog = default_catalog_state,
      dm_commit_epoch = 0, dm_tombstones = [], dm_heartbeat_evidence = [],
      dm_latest_heartbeat = [], dm_health = [], dm_next_evidence_id = 1\<rparr>"

text \<open>The constructor throws on invalid limits.\<close>

definition DataManager :: "data_store_limits \<Rightarrow> data_manager option" where
  "DataManager l =
     (if \<not> ok (DataStoreLimits_validate l) then None else Some (data_manager_start l))"

section \<open>Small functions\<close>

definition sameLogicalEntity :: "entity_ref \<Rightarrow> entity_ref \<Rightarrow> bool" where
  "sameLogicalEntity lhs rhs \<longleftrightarrow> er_kind lhs = er_kind rhs \<and> er_id lhs = er_id rhs"

definition shardIndex :: "size_t \<Rightarrow> data_key \<Rightarrow> nat" where
  "shardIndex shard_count key =
     nat (uint (er_id (dk_entity key) XOR (er_generation (dk_entity key) + 0x9E3779B97F4A7C15) XOR
                (ucast (dk_metric key) :: u64)) mod int shard_count)"

fun valueMatches :: "metric_value_kind \<Rightarrow> metric_value \<Rightarrow> bool" where
  "valueMatches MK_Int64 v = (case v of V_int64 _ \<Rightarrow> True | _ \<Rightarrow> False)"
| "valueMatches MK_Uint64 v = (case v of V_uint64 _ \<Rightarrow> True | _ \<Rightarrow> False)"
| "valueMatches MK_Enum v = (case v of V_uint64 _ \<Rightarrow> True | _ \<Rightarrow> False)"
| "valueMatches MK_Double v = (case v of V_double _ \<Rightarrow> True | _ \<Rightarrow> False)"
| "valueMatches MK_Bool v = (case v of V_bool _ \<Rightarrow> True | _ \<Rightarrow> False)"
| "valueMatches MK_String v = (case v of V_string _ \<Rightarrow> True | _ \<Rightarrow> False)"

definition sizeof_Entry :: size_t where "sizeof_Entry = 944"
definition sizeof_HeartbeatEvidence :: size_t where "sizeof_HeartbeatEvidence = 216"
definition sizeof_HealthResult :: size_t where "sizeof_HealthResult = 120"

definition observationBytes :: "observation \<Rightarrow> size_t" where
  "observationBytes o' =
     sizeof_Observation + (case obs_value o' of None \<Rightarrow> 0 | Some v \<Rightarrow> valueBytes v) +
     length (src_provider (obs_source o')) + length (src_native_source (obs_source o')) +
     length (status_message (em_status (obs_error o'))) +
     length (dv_processor_id (obs_derivation o')) +
     length (dv_input_sequences (obs_derivation o')) * sizeof_uint64 +
     (case obs_latest_failure o' of None \<Rightarrow> 0 | Some f \<Rightarrow> length (status_message (em_status f)))"

definition entryBytes :: "data_entry \<Rightarrow> size_t" where
  "entryBytes e =
     sizeof_Entry + (case dt_latest e of None \<Rightarrow> 0 | Some o' \<Rightarrow> observationBytes o') +
     (case dt_last_valid e of None \<Rightarrow> 0 | Some o' \<Rightarrow> observationBytes o') +
     sum_list (map observationBytes (dt_history e))"

definition obs_key :: "observation \<Rightarrow> data_key" where
  "obs_key o' = DataKey (obs_entity o') (obs_metric o')"

definition unavailable ::
  "data_key \<Rightarrow> u32 \<Rightarrow> u64 \<Rightarrow> u64 \<Rightarrow> i64 \<Rightarrow> pdcm_status \<Rightarrow> observation_status \<Rightarrow> string \<Rightarrow> observation" where
  "unavailable key semantic_version catalog_generation commit_epoch now st obs_st message =
     default_observation\<lparr>obs_entity := dk_entity key, obs_metric := dk_metric key,
       obs_status := obs_st,
       obs_metric_semantic_version := (if semantic_version = 0 then 1 else semantic_version),
       obs_observed_monotonic_time_ns := now, obs_catalog_generation := catalog_generation,
       obs_commit_epoch := commit_epoch,
       obs_source := default_source\<lparr>src_provider := ''pdcm-data''\<rparr>,
       obs_error := default_error\<lparr>em_status := Status st message\<rparr>\<rparr>"

section \<open>activateCatalog\<close>

definition push_bounded :: "nat \<Rightarrow> 'a \<Rightarrow> 'a list \<Rightarrow> 'a list" where
  "push_bounded n x xs = (let ys = xs @ [x] in drop (length ys - n) ys)"

definition next_catalog_state :: "catalog_view \<Rightarrow> target_catalog \<Rightarrow> catalog_state" where
  "next_catalog_state v tc =
    (let entities = map en_ref (cv_entities v);
         supported =
           (case entities of
              [e] \<Rightarrow>
               (case CatalogView_capabilities e v of
                  (st, Some s) \<Rightarrow>
                   ok st \<and>
                   (case find (\<lambda>i. ci_kind i = CP_Health \<and> ci_id i = kFirmwareHeartbeatHealthId)
                           (cs_items s) of
                      None \<Rightarrow> False | Some i \<Rightarrow> ci_supported i)
                | (_, None) \<Rightarrow> False)
            | _ \<Rightarrow> False)
     in \<lparr>cst_generation = cv_generation v, cst_topology_unsupported = cv_topology_unsupported v,
         cst_entities = entities,
         cst_metrics = fold (\<lambda>d m. omap_emplace (md_id d) d m) (tc_metrics tc) [],
         cst_heartbeat = Some (hd (tc_health tc)), cst_heartbeat_supported = supported\<rparr>)"

definition DataManager_activateCatalog ::
  "catalog_view option \<Rightarrow> target_catalog \<Rightarrow> data_manager \<Rightarrow> pdcm_status \<times> data_manager" where
  "DataManager_activateCatalog catalog tc m =
    (case catalog of
       None \<Rightarrow> (INVALID_ARGUMENT, m)
     | Some v \<Rightarrow>
        if cv_generation v = 0 then (INVALID_ARGUMENT, m)
        else if \<not> ok (TargetCatalog_validate tc) then (TargetCatalog_validate tc, m)
        else if list_ex (\<lambda>e. en_target e \<noteq> tc_target tc \<or> er_kind (en_ref e) \<noteq> EK_Device \<or>
                             er_generation (en_ref e) = 0) (cv_entities v)
        then (INVALID_ARGUMENT, m)
        else if cst_generation (dm_catalog m) \<noteq> 0 \<and> cv_generation v < cst_generation (dm_catalog m)
        then (STALE_GENERATION, m)
        else if cv_generation v = cst_generation (dm_catalog m) then (SUCCESS, m)
        else
         let gone = filter (\<lambda>old. old \<notin> set (map en_ref (cv_entities v)))
                      (cst_entities (dm_catalog m));
             tombs = fold (\<lambda>old. push_bounded (dl_max_tombstones (dm_limits m))
                                     (old, cv_generation v)) gone (dm_tombstones m);
             draft = default_draft\<lparr>dr_type := ET_CatalogChanged,
                                   dr_catalog_generation := cv_generation v\<rparr>
         in (SUCCESS,
             m\<lparr>dm_tombstones := tombs, dm_shards := map (\<lambda>_. []) (dm_shards m),
               dm_heartbeat_evidence := [], dm_latest_heartbeat := [], dm_health := [],
               dm_catalog := next_catalog_state v tc,
               dm_event_store := snd (EventStore_publish draft (dm_event_store m))\<rparr>))"

section \<open>commit\<close>

record data_commit_result =
  dcr_status :: pdcm_status
  dcr_commit_epoch :: u64
  dcr_committed_items :: size_t

text \<open>The first loop: every observation of the batch against the catalog and the limits.\<close>

fun validateBatch ::
  "data_store_limits \<Rightarrow> catalog_state \<Rightarrow> data_key set \<Rightarrow> observation list \<Rightarrow> pdcm_status" where
  "validateBatch l cat seen [] = SUCCESS"
| "validateBatch l cat seen (o' # os) =
    (if obs_key o' \<in> seen then INVALID_ARGUMENT
     else if obs_commit_epoch o' \<noteq> 0 \<or> obs_catalog_generation o' \<noteq> cst_generation cat \<or>
        obs_status o' = OS_Stale
     then STALE_GENERATION
     else if obs_entity o' \<notin> set (cst_entities cat) then STALE_GENERATION
     else
      case map_of (cst_metrics cat) (obs_metric o') of
        None \<Rightarrow> UNSUPPORTED
      | Some d \<Rightarrow>
         if \<not> ok (validateObservation o') \<or> obs_metric_semantic_version o' \<noteq> md_semantic_version d \<or>
            (case obs_value o' of None \<Rightarrow> False | Some v \<Rightarrow> \<not> valueMatches (md_value_type d) v) \<or>
            (case obs_value o' of None \<Rightarrow> False | Some v \<Rightarrow> valueBytes v > dl_max_value_bytes l)
         then INVALID_ARGUMENT
         else validateBatch l cat (insert (obs_key o') seen) os)"

text \<open>Appending a valid sample to a history and the two trimming loops.\<close>

definition pushHistory :: "data_store_limits \<Rightarrow> observation \<Rightarrow> observation list \<Rightarrow> observation list" where
  "pushHistory l o' h =
    (let h = push_bounded (dl_max_history_samples_per_key l) o' h
     in dropWhile (\<lambda>x. obs_observed_monotonic_time_ns o' - obs_observed_monotonic_time_ns x >
                       dl_max_history_duration_ns l) h)"

definition stageEntry :: "data_store_limits \<Rightarrow> observation \<Rightarrow> data_entry \<Rightarrow> data_entry" where
  "stageEntry l o' e =
    (let e = e\<lparr>dt_latest := Some o'\<rparr>
     in if obs_status o' = OS_Valid
        then e\<lparr>dt_last_valid := Some o', dt_history := pushHistory l o' (dt_history e)\<rparr>
        else e)"

definition lookup_shards :: "shard list \<Rightarrow> data_key \<Rightarrow> data_entry option" where
  "lookup_shards shards k = map_of (shards ! shardIndex (length shards) k) k"

definition put_shards :: "data_key \<Rightarrow> data_entry \<Rightarrow> shard list \<Rightarrow> shard list" where
  "put_shards k e shards =
    (let i = shardIndex (length shards) k in shards[i := omap_put k e (shards ! i)])"

text \<open>The second loop: staging the batch in a copy of the shards.\<close>

fun stageBatch ::
  "data_store_limits \<Rightarrow> u64 \<Rightarrow> observation list \<Rightarrow> shard list \<Rightarrow> bool \<Rightarrow> (shard list \<times> bool) option" where
  "stageBatch l epoch [] staged partial = Some (staged, partial)"
| "stageBatch l epoch (o' # os) staged partial =
    (let o' = o'\<lparr>obs_commit_epoch := epoch\<rparr>;
         k = obs_key o';
         e = (case lookup_shards staged k of None \<Rightarrow> default_entry | Some e \<Rightarrow> e)
     in if (case dt_latest e of
              None \<Rightarrow> False
            | Some latest \<Rightarrow> obs_observed_monotonic_time_ns o' < obs_observed_monotonic_time_ns latest)
        then None
        else stageBatch l epoch os (put_shards k (stageEntry l o' e) staged)
               (partial \<or> obs_status o' \<noteq> OS_Valid))"

definition shards_keys :: "shard list \<Rightarrow> size_t" where
  "shards_keys shards = sum_list (map length shards)"

definition shards_bytes :: "shard list \<Rightarrow> size_t" where
  "shards_bytes shards = sum_list (map (\<lambda>s. sum_list (map (entryBytes \<circ> snd) s)) shards)"

text \<open>The entry with the oldest history sample, in shard order then key order.\<close>

definition staged_pairs :: "shard list \<Rightarrow> (nat \<times> data_key \<times> data_entry) list" where
  "staged_pairs shards =
     concat (map (\<lambda>(i, s). map (\<lambda>(k, e). (i, k, e)) s) (enumerate 0 shards))"

fun oldest_history ::
  "(nat \<times> data_key \<times> data_entry) list \<Rightarrow> i64 \<Rightarrow> (nat \<times> data_key \<times> data_entry) option \<Rightarrow>
   (nat \<times> data_key \<times> data_entry) option" where
  "oldest_history [] oldest_time oldest = oldest"
| "oldest_history ((i, k, e) # rest) oldest_time oldest =
    (case dt_history e of
       [] \<Rightarrow> oldest_history rest oldest_time oldest
     | x # _ \<Rightarrow>
        if obs_observed_monotonic_time_ns x < oldest_time
        then oldest_history rest (obs_observed_monotonic_time_ns x) (Some (i, k, e))
        else oldest_history rest oldest_time oldest)"

definition pop_history :: "nat \<Rightarrow> data_key \<Rightarrow> shard list \<Rightarrow> shard list" where
  "pop_history i k shards =
     shards[i := map (\<lambda>(k', e). (k', if k' = k then e\<lparr>dt_history := tl (dt_history e)\<rparr> else e))
                   (shards ! i)]"

definition history_count :: "shard list \<Rightarrow> nat" where
  "history_count shards = sum_list (map (\<lambda>s. sum_list (map (length \<circ> dt_history \<circ> snd) s)) shards)"

lemma oldest_history_Some:
  assumes "oldest_history ps t best = Some (i, k, e)"
  shows "(i, k, e) \<in> set ps \<and> dt_history e \<noteq> [] \<or> best = Some (i, k, e)"
  using assms
  by (induction ps t best rule: oldest_history.induct) (auto split: list.splits if_splits)

lemma staged_pairsD:
  "(i, k, e) \<in> set (staged_pairs shards) \<Longrightarrow> i < length shards \<and> (k, e) \<in> set (shards ! i)"
  by (auto simp: staged_pairs_def in_set_enumerate_eq)

lemma sum_list_map_less:
  fixes f g :: "'a \<Rightarrow> nat"
  shows "(\<And>x. x \<in> set xs \<Longrightarrow> f x \<le> g x) \<Longrightarrow> x \<in> set xs \<Longrightarrow> f x < g x \<Longrightarrow>
    sum_list (map f xs) < sum_list (map g xs)"
proof (induction xs)
  case (Cons a xs)
  then show ?case
  proof (cases "x = a")
    case True
    then show ?thesis using Cons by (simp add: add_less_le_mono sum_list_mono)
  next
    case False
    then show ?thesis using Cons by (simp add: add_le_less_mono)
  qed
qed simp

lemma sum_list_map_update_less:
  fixes f :: "'a \<Rightarrow> nat"
  assumes "i < length xs" "f y < f (xs ! i)"
  shows "sum_list (map f (xs[i := y])) < sum_list (map f xs)"
proof -
  have "sum_list (map f xs) = sum_list (map f (take i xs)) + f (xs ! i) + sum_list (map f (drop (Suc i) xs))"
    using id_take_nth_drop [OF assms(1)] by (metis map_append list.map(2) sum_list.append sum_list.Cons add.assoc)
  then show ?thesis
    using assms by (simp add: upd_conv_take_nth_drop)
qed

lemma pop_history_count:
  assumes "oldest_history (staged_pairs shards) t None = Some (i, k, e)"
  shows "history_count (pop_history i k shards) < history_count shards"
proof -
  have e: "(k, e) \<in> set (shards ! i)" "dt_history e \<noteq> []" "i < length shards"
    using oldest_history_Some [OF assms] staged_pairsD by auto
  have "sum_list (map (length \<circ> dt_history \<circ> snd)
      (map (\<lambda>(k', e). (k', if k' = k then e\<lparr>dt_history := tl (dt_history e)\<rparr> else e)) (shards ! i)))
    < sum_list (map (length \<circ> dt_history \<circ> snd) (shards ! i))"
    unfolding map_map
    by (rule sum_list_map_less [of _ _ _ "(k, e)"]) (use e in \<open>auto simp: comp_def\<close>)
  then show ?thesis
    unfolding history_count_def pop_history_def by (rule sum_list_map_update_less [OF e(3)])
qed

function evictHistory :: "data_store_limits \<Rightarrow> shard list \<Rightarrow> size_t \<Rightarrow> shard list \<times> size_t" where
  "evictHistory l shards bytes =
    (if bytes > dl_max_total_bytes l
     then case oldest_history (staged_pairs shards) i64_max None of
            None \<Rightarrow> (shards, bytes)
          | Some (i, k, e) \<Rightarrow>
             evictHistory l (pop_history i k shards)
               (szsub bytes (observationBytes (hd (dt_history e))))
     else (shards, bytes))"
  by pat_completeness auto
termination
  by (relation "measure (\<lambda>(l, shards, bytes). history_count shards)") (auto simp: pop_history_count)

declare evictHistory.simps [simp del]

definition commit_draft :: "u64 \<Rightarrow> observation \<Rightarrow> event_draft" where
  "commit_draft epoch o' =
     default_draft\<lparr>dr_type := ET_MetricUpdate,
       dr_severity := (if obs_status o' = OS_Valid then SV_Info else SV_Warning),
       dr_entity := Some (obs_entity o'), dr_metric := Some (obs_metric o'),
       dr_occurrence_time_ns := obs_observed_monotonic_time_ns o',
       dr_catalog_generation := obs_catalog_generation o',
       dr_payload := P_MetricUpdate \<lparr>mu_status = obs_status o', mu_commit_epoch = epoch\<rparr>\<rparr>"

definition DataManager_commit ::
  "observation list \<Rightarrow> data_manager \<Rightarrow> data_commit_result \<times> data_manager" where
  "DataManager_commit os m =
    (let fail = (\<lambda>st. (\<lparr>dcr_status = st, dcr_commit_epoch = 0, dcr_committed_items = 0\<rparr>, m));
         l = dm_limits m; cat = dm_catalog m
     in if os = [] then fail INVALID_ARGUMENT
        else if cst_generation cat = 0 then fail NOT_INITIALIZED
        else if cst_topology_unsupported cat then fail UNSUPPORTED
        else if dm_commit_epoch m = u64_max then fail INTERNAL
        else if \<not> ok (validateBatch l cat {} os) then fail (validateBatch l cat {} os)
        else
         let next_epoch = dm_commit_epoch m + 1
         in case stageBatch l next_epoch os (dm_shards m) False of
              None \<Rightarrow> fail INVALID_ARGUMENT
            | Some (staged, partial) \<Rightarrow>
               if shards_keys staged > dl_max_keys l then fail RESOURCE_EXHAUSTED
               else
                let (staged, bytes) = evictHistory l staged (shards_bytes staged)
                in if bytes > dl_max_total_bytes l then fail RESOURCE_EXHAUSTED
                   else
                    (\<lparr>dcr_status = (if partial then PARTIAL_RESULT else SUCCESS),
                      dcr_commit_epoch = next_epoch, dcr_committed_items = length os\<rparr>,
                     m\<lparr>dm_shards := staged, dm_commit_epoch := next_epoch,
                       dm_event_store := fold (\<lambda>o' s. snd (EventStore_publish (commit_draft next_epoch o') s))
                                           os (dm_event_store m)\<rparr>))"

section \<open>Reading observations\<close>

record data_read_result =
  drr_status :: pdcm_status
  drr_catalog_generation :: u64
  drr_observed_commit_epoch :: u64
  drr_items :: "observation list"

text \<open>One iteration of the loop of \<open>readLatest\<close>: an error that ends the query, or the item.\<close>

definition readItem ::
  "bool \<Rightarrow> i64 \<Rightarrow> data_manager \<Rightarrow> data_key \<Rightarrow> pdcm_status + observation" where
  "readItem allow_stale now m key =
    (let cat = dm_catalog m; epoch = dm_commit_epoch m
     in case find (\<lambda>e. sameLogicalEntity e (dk_entity key)) (cst_entities cat) of
          None \<Rightarrow> Inl NOT_FOUND
        | Some e \<Rightarrow>
           if e \<noteq> dk_entity key then Inl STALE_GENERATION
           else
            case map_of (cst_metrics cat) (dk_metric key) of
              None \<Rightarrow>
               Inr (unavailable key 0 (cst_generation cat) epoch now UNSUPPORTED OS_Unsupported
                      ''metric is not in active catalog'')
            | Some d \<Rightarrow>
               let missing =
                     Inr (unavailable key (md_semantic_version d) (cst_generation cat) epoch now
                            UNAVAILABLE OS_NotAvailable ''metric has not been sampled'')
               in case lookup_shards (dm_shards m) key of
                    None \<Rightarrow> missing
                  | Some entry \<Rightarrow>
                     (case dt_latest entry of
                        None \<Rightarrow> missing
                      | Some item \<Rightarrow>
                         if obs_status item \<noteq> OS_Valid \<and> allow_stale
                         then case dt_last_valid entry of
                                None \<Rightarrow> Inr item
                              | Some valid \<Rightarrow>
                                 if now < obs_observed_monotonic_time_ns valid
                                 then Inl INVALID_ARGUMENT
                                 else Inr (valid\<lparr>obs_status := OS_Stale,
                                             obs_commit_epoch := obs_commit_epoch item,
                                             obs_stale_age_ns :=
                                               Some (now - obs_observed_monotonic_time_ns valid),
                                             obs_latest_failure := Some (obs_error item),
                                             obs_error := obs_error item\<rparr>)
                         else Inr item))"

text \<open>The loop over the sorted keys: the first error, or all items and the partial flag.\<close>

fun readItems ::
  "bool \<Rightarrow> i64 \<Rightarrow> data_manager \<Rightarrow> data_key list \<Rightarrow> pdcm_status + observation list \<times> bool" where
  "readItems allow_stale now m [] = Inr ([], False)"
| "readItems allow_stale now m (k # ks) =
    (case readItem allow_stale now m k of
       Inl st \<Rightarrow> Inl st
     | Inr item \<Rightarrow>
        (case readItems allow_stale now m ks of
           Inl st \<Rightarrow> Inl st
         | Inr (items, partial) \<Rightarrow> Inr (item # items, obs_status item \<noteq> OS_Valid \<or> partial)))"

definition readLatest ::
  "data_key list \<Rightarrow> bool \<Rightarrow> i64 \<Rightarrow> u64 \<Rightarrow> data_manager \<Rightarrow> data_read_result" where
  "readLatest keys allow_stale now required m =
    (let cat = dm_catalog m;
         bad = (\<lambda>st. \<lparr>drr_status = st, drr_catalog_generation = 0, drr_observed_commit_epoch = 0,
                      drr_items = []\<rparr>);
         result = (\<lambda>st items. \<lparr>drr_status = st, drr_catalog_generation = cst_generation cat,
                      drr_observed_commit_epoch = dm_commit_epoch m, drr_items = items\<rparr>);
         sorted = sort keys
     in if keys = [] \<or> length keys > dl_max_query_items (dm_limits m) \<or> now < 0
        then bad INVALID_ARGUMENT
        else if adjacent_find sorted then bad INVALID_ARGUMENT
        else if cst_generation cat = 0 then result NOT_INITIALIZED []
        else if required \<noteq> 0 \<and> required \<noteq> cst_generation cat then result STALE_GENERATION []
        else if cst_topology_unsupported cat then result UNSUPPORTED []
        else
         case readItems allow_stale now m sorted of
           Inl st \<Rightarrow> result st []
         | Inr (items, partial) \<Rightarrow> result (if partial then PARTIAL_RESULT else SUCCESS) items)"

definition DataManager_history :: "data_key \<Rightarrow> data_manager \<Rightarrow> pdcm_status \<times> observation list" where
  "DataManager_history key m =
    (if cst_generation (dm_catalog m) = 0 then (NOT_INITIALIZED, [])
     else
      case lookup_shards (dm_shards m) key of
        None \<Rightarrow> (NOT_FOUND, [])
      | Some e \<Rightarrow> (SUCCESS, dt_history e))"

definition metricDescriptor :: "metric_id \<Rightarrow> data_manager \<Rightarrow> metric_descriptor option" where
  "metricDescriptor metric m = map_of (cst_metrics (dm_catalog m)) metric"

text \<open>\<open>waitForEpoch\<close>; \<open>at_wake\<close> is the store when the wait ends, by the epoch or the deadline.\<close>

definition waitForEpoch :: "u64 \<Rightarrow> data_manager \<Rightarrow> pdcm_status" where
  "waitForEpoch epoch at_wake =
    (if epoch = 0 then INVALID_ARGUMENT
     else if dm_commit_epoch at_wake \<ge> epoch then SUCCESS else TIMEOUT)"

definition keyCount :: "data_manager \<Rightarrow> size_t" where
  "keyCount m = shards_keys (dm_shards m)"

definition heartbeatEvidenceBytes :: "heartbeat_evidence \<Rightarrow> size_t" where
  "heartbeatEvidenceBytes e =
     sizeof_HeartbeatEvidence + length (src_provider (ev_source e)) +
     length (src_native_source (ev_source e)) + length (status_message (em_status (ev_error e)))"

definition healthResultBytes :: "health_result \<Rightarrow> size_t" where
  "healthResultBytes r =
     sizeof_HealthResult +
     sum_list (map (\<lambda>e. sizeof_EvidenceRef + length (src_provider (rf_source e)) +
                        length (src_native_source (rf_source e))) (hr_evidence r)) +
     sum_list (map (\<lambda>l. sizeof_HealthLimitation + length (hl_detail l)) (hr_limitations r))"

definition storedBytes :: "data_manager \<Rightarrow> size_t" where
  "storedBytes m =
     shards_bytes (dm_shards m) + sum_list (map heartbeatEvidenceBytes (dm_heartbeat_evidence m)) +
     sum_list (map (\<lambda>(_, r). sizeof_EntityRef + healthResultBytes r) (dm_health m))"

definition publishEvent ::
  "event_draft \<Rightarrow> data_manager \<Rightarrow> (pdcm_status \<times> pdcm_event option) \<times> data_manager" where
  "publishEvent d m =
    (let (r, s) = EventStore_publish d (dm_event_store m) in (r, m\<lparr>dm_event_store := s\<rparr>))"

definition eventsSince :: "u64 \<Rightarrow> data_manager \<Rightarrow> event_snapshot" where
  "eventsSince n m = EventStore_since n (dm_event_store m)"

section \<open>Heartbeat evidence\<close>

record evidence_commit_result =
  ecr_status :: pdcm_status
  ecr_evidence_id :: u64
  ecr_commit_epoch :: u64
  ecr_committed :: bool

text \<open>Equality of all fields but the store-assigned identifier.\<close>

definition sameHeartbeatEvidence :: "heartbeat_evidence \<Rightarrow> heartbeat_evidence \<Rightarrow> bool" where
  "sameHeartbeatEvidence lhs rhs \<longleftrightarrow>
     ev_entity lhs = ev_entity rhs \<and> ev_provider_data_id lhs = ev_provider_data_id rhs \<and>
     ev_native_class lhs = ev_native_class rhs \<and> ev_status lhs = ev_status rhs \<and>
     ev_sequence_or_token lhs = ev_sequence_or_token rhs \<and>
     ev_source_sample_time_ns lhs = ev_source_sample_time_ns rhs \<and>
     ev_observed_monotonic_time_ns lhs = ev_observed_monotonic_time_ns rhs \<and>
     src_provider (ev_source lhs) = src_provider (ev_source rhs) \<and>
     src_native_source (ev_source lhs) = src_native_source (ev_source rhs) \<and>
     em_status (ev_error lhs) = em_status (ev_error rhs) \<and>
     em_native_code (ev_error lhs) = em_native_code (ev_error rhs) \<and>
     em_retryable (ev_error lhs) = em_retryable (ev_error rhs) \<and>
     ev_catalog_generation lhs = ev_catalog_generation rhs"

definition is_referenced :: "(entity_ref, health_result) omap \<Rightarrow> u64 \<Rightarrow> bool" where
  "is_referenced health evidence_id \<longleftrightarrow>
     list_ex (\<lambda>(_, r). list_ex (\<lambda>e. rf_evidence_id e = evidence_id) (hr_evidence r)) health"

definition find_evidence :: "u64 \<Rightarrow> heartbeat_evidence list \<Rightarrow> heartbeat_evidence option" where
  "find_evidence evidence_id es = find (\<lambda>e. ev_evidence_id e = evidence_id) es"

definition evidence_bytes :: "heartbeat_evidence list \<Rightarrow> size_t" where
  "evidence_bytes es = sum_list (map heartbeatEvidenceBytes es)"

text \<open>The expiry loop: evidence past its time to live that no health result cites is erased.\<close>

definition expireEvidence ::
  "data_store_limits \<Rightarrow> (entity_ref, health_result) omap \<Rightarrow> heartbeat_evidence \<Rightarrow>
   heartbeat_evidence list \<Rightarrow> heartbeat_evidence list" where
  "expireEvidence l health evidence staged =
     filter (\<lambda>c. \<not> (ev_evidence_id c \<noteq> ev_evidence_id evidence \<and>
       ev_observed_monotonic_time_ns evidence \<ge> ev_observed_monotonic_time_ns c \<and>
       ev_observed_monotonic_time_ns evidence - ev_observed_monotonic_time_ns c > dl_evidence_ttl_ns l \<and>
       \<not> is_referenced health (ev_evidence_id c))) staged"

text \<open>The eviction loop; \<open>None\<close> when the limit is exceeded and nothing is evictable.\<close>

function evictEvidence ::
  "data_store_limits \<Rightarrow> (entity_ref, health_result) omap \<Rightarrow> u64 \<Rightarrow> heartbeat_evidence list \<Rightarrow>
   heartbeat_evidence list option" where
  "evictEvidence l health new_id staged =
    (if length staged > dl_max_evidence_items l \<or> evidence_bytes staged > dl_max_evidence_bytes l
     then let evictable = (\<lambda>c. ev_evidence_id c \<noteq> new_id \<and> \<not> is_referenced health (ev_evidence_id c))
          in case find evictable staged of
               None \<Rightarrow> None
             | Some _ \<Rightarrow> evictEvidence l health new_id (erase_first evictable staged)
     else Some staged)"
  by pat_completeness auto
termination
  by (relation "measure (\<lambda>(l, health, new_id, staged). length staged)")
    (auto dest: length_erase_first)

declare evictEvidence.simps [simp del]

definition commitHeartbeatEvidence ::
  "heartbeat_evidence \<Rightarrow> data_manager \<Rightarrow> evidence_commit_result \<times> data_manager" where
  "commitHeartbeatEvidence evidence m =
    (let fail = (\<lambda>st. (\<lparr>ecr_status = st, ecr_evidence_id = 0, ecr_commit_epoch = 0,
                        ecr_committed = False\<rparr>, m));
         cat = dm_catalog m;
         latest = (case map_of (dm_latest_heartbeat m) (ev_entity evidence) of
                     None \<Rightarrow> None
                   | Some latest_id \<Rightarrow> find_evidence latest_id (dm_heartbeat_evidence m));
         last_valid = find (\<lambda>c. ev_entity c = ev_entity evidence \<and> ev_status c = OS_Valid)
                        (rev (dm_heartbeat_evidence m))
     in if ev_evidence_id evidence \<noteq> 0 then fail INVALID_ARGUMENT
        else if \<not> ok (validateFirmwareHeartbeatEvidence evidence)
        then fail (validateFirmwareHeartbeatEvidence evidence)
        else if cst_generation cat = 0 then fail NOT_INITIALIZED
        else if cst_topology_unsupported cat then fail UNSUPPORTED
        else if ev_catalog_generation evidence \<noteq> cst_generation cat \<or>
           ev_entity evidence \<notin> set (cst_entities cat)
        then fail STALE_GENERATION
        else if (case cst_heartbeat cat of
                   None \<Rightarrow> True
                 | Some h \<Rightarrow>
                    (case hc_provider_data_id h of
                       None \<Rightarrow> True
                     | Some data_id \<Rightarrow> ev_provider_data_id evidence \<noteq> data_id)) \<or>
           \<not> cst_heartbeat_supported cat
        then fail UNSUPPORTED
        else if dm_commit_epoch m = u64_max \<or> dm_next_evidence_id m = u64_max then fail INTERNAL
        else if (case latest of None \<Rightarrow> False | Some x \<Rightarrow> sameHeartbeatEvidence x evidence)
        then (\<lparr>ecr_status = SUCCESS, ecr_evidence_id = ev_evidence_id (the latest),
               ecr_commit_epoch = dm_commit_epoch m, ecr_committed = False\<rparr>, m)
        else if (case latest of
                   None \<Rightarrow> False
                 | Some x \<Rightarrow> ev_observed_monotonic_time_ns evidence \<le> ev_observed_monotonic_time_ns x)
        then fail STALE_GENERATION
        else if ev_status evidence = OS_Valid \<and>
           (case last_valid of
              None \<Rightarrow> False
            | Some x \<Rightarrow>
               ev_sequence_or_token evidence \<le> ev_sequence_or_token x \<or>
               the (ev_source_sample_time_ns evidence) \<le> the (ev_source_sample_time_ns x))
        then fail STALE_GENERATION
        else
         let evidence = evidence\<lparr>ev_evidence_id := dm_next_evidence_id m\<rparr>;
             staged = expireEvidence (dm_limits m) (dm_health m) evidence
                        (dm_heartbeat_evidence m @ [evidence])
         in case evictEvidence (dm_limits m) (dm_health m) (ev_evidence_id evidence) staged of
              None \<Rightarrow> fail RESOURCE_EXHAUSTED
            | Some staged \<Rightarrow>
               (\<lparr>ecr_status = SUCCESS, ecr_evidence_id = ev_evidence_id evidence,
                 ecr_commit_epoch = dm_commit_epoch m + 1, ecr_committed = True\<rparr>,
                m\<lparr>dm_next_evidence_id := dm_next_evidence_id m + 1,
                  dm_commit_epoch := dm_commit_epoch m + 1, dm_heartbeat_evidence := staged,
                  dm_latest_heartbeat :=
                    omap_put (ev_entity evidence) (ev_evidence_id evidence) (dm_latest_heartbeat m)\<rparr>))"

record evidence_read_result =
  err_status :: pdcm_status
  err_observed_commit_epoch :: u64
  err_evidence :: "heartbeat_evidence option"

text \<open>The guards that the heartbeat and health queries share.\<close>

definition entity_query_status :: "entity_ref \<Rightarrow> u64 \<Rightarrow> data_manager \<Rightarrow> pdcm_status" where
  "entity_query_status entity required m =
    (let cat = dm_catalog m
     in if cst_generation cat = 0 then NOT_INITIALIZED
        else if required \<noteq> 0 \<and> required \<noteq> cst_generation cat then STALE_GENERATION
        else
         case find (\<lambda>e. sameLogicalEntity e entity) (cst_entities cat) of
           None \<Rightarrow> NOT_FOUND
         | Some e \<Rightarrow> if e \<noteq> entity then STALE_GENERATION else SUCCESS)"

definition latestHeartbeatEvidence :: "entity_ref \<Rightarrow> u64 \<Rightarrow> data_manager \<Rightarrow> evidence_read_result" where
  "latestHeartbeatEvidence entity required m =
    (let result = (\<lambda>st e. \<lparr>err_status = st, err_observed_commit_epoch = dm_commit_epoch m,
                           err_evidence = e\<rparr>);
         st = entity_query_status entity required m
     in if st \<noteq> SUCCESS then result st None
        else
         case map_of (dm_latest_heartbeat m) entity of
           None \<Rightarrow> result NOT_FOUND None
         | Some latest_id \<Rightarrow>
            (case find_evidence latest_id (dm_heartbeat_evidence m) of
               None \<Rightarrow> result NOT_FOUND None
             | Some e \<Rightarrow> result SUCCESS (Some e)))"

definition heartbeatEvidence :: "u64 \<Rightarrow> data_manager \<Rightarrow> evidence_read_result" where
  "heartbeatEvidence evidence_id m =
    (let result = (\<lambda>st e. \<lparr>err_status = st, err_observed_commit_epoch = dm_commit_epoch m,
                           err_evidence = e\<rparr>)
     in if evidence_id = 0
        then \<lparr>err_status = INVALID_ARGUMENT, err_observed_commit_epoch = 0, err_evidence = None\<rparr>
        else if cst_generation (dm_catalog m) = 0 then result NOT_INITIALIZED None
        else
         case find_evidence evidence_id (dm_heartbeat_evidence m) of
           None \<Rightarrow> result NOT_FOUND None
         | Some e \<Rightarrow> result SUCCESS (Some e))"

section \<open>Health results\<close>

record health_commit_result =
  hcr_status :: pdcm_status
  hcr_commit_epoch :: u64
  hcr_state_changed :: bool

definition sameHealthState :: "health_result \<Rightarrow> health_result \<Rightarrow> bool" where
  "sameHealthState lhs rhs \<longleftrightarrow>
     hr_state lhs = hr_state rhs \<and> hr_code lhs = hr_code rhs \<and> hr_limitations lhs = hr_limitations rhs"

fun healthSeverity :: "health_state \<Rightarrow> event_severity" where
  "healthSeverity HS_Healthy = SV_Info"
| "healthSeverity HS_Unknown = SV_Warning"
| "healthSeverity HS_Warning = SV_Warning"
| "healthSeverity HS_Error = SV_Error"

definition evidence_matches :: "health_result \<Rightarrow> evidence_ref \<Rightarrow> heartbeat_evidence \<Rightarrow> bool" where
  "evidence_matches r ref c \<longleftrightarrow>
     ev_evidence_id c = rf_evidence_id ref \<and> ev_entity c = hr_entity r \<and>
     ev_catalog_generation c = hr_catalog_generation r \<and>
     ev_sequence_or_token c = rf_sequence_or_token ref \<and>
     ev_source_sample_time_ns c = rf_source_sample_time_ns ref \<and>
     ev_observed_monotonic_time_ns c = rf_observed_monotonic_time_ns ref \<and>
     src_provider (ev_source c) = src_provider (rf_source ref) \<and>
     src_native_source (ev_source c) = src_native_source (rf_source ref)"

text \<open>The loop over the cited evidence, with the identifiers seen so far.\<close>

fun checkReferences ::
  "health_result \<Rightarrow> heartbeat_evidence list \<Rightarrow> u64 set \<Rightarrow> evidence_ref list \<Rightarrow> pdcm_status" where
  "checkReferences r stored seen [] = SUCCESS"
| "checkReferences r stored seen (ref # refs) =
    (if rf_evidence_id ref \<in> seen then INVALID_ARGUMENT
     else if find (evidence_matches r ref) stored = None then NOT_FOUND
     else checkReferences r stored (insert (rf_evidence_id ref) seen) refs)"

definition health_draft :: "health_state \<Rightarrow> stable_health_code \<Rightarrow> health_result \<Rightarrow> event_draft" where
  "health_draft previous_state previous_code r =
     default_draft\<lparr>dr_type := ET_FirmwareHeartbeatHealthChanged,
       dr_severity := healthSeverity (hr_state r), dr_entity := Some (hr_entity r),
       dr_health_subsystem := Some (hr_subsystem_id r),
       dr_occurrence_time_ns := hr_evaluated_monotonic_time_ns r,
       dr_catalog_generation := hr_catalog_generation r,
       dr_payload := P_HealthChange
         \<lparr>hp_previous_state = previous_state, hp_state = hr_state r,
          hp_previous_code = previous_code, hp_code = hr_code r, hp_evidence = hr_evidence r,
          hp_evidence_age_ns = hr_evidence_age_ns r\<rparr>\<rparr>"

definition commitHealth :: "health_result \<Rightarrow> data_manager \<Rightarrow> health_commit_result \<times> data_manager" where
  "commitHealth r m =
    (let fail = (\<lambda>st. (\<lparr>hcr_status = st, hcr_commit_epoch = 0, hcr_state_changed = False\<rparr>, m));
         l = dm_limits m; cat = dm_catalog m;
         refs = checkReferences r (dm_heartbeat_evidence m) {} (hr_evidence r);
         current = map_of (dm_health m) (hr_entity r);
         health_bytes = healthResultBytes r +
           sum_list (map (\<lambda>(e, x). if e \<noteq> hr_entity r then healthResultBytes x else 0) (dm_health m))
     in if \<not> ok (validateHealthResult r) then fail (validateHealthResult r)
        else if length (hr_evidence r) > dl_max_health_evidence_refs l \<or>
           healthResultBytes r > dl_max_health_result_bytes l
        then fail RESOURCE_EXHAUSTED
        else if cst_generation cat = 0 then fail NOT_INITIALIZED
        else if hr_catalog_generation r \<noteq> cst_generation cat \<or> hr_entity r \<notin> set (cst_entities cat)
        then fail STALE_GENERATION
        else if cst_heartbeat cat = None then fail UNSUPPORTED
        else if \<not> ok refs then fail refs
        else if current = None \<and> length (dm_health m) \<ge> dl_max_health_entries l
        then fail RESOURCE_EXHAUSTED
        else if health_bytes > dl_max_health_bytes l then fail RESOURCE_EXHAUSTED
        else if dm_commit_epoch m = u64_max then fail INTERNAL
        else
         let previous_state = (case current of None \<Rightarrow> HS_Unknown | Some x \<Rightarrow> hr_state x);
             previous_code = (case current of None \<Rightarrow> HC_HeartbeatMissing | Some x \<Rightarrow> hr_code x);
             changed = (case current of
                          None \<Rightarrow> isDeterminateHealth (hr_state r)
                        | Some x \<Rightarrow> \<not> sameHealthState x r);
             epoch = dm_commit_epoch m + 1
         in (\<lparr>hcr_status = SUCCESS, hcr_commit_epoch = epoch, hcr_state_changed = changed\<rparr>,
             m\<lparr>dm_commit_epoch := epoch, dm_health := omap_put (hr_entity r) r (dm_health m),
               dm_event_store :=
                 (if changed
                  then snd (EventStore_publish (health_draft previous_state previous_code r)
                              (dm_event_store m))
                  else dm_event_store m)\<rparr>))"

record health_read_result =
  hrr_status :: pdcm_status
  hrr_observed_commit_epoch :: u64
  hrr_result :: "health_result option"

definition readHealth :: "entity_ref \<Rightarrow> u64 \<Rightarrow> data_manager \<Rightarrow> health_read_result" where
  "readHealth entity required m =
    (let result = (\<lambda>st r. \<lparr>hrr_status = st, hrr_observed_commit_epoch = dm_commit_epoch m,
                           hrr_result = r\<rparr>);
         st = entity_query_status entity required m
     in if st \<noteq> SUCCESS then result st None
        else
         case map_of (dm_health m) entity of
           None \<Rightarrow> result NOT_FOUND None
         | Some r \<Rightarrow> result SUCCESS (Some r))"

definition heartbeatCatalog :: "data_manager \<Rightarrow> (health_catalog_entry \<times> bool) option" where
  "heartbeatCatalog m =
     map_option (\<lambda>h. (h, cst_heartbeat_supported (dm_catalog m))) (cst_heartbeat (dm_catalog m))"

section \<open>Operations as labels\<close>

datatype dm_op =
    DM_activateCatalog "catalog_view option" target_catalog
  | DM_commit "observation list"
  | DM_commitHeartbeatEvidence heartbeat_evidence
  | DM_commitHealth health_result
  | DM_publishEvent event_draft

fun dm_step :: "dm_op \<Rightarrow> data_manager \<Rightarrow> data_manager" where
  "dm_step (DM_activateCatalog v tc) m = snd (DataManager_activateCatalog v tc m)"
| "dm_step (DM_commit os) m = snd (DataManager_commit os m)"
| "dm_step (DM_commitHeartbeatEvidence e) m = snd (commitHeartbeatEvidence e m)"
| "dm_step (DM_commitHealth r) m = snd (commitHealth r m)"
| "dm_step (DM_publishEvent d) m = snd (publishEvent d m)"

end
