(* ===== verification/DataStore_Commit.thy ===== *)
theory DataStore_Commit
  imports DataStore
begin

text \<open>
  Results on the observation store of \<open>DataStore\<close>: the shards implement a map from keys to
  entries, a commit is atomic and keeps the limits and the invariant of every entry, what was
  committed is what is read, and stale reads are well-formed observations.
\<close>

section \<open>The shards as a map\<close>

definition shards_ok :: "shard list \<Rightarrow> bool" where
  "shards_ok shards \<longleftrightarrow>
     shards \<noteq> [] \<and>
     (\<forall>i < length shards. omap_ok (shards ! i) \<and>
        (\<forall>k \<in> fst ` set (shards ! i). shardIndex (length shards) k = i))"

lemma shardIndex_less [simp]: "0 < n \<Longrightarrow> shardIndex n k < n"
  using pos_mod_bound [of "int n"] by (simp add: shardIndex_def nat_less_iff)

lemma length_put_shards [simp]: "length (put_shards k e shards) = length shards"
  by (simp add: put_shards_def Let_def)

lemma shards_okD:
  "shards_ok shards \<Longrightarrow> i < length shards \<Longrightarrow> p \<in> set (shards ! i) \<Longrightarrow> shardIndex (length shards) (fst p) = i"
  by (simp add: shards_ok_def)

lemma put_shards_ok [simp]:
  assumes "shards_ok shards"
  shows "shards_ok (put_shards k e shards)"
proof -
  let ?i = "shardIndex (length shards) k"
  have i: "?i < length shards" using assms by (simp add: shards_ok_def)
  have "shardIndex (length shards) (fst p) = ?i" if "p \<in> set (omap_put k e (shards ! ?i))" for p
    using set_omap_put [THEN subsetD, OF that] shards_okD [OF assms i] by (cases p) auto
  with assms show ?thesis
    by (simp add: shards_ok_def put_shards_def Let_def nth_list_update)
qed

lemma lookup_put_shards:
  assumes "shards_ok shards"
  shows "lookup_shards (put_shards k e shards) k' = (if k' = k then Some e else lookup_shards shards k')"
  using assms
  by (auto simp: lookup_shards_def put_shards_def Let_def shards_ok_def nth_list_update map_of_omap_put)

lemma put_shards_same:
  assumes "shards_ok shards" "lookup_shards shards k = Some e"
  shows "put_shards k e shards = shards"
  using assms by (auto simp: lookup_shards_def put_shards_def Let_def shards_ok_def)

lemma sum_list_omap_put:
  fixes f :: "'v \<Rightarrow> nat"
  assumes "omap_ok m" "map_of m k = Some v"
  shows "sum_list (map (f \<circ> snd) (omap_put k w m)) + f v = sum_list (map (f \<circ> snd) m) + f w"
  using assms
proof (induction m)
  case (Cons p m)
  then have "omap_ok m" and gt: "\<forall>x\<in>set (map fst m). fst p < x"
    by (auto simp: omap_ok_def)
  show ?case
  proof (cases "fst p = k")
    case True
    with Cons.prems show ?thesis by (cases p) auto
  next
    case False
    then have "map_of m k = Some v" using Cons.prems by (cases p) auto
    moreover from this have "fst p < k" using gt by (force dest: map_of_SomeD)
    ultimately show ?thesis using Cons.IH \<open>omap_ok m\<close> by simp
  qed
qed simp

lemma sum_list_update_add:
  fixes f :: "'a \<Rightarrow> nat"
  assumes "i < length xs" "f y + c = f (xs ! i) + d"
  shows "sum_list (map f (xs[i := y])) + c = sum_list (map f xs) + d"
proof -
  have "xs = take i xs @ xs ! i # drop (Suc i) xs"
    by (rule id_take_nth_drop [OF assms(1)])
  then have "sum_list (map f xs) = sum_list (map f (take i xs)) + (f (xs ! i) + sum_list (map f (drop (Suc i) xs)))"
    by (metis map_append list.map(2) sum_list.append sum_list.Cons)
  then show ?thesis
    using assms by (simp add: upd_conv_take_nth_drop)
qed

lemma shards_bytes_put:
  assumes "shards_ok shards" "lookup_shards shards k = Some e"
  shows "shards_bytes (put_shards k e' shards) + entryBytes e = shards_bytes shards + entryBytes e'"
  using assms unfolding shards_bytes_def put_shards_def Let_def
  by (intro sum_list_update_add)
    (auto simp: shards_ok_def lookup_shards_def intro!: sum_list_omap_put)

lemma shards_keys_put:
  assumes "shards_ok shards" "lookup_shards shards k = Some e"
  shows "shards_keys (put_shards k e' shards) = shards_keys shards"
  using assms sum_list_update_add
    [of "shardIndex (length shards) k" shards length
      "omap_put k e' (shards ! shardIndex (length shards) k)" 0 0]
  by (simp add: shards_keys_def put_shards_def Let_def shards_ok_def lookup_shards_def length_omap_put)

lemma map_at_omap_put:
  assumes "omap_ok m" "map_of m k = Some v"
  shows "map (\<lambda>(k', x). (k', if k' = k then f x else x)) m = omap_put k (f v) m"
  using assms
proof (induction m)
  case (Cons p m)
  then have "omap_ok m" and gt: "\<forall>x\<in>set (map fst m). fst p < x"
    by (auto simp: omap_ok_def)
  show ?case
  proof (cases "fst p = k")
    case True
    then have "map (\<lambda>(k', x). (k', if k' = k then f x else x)) m = m"
      using gt by (intro map_idI) (auto split: prod.splits)
    with True Cons.prems show ?thesis by (cases p) auto
  next
    case False
    then have "map_of m k = Some v" using Cons.prems by (cases p) auto
    moreover from this have "fst p < k" using gt by (force dest: map_of_SomeD)
    ultimately show ?thesis using Cons.IH \<open>omap_ok m\<close> by (cases p) auto
  qed
qed simp

lemma pop_history_put:
  assumes "shards_ok shards" "(i, k, e) \<in> set (staged_pairs shards)"
  shows "lookup_shards shards k = Some e"
    and "pop_history i k shards = put_shards k (e\<lparr>dt_history := tl (dt_history e)\<rparr>) shards"
proof -
  have i: "i < length shards" "(k, e) \<in> set (shards ! i)"
    using staged_pairsD [OF assms(2)] by auto
  with assms(1) have ok: "omap_ok (shards ! i)" "shardIndex (length shards) k = i"
    by (force simp: shards_ok_def)+
  then have lookup: "map_of (shards ! i) k = Some e"
    using i(2) by (simp add: omap_ok_distinct)
  then show "lookup_shards shards k = Some e"
    by (simp add: lookup_shards_def ok)
  show "pop_history i k shards = put_shards k (e\<lparr>dt_history := tl (dt_history e)\<rparr>) shards"
    using map_at_omap_put [OF ok(1) lookup, of "\<lambda>e. e\<lparr>dt_history := tl (dt_history e)\<rparr>"]
    by (simp add: pop_history_def put_shards_def Let_def ok)
qed

section \<open>Eviction of histories\<close>

text \<open>An entry after eviction: the same latest and last valid values, a suffix of the history.\<close>

definition entry_trim :: "data_entry \<Rightarrow> data_entry \<Rightarrow> bool" where
  "entry_trim e' e \<longleftrightarrow>
     dt_latest e' = dt_latest e \<and> dt_last_valid e' = dt_last_valid e \<and>
     suffix (dt_history e') (dt_history e)"

definition shards_trim :: "shard list \<Rightarrow> shard list \<Rightarrow> bool" where
  "shards_trim s' s \<longleftrightarrow>
     shards_ok s' \<and> length s' = length s \<and> shards_keys s' = shards_keys s \<and>
     (\<forall>k. rel_option entry_trim (lookup_shards s' k) (lookup_shards s k))"

lemma entry_trim_refl [simp]: "entry_trim e e"
  by (simp add: entry_trim_def)

lemma shards_trim_refl: "shards_ok s \<Longrightarrow> shards_trim s s"
  by (simp add: shards_trim_def option.rel_refl)

lemma entry_trim_trans: "entry_trim a b \<Longrightarrow> entry_trim b c \<Longrightarrow> entry_trim a c"
  by (auto simp: entry_trim_def intro: suffix_order.trans)

lemma shards_trim_trans:
  assumes "shards_trim a b" "shards_trim b c"
  shows "shards_trim a c"
proof -
  have "rel_option entry_trim (lookup_shards a k) (lookup_shards c k)" for k
  proof -
    have "rel_option entry_trim (lookup_shards a k) (lookup_shards b k)"
      "rel_option entry_trim (lookup_shards b k) (lookup_shards c k)"
      using assms by (simp_all add: shards_trim_def)
    then show ?thesis
      by (auto simp: option_rel_Some1 option_rel_Some2 elim!: option.rel_cases intro: entry_trim_trans)
  qed
  with assms show ?thesis by (simp add: shards_trim_def)
qed

lemma pop_history_trim:
  assumes "shards_ok shards" "oldest_history (staged_pairs shards) t None = Some (i, k, e)"
  shows "shards_trim (pop_history i k shards) shards"
    and "shards_bytes (pop_history i k shards) = szsub (shards_bytes shards) (observationBytes (hd (dt_history e)))"
proof -
  have e: "(i, k, e) \<in> set (staged_pairs shards)" "dt_history e \<noteq> []"
    using oldest_history_Some [OF assms(2)] by auto
  note pop = pop_history_put [OF assms(1) e(1)]
  let ?e = "e\<lparr>dt_history := tl (dt_history e)\<rparr>"
  have "entry_trim ?e e" by (simp add: entry_trim_def suffix_tl)
  then show "shards_trim (pop_history i k shards) shards"
    using assms(1) pop shards_keys_put [OF assms(1) pop(1)]
    by (auto simp: shards_trim_def lookup_put_shards intro: option.rel_refl)
  have "entryBytes e = entryBytes ?e + observationBytes (hd (dt_history e))"
    using e(2) by (cases "dt_history e") (auto simp: entryBytes_def)
  with shards_bytes_put [OF assms(1) pop(1), of ?e]
  show "shards_bytes (pop_history i k shards) = szsub (shards_bytes shards) (observationBytes (hd (dt_history e)))"
    by (simp add: pop)
qed

lemma evictHistory_trim:
  assumes "shards_ok s" "evictHistory l s (shards_bytes s) = (s', bytes)"
  shows "shards_trim s' s" and "bytes = shards_bytes s'"
proof -
  have "shards_trim s' s \<and> bytes = shards_bytes s'" if "b = shards_bytes s" "evictHistory l s b = (s', bytes)" for b
    using assms(1) that
  proof (induction l s b rule: evictHistory.induct)
    case (1 l s b)
    show ?case
    proof (cases "oldest_history (staged_pairs s) i64_max None")
      case None
      with "1.prems" show ?thesis
        by (auto simp: evictHistory.simps [of l s "shards_bytes s"] shards_trim_refl split: if_splits)
    next
      case (Some p)
      obtain i k e where p: "p = (i, k, e)" by (cases p) auto
      note pop = pop_history_trim [OF "1.prems"(1) Some [unfolded p]]
      show ?thesis
      proof (cases "b > dl_max_total_bytes l")
        case True
        have "shards_trim s' (pop_history i k s) \<and> bytes = shards_bytes s'"
          using pop "1.prems" True Some p
          by (intro "1.IH" [OF True Some p [symmetric] refl])
            (auto simp: evictHistory.simps [of l s "shards_bytes s"] shards_trim_def)
        with pop(1) show ?thesis by (blast intro: shards_trim_trans)
      next
        case False
        with "1.prems" show ?thesis
          by (auto simp: evictHistory.simps [of l s "shards_bytes s"] shards_trim_refl)
      qed
    qed
  qed
  with assms(2) show "shards_trim s' s" "bytes = shards_bytes s'" by blast+
qed

section \<open>Entries\<close>

abbreviation obs_time :: "observation \<Rightarrow> i64" where
  "obs_time \<equiv> obs_observed_monotonic_time_ns"

text \<open>An observation stored under the key \<open>k\<close> in catalog generation \<open>g\<close>, by a commit up to \<open>epoch\<close>.\<close>

definition obs_stored :: "u64 \<Rightarrow> u64 \<Rightarrow> data_key \<Rightarrow> observation \<Rightarrow> bool" where
  "obs_stored g epoch k o' \<longleftrightarrow>
     validateObservation o' = SUCCESS \<and> obs_status o' \<noteq> OS_Stale \<and> obs_catalog_generation o' = g \<and>
     obs_key o' = k \<and> obs_commit_epoch o' \<noteq> 0 \<and> obs_commit_epoch o' \<le> epoch"

definition history_ok_for :: "data_store_limits \<Rightarrow> observation option \<Rightarrow> observation list \<Rightarrow> bool" where
  "history_ok_for l last_valid h \<longleftrightarrow>
     sorted_wrt (\<lambda>x y. obs_time x \<le> obs_time y) h \<and>
     length h \<le> dl_max_history_samples_per_key l \<and>
     (\<forall>x \<in> set h. obs_status x = OS_Valid \<and>
        (\<exists>v. last_valid = Some v \<and> obs_time x \<le> obs_time v \<and>
             obs_time v - obs_time x \<le> dl_max_history_duration_ns l))"

definition entry_ok :: "data_store_limits \<Rightarrow> u64 \<Rightarrow> u64 \<Rightarrow> data_key \<Rightarrow> data_entry \<Rightarrow> bool" where
  "entry_ok l g epoch k e \<longleftrightarrow>
     (\<exists>latest. dt_latest e = Some latest \<and> obs_stored g epoch k latest \<and>
        (obs_status latest = OS_Valid \<longrightarrow> dt_last_valid e = Some latest) \<and>
        (\<forall>v. dt_last_valid e = Some v \<longrightarrow>
           obs_stored g epoch k v \<and> obs_status v = OS_Valid \<and> obs_time v \<le> obs_time latest)) \<and>
     (\<forall>x \<in> set (dt_history e). obs_stored g epoch k x) \<and>
     history_ok_for l (dt_last_valid e) (dt_history e)"

lemma suffix_pushHistory: "suffix (pushHistory l o' h) (h @ [o'])"
  unfolding pushHistory_def push_bounded_def Let_def
  by (rule suffix_order.trans [OF suffix_dropWhile suffix_drop])

lemma dropWhile_sorted_all:
  assumes "sorted_wrt (\<lambda>x y. obs_time x \<le> obs_time y) xs" "y \<in> set (dropWhile (\<lambda>x. t - obs_time x > d) xs)"
  shows "t - obs_time y \<le> d"
  using assms by (induction xs) (auto split: if_splits)

lemma pushHistory_ok:
  assumes "history_ok_for l v h" "obs_status o' = OS_Valid"
    and "ok (DataStoreLimits_validate l)"
    and "\<And>x. v = Some x \<Longrightarrow> obs_time x \<le> obs_time o'"
  shows "history_ok_for l (Some o') (pushHistory l o' h)"
proof -
  have le: "obs_time x \<le> obs_time o'" if "x \<in> set h" for x
    using assms(1,4) that by (force simp: history_ok_for_def)
  then have sorted: "sorted_wrt (\<lambda>x y. obs_time x \<le> obs_time y) (h @ [o'])"
    using assms(1) by (auto simp: history_ok_for_def sorted_wrt_append)
  let ?b = "push_bounded (dl_max_history_samples_per_key l) o' h"
  have b: "suffix ?b (h @ [o'])" "length ?b \<le> dl_max_history_samples_per_key l"
    by (auto simp: push_bounded_def Let_def suffix_drop)
  have "length (pushHistory l o' h) \<le> length ?b"
    by (simp add: pushHistory_def length_dropWhile_le)
  moreover have "obs_time o' - obs_time x \<le> dl_max_history_duration_ns l"
    if "x \<in> set (pushHistory l o' h)" for x
    using dropWhile_sorted_all [OF sorted_wrt_suffix [OF sorted b(1)]] that by (simp add: pushHistory_def)
  moreover have "x \<in> set h \<or> x = o'" if "x \<in> set (pushHistory l o' h)" for x
    using set_mono_suffix [OF suffix_pushHistory, of l o' h] that by auto
  ultimately show ?thesis
    using b(2) le assms(1,2) sorted_wrt_suffix [OF sorted suffix_pushHistory]
    by (fastforce simp: history_ok_for_def)
qed

lemma stageEntry_ok:
  assumes e: "e = default_entry \<or> entry_ok l g epoch k e"
    and o': "obs_stored g epoch' k o'" and ep: "epoch \<le> epoch'"
    and time: "\<And>x. dt_latest e = Some x \<Longrightarrow> obs_time x \<le> obs_time o'"
    and lim: "ok (DataStoreLimits_validate l)"
  shows "entry_ok l g epoch' k (stageEntry l o' e)"
proof -
  have st: "obs_stored g epoch' k x" if "obs_stored g epoch k x" for x
    using that ep by (auto simp: obs_stored_def)
  have hist: "\<forall>x \<in> set (dt_history e). obs_stored g epoch' k x" "history_ok_for l (dt_last_valid e) (dt_history e)"
    using e st by (auto simp: entry_ok_def default_entry_def history_ok_for_def)
  have v: "obs_stored g epoch' k v \<and> obs_status v = OS_Valid \<and> obs_time v \<le> obs_time o'"
    if "dt_last_valid e = Some v" for v
    using e time st that by (force simp: entry_ok_def default_entry_def)
  show ?thesis
  proof (cases "obs_status o' = OS_Valid")
    case True
    have "history_ok_for l (Some o') (pushHistory l o' (dt_history e))"
      by (rule pushHistory_ok [OF hist(2) True lim]) (use v in auto)
    moreover have "\<forall>x \<in> set (pushHistory l o' (dt_history e)). obs_stored g epoch' k x"
      using set_mono_suffix [OF suffix_pushHistory, of l o' "dt_history e"] hist(1) o' by auto
    ultimately show ?thesis
      using True o' by (simp add: entry_ok_def stageEntry_def)
  next
    case False
    then show ?thesis
      using o' v hist by (auto simp: entry_ok_def stageEntry_def)
  qed
qed

lemma entry_ok_mono:
  assumes "entry_ok l g epoch k e" "epoch \<le> epoch'"
  shows "entry_ok l g epoch' k e"
proof -
  have "obs_stored g epoch k x \<Longrightarrow> obs_stored g epoch' k x" for x
    using assms(2) by (auto simp: obs_stored_def)
  with assms(1) show ?thesis by (auto simp: entry_ok_def)
qed

lemma history_ok_for_suffix: "history_ok_for l v h \<Longrightarrow> suffix h' h \<Longrightarrow> history_ok_for l v h'"
  using sorted_wrt_suffix set_mono_suffix [of h' h] suffix_length_le [of h' h]
  by (auto simp: history_ok_for_def)

lemma entry_ok_trim:
  assumes "entry_ok l g epoch k e" "entry_trim e' e"
  shows "entry_ok l g epoch k e'"
  using assms set_mono_suffix [of "dt_history e'" "dt_history e"]
    history_ok_for_suffix [of l "dt_last_valid e" "dt_history e" "dt_history e'"]
  by (auto simp: entry_ok_def entry_trim_def)

section \<open>The loops of commit\<close>

text \<open>What the first loop establishes of every observation of an accepted batch.\<close>

definition batch_item_ok :: "catalog_state \<Rightarrow> observation \<Rightarrow> bool" where
  "batch_item_ok cat o' \<longleftrightarrow>
     obs_status o' \<noteq> OS_Stale \<and> obs_catalog_generation o' = cst_generation cat \<and>
     obs_entity o' \<in> set (cst_entities cat) \<and> validateObservation o' = SUCCESS \<and>
     map_of (cst_metrics cat) (obs_metric o') \<noteq> None"

lemma validateBatch_SUCCESS:
  assumes "validateBatch l cat seen os = SUCCESS"
  shows "distinct (map obs_key os) \<and> (\<forall>o' \<in> set os. batch_item_ok cat o' \<and> obs_key o' \<notin> seen)"
  using assms
proof (induction os arbitrary: seen)
  case (Cons o' os)
  obtain d where d: "map_of (cst_metrics cat) (obs_metric o') = Some d"
    using Cons.prems by (auto split: if_splits option.splits)
  then have "batch_item_ok cat o' \<and> obs_key o' \<notin> seen"
    and "validateBatch l cat (insert (obs_key o') seen) os = SUCCESS"
    using Cons.prems by (simp_all add: batch_item_ok_def ok_def split: if_splits)
  from this(1) Cons.IH [OF this(2)] show ?case by fastforce
qed simp

lemma validateBatch_status:
  "validateBatch l cat seen os \<in> {SUCCESS, INVALID_ARGUMENT, STALE_GENERATION, UNSUPPORTED}"
  by (induction l cat seen os rule: validateBatch.induct) (auto split: option.splits)

definition entry_at :: "shard list \<Rightarrow> data_key \<Rightarrow> data_entry" where
  "entry_at s k = (case lookup_shards s k of None \<Rightarrow> default_entry | Some e \<Rightarrow> e)"

text \<open>
  The effect of staging a batch: the entries of its keys are staged, all others are as before,
  and no observation is older than the latest of its entry.
\<close>

definition staged_by :: "data_store_limits \<Rightarrow> u64 \<Rightarrow> observation list \<Rightarrow> shard list \<Rightarrow> shard list \<Rightarrow> bool" where
  "staged_by l epoch os s s' \<longleftrightarrow>
     shards_ok s' \<and> length s' = length s \<and>
     (\<forall>k. k \<notin> obs_key ` set os \<longrightarrow> lookup_shards s' k = lookup_shards s k) \<and>
     (\<forall>o' \<in> set os. lookup_shards s' (obs_key o') =
        Some (stageEntry l (o'\<lparr>obs_commit_epoch := epoch\<rparr>) (entry_at s (obs_key o')))) \<and>
     (\<forall>o' \<in> set os. \<forall>x. dt_latest (entry_at s (obs_key o')) = Some x \<longrightarrow> obs_time x \<le> obs_time o')"

lemma obs_key_epoch [simp]: "obs_key (o'\<lparr>obs_commit_epoch := n\<rparr>) = obs_key o'"
  by (simp add: obs_key_def)

lemma validateObservation_epoch [simp]:
  "validateObservation (o'\<lparr>obs_commit_epoch := n\<rparr>) = SUCCESS \<longleftrightarrow> validateObservation o' = SUCCESS"
  by (simp add: validateObservation_SUCCESS_iff obs_identity_ok_def obs_status_coherent_def
      obs_provenance_ok_def)

lemma staged_by_Cons:
  assumes ok: "shards_ok s" and fresh: "obs_key o' \<notin> obs_key ` set os"
    and time: "\<And>x. dt_latest (entry_at s (obs_key o')) = Some x \<Longrightarrow> obs_time x \<le> obs_time o'"
    and rest: "staged_by l epoch os
      (put_shards (obs_key o') (stageEntry l (o'\<lparr>obs_commit_epoch := epoch\<rparr>) (entry_at s (obs_key o'))) s) s'"
      (is "staged_by _ _ _ ?s _")
  shows "staged_by l epoch (o' # os) s s'"
proof -
  have at: "entry_at ?s k = entry_at s k" if "k \<noteq> obs_key o'" for k
    using ok that by (simp add: entry_at_def lookup_put_shards)
  have ne: "obs_key x \<noteq> obs_key o'" if "x \<in> set os" for x
    using fresh imageI [OF that, of obs_key] by auto
  have "lookup_shards s' (obs_key o') =
      Some (stageEntry l (o'\<lparr>obs_commit_epoch := epoch\<rparr>) (entry_at s (obs_key o')))"
    using rest fresh ok by (simp add: staged_by_def lookup_put_shards)
  then show ?thesis
    using rest ok time at ne by (auto simp: staged_by_def lookup_put_shards)
qed

lemma stageBatch_Some:
  assumes "stageBatch l epoch os s partial = Some (s', partial')" "shards_ok s" "distinct (map obs_key os)"
  shows "staged_by l epoch os s s' \<and> (partial' \<longleftrightarrow> partial \<or> (\<exists>o' \<in> set os. obs_status o' \<noteq> OS_Valid))"
  using assms
proof (induction os arbitrary: s partial)
  case (Cons o' os)
  let ?s = "put_shards (obs_key o') (stageEntry l (o'\<lparr>obs_commit_epoch := epoch\<rparr>) (entry_at s (obs_key o'))) s"
  have time: "dt_latest (entry_at s (obs_key o')) = Some x \<Longrightarrow> obs_time x \<le> obs_time o'" for x
    using Cons.prems(1) by (auto simp: Let_def entry_at_def split: if_splits)
  have rest: "stageBatch l epoch os ?s (partial \<or> obs_status o' \<noteq> OS_Valid) = Some (s', partial')"
    using Cons.prems(1) by (auto simp: Let_def entry_at_def split: if_splits)
  have d: "distinct (map obs_key os)" and fresh: "obs_key o' \<notin> obs_key ` set os"
    using Cons.prems(3) by auto
  have ok: "shards_ok ?s" using Cons.prems(2) by simp
  from Cons.IH [OF rest ok d] staged_by_Cons [OF Cons.prems(2) fresh time]
  show ?case by auto
qed (simp add: staged_by_def)

section \<open>Invariant\<close>

abbreviation dm_generation :: "data_manager \<Rightarrow> u64" where
  "dm_generation m \<equiv> cst_generation (dm_catalog m)"

definition data_inv :: "data_manager \<Rightarrow> bool" where
  "data_inv m \<longleftrightarrow>
     ok (DataStoreLimits_validate (dm_limits m)) \<and> shards_ok (dm_shards m) \<and>
     (\<forall>e \<in> set (cst_entities (dm_catalog m)). er_kind e = EK_Device \<and> er_generation e \<noteq> 0) \<and>
     (\<forall>k e. lookup_shards (dm_shards m) k = Some e \<longrightarrow>
        entry_ok (dm_limits m) (dm_generation m) (dm_commit_epoch m) k e \<and>
        dk_entity k \<in> set (cst_entities (dm_catalog m))) \<and>
     shards_keys (dm_shards m) \<le> dl_max_keys (dm_limits m) \<and>
     shards_bytes (dm_shards m) \<le> dl_max_total_bytes (dm_limits m)"

lemma data_invD:
  "data_inv m \<Longrightarrow> lookup_shards (dm_shards m) k = Some e \<Longrightarrow>
   entry_ok (dm_limits m) (dm_generation m) (dm_commit_epoch m) k e"
  by (simp add: data_inv_def)

text \<open>A commit either leaves the store as it was or stages the whole batch.\<close>

lemma data_commit_elim:
  assumes "shards_ok (dm_shards m)" "DataManager_commit os m = (r, m')"
  obtains
    (failed) "m' = m" "dcr_status r \<notin> {SUCCESS, PARTIAL_RESULT}" "dcr_commit_epoch r = 0"
  | (committed) staged where
      "os \<noteq> []" "distinct (map obs_key os)" "\<forall>o' \<in> set os. batch_item_ok (dm_catalog m) o'"
      "dm_generation m \<noteq> 0" "\<not> cst_topology_unsupported (dm_catalog m)"
      "dm_commit_epoch m \<noteq> u64_max"
      "staged_by (dm_limits m) (dm_commit_epoch m + 1) os (dm_shards m) staged"
      "shards_trim (dm_shards m') staged"
      "shards_keys (dm_shards m') \<le> dl_max_keys (dm_limits m)"
      "shards_bytes (dm_shards m') \<le> dl_max_total_bytes (dm_limits m)"
      "dcr_status r = (if \<exists>o' \<in> set os. obs_status o' \<noteq> OS_Valid then PARTIAL_RESULT else SUCCESS)"
      "dcr_commit_epoch r = dm_commit_epoch m + 1" "dcr_committed_items r = length os"
      "m' = m\<lparr>dm_shards := dm_shards m', dm_commit_epoch := dm_commit_epoch m + 1,
        dm_event_store := fold (\<lambda>o' s. snd (EventStore_publish (commit_draft (dm_commit_epoch m + 1) o') s))
          os (dm_event_store m)\<rparr>"
proof (cases "dcr_status r \<in> {SUCCESS, PARTIAL_RESULT}")
  case False
  moreover from this have "m' = m \<and> dcr_commit_epoch r = 0"
    using assms(2) validateBatch_status [of "dm_limits m" "dm_catalog m" "{}" os]
    by (auto simp: DataManager_commit_def Let_def split: if_splits option.splits prod.splits)
  ultimately show ?thesis using failed by blast
next
  case True
  let ?l = "dm_limits m" and ?n = "dm_commit_epoch m + 1"
  have cond: "os \<noteq> []" "dm_generation m \<noteq> 0" "\<not> cst_topology_unsupported (dm_catalog m)"
      "dm_commit_epoch m \<noteq> u64_max"
    and batch: "validateBatch ?l (dm_catalog m) {} os = SUCCESS"
    using True assms(2) validateBatch_status [of ?l "dm_catalog m" "{}" os]
    by (auto simp: DataManager_commit_def Let_def ok_def split: if_splits)
  obtain staged partial where stage: "stageBatch ?l ?n os (dm_shards m) False = Some (staged, partial)"
    using True assms(2) cond batch
    by (auto simp: DataManager_commit_def Let_def ok_def split: option.splits)
  obtain kept bytes where evict: "evictHistory ?l staged (shards_bytes staged) = (kept, bytes)"
    by fastforce
  note d = validateBatch_SUCCESS [OF batch]
  have staged: "staged_by ?l ?n os (dm_shards m) staged"
    and partial: "partial \<longleftrightarrow> (\<exists>o' \<in> set os. obs_status o' \<noteq> OS_Valid)"
    using stageBatch_Some [OF stage assms(1)] d by auto
  have ok: "shards_ok staged" using staged by (simp add: staged_by_def)
  have keys: "shards_keys staged \<le> dl_max_keys ?l" and bytes: "bytes \<le> dl_max_total_bytes ?l"
    and r: "r = \<lparr>dcr_status = (if partial then PARTIAL_RESULT else SUCCESS), dcr_commit_epoch = ?n,
                dcr_committed_items = length os\<rparr>"
    and m': "m' = m\<lparr>dm_shards := kept, dm_commit_epoch := ?n,
        dm_event_store := fold (\<lambda>o' s. snd (EventStore_publish (commit_draft ?n o') s)) os (dm_event_store m)\<rparr>"
    using True assms(2) cond batch stage evict
    by (auto simp: DataManager_commit_def Let_def ok_def split: if_splits)
  note trim = evictHistory_trim [OF ok evict]
  have "shards_keys kept = shards_keys staged" using trim(1) by (simp add: shards_trim_def)
  then show ?thesis
    by (intro committed [of staged]) (use cond d staged trim keys bytes partial in \<open>simp_all add: r m'\<close>)
qed

lemma data_inv_commit:
  assumes inv: "data_inv m" and eq: "DataManager_commit os m = (r, m')"
  shows "data_inv m'"
proof -
  have ok: "shards_ok (dm_shards m)" using inv by (simp add: data_inv_def)
  show ?thesis
    using ok eq
  proof (cases rule: data_commit_elim)
    case failed
    then show ?thesis using inv by simp
  next
    case (committed staged)
    let ?l = "dm_limits m" and ?g = "dm_generation m" and ?n = "dm_commit_epoch m + 1"
    have lim: "ok (DataStoreLimits_validate ?l)" using inv by (simp add: data_inv_def)
    have le: "dm_commit_epoch m \<le> ?n" by (rule less_imp_le [OF less_inc [OF committed(6)]])
    have n: "?n \<noteq> 0" by (rule inc_nonzero [OF committed(6)])
    have entry: "entry_ok ?l ?g ?n k e \<and> dk_entity k \<in> set (cst_entities (dm_catalog m))"
      if k: "lookup_shards staged k = Some e" for k e
    proof (cases "k \<in> obs_key ` set os")
      case False
      then have "lookup_shards (dm_shards m) k = Some e"
        using committed(7) k by (simp add: staged_by_def)
      with inv show ?thesis by (auto simp: data_inv_def intro: entry_ok_mono [OF _ le])
    next
      case True
      then obtain o' where o': "o' \<in> set os" "k = obs_key o'" by blast
      then have e: "e = stageEntry ?l (o'\<lparr>obs_commit_epoch := ?n\<rparr>) (entry_at (dm_shards m) k)"
        using committed(7) k by (auto simp: staged_by_def)
      have item: "batch_item_ok (dm_catalog m) o'" using committed(3) o' by blast
      have "entry_ok ?l ?g ?n k e"
        unfolding e
      proof (rule stageEntry_ok [OF _ _ le _ lim])
        show "entry_at (dm_shards m) k = default_entry \<or>
          entry_ok ?l ?g (dm_commit_epoch m) k (entry_at (dm_shards m) k)"
          using inv by (auto simp: entry_at_def data_inv_def split: option.splits)
        show "obs_stored ?g ?n k (o'\<lparr>obs_commit_epoch := ?n\<rparr>)"
          using item n o'(2)
          by (simp add: obs_stored_def batch_item_ok_def)
      next
        fix x assume "dt_latest (entry_at (dm_shards m) k) = Some x"
        then show "obs_time x \<le> obs_time (o'\<lparr>obs_commit_epoch := ?n\<rparr>)"
          using committed(7) o' by (simp add: staged_by_def)
      qed
      with item o' show ?thesis by (simp add: batch_item_ok_def obs_key_def)
    qed
    have "entry_ok ?l ?g ?n k e \<and> dk_entity k \<in> set (cst_entities (dm_catalog m))"
      if "lookup_shards (dm_shards m') k = Some e" for k e
    proof -
      have "rel_option entry_trim (Some e) (lookup_shards staged k)"
        using committed(8) that by (metis shards_trim_def)
      then obtain e0 where "lookup_shards staged k = Some e0" "entry_trim e e0"
        by (auto simp: option_rel_Some1)
      with entry show ?thesis by (blast intro: entry_ok_trim)
    qed
    moreover have "dm_limits m' = ?l" "dm_catalog m' = dm_catalog m" "dm_commit_epoch m' = ?n"
      by (subst committed(14), simp)+
    ultimately show ?thesis
      using lim inv committed(8-10) by (simp add: data_inv_def shards_trim_def)
  qed
qed

section \<open>The other operations\<close>

lemma data_inv_frame:
  assumes "data_inv m" "dm_shards m' = dm_shards m" "dm_limits m' = dm_limits m"
    "dm_catalog m' = dm_catalog m" "dm_commit_epoch m \<le> dm_commit_epoch m'"
  shows "data_inv m'"
  using assms by (auto simp: data_inv_def intro: entry_ok_mono)

lemma commitHeartbeatEvidence_frame:
  "dm_shards (snd (commitHeartbeatEvidence e m)) = dm_shards m"
  "dm_limits (snd (commitHeartbeatEvidence e m)) = dm_limits m"
  "dm_catalog (snd (commitHeartbeatEvidence e m)) = dm_catalog m"
  "dm_event_store (snd (commitHeartbeatEvidence e m)) = dm_event_store m"
  "dm_commit_epoch m \<le> dm_commit_epoch (snd (commitHeartbeatEvidence e m))"
  unfolding commitHeartbeatEvidence_def Let_def
  by (simp_all add: less_inc [THEN less_imp_le] split: option.split)

lemma commitHealth_frame:
  "dm_shards (snd (commitHealth r m)) = dm_shards m"
  "dm_limits (snd (commitHealth r m)) = dm_limits m"
  "dm_catalog (snd (commitHealth r m)) = dm_catalog m"
  "dm_commit_epoch m \<le> dm_commit_epoch (snd (commitHealth r m))"
  by (simp_all add: commitHealth_def Let_def less_inc [THEN less_imp_le])

lemma shards_ok_empty: "0 < n \<Longrightarrow> shards_ok (replicate n [])"
  by (simp add: shards_ok_def)

lemma lookup_empty: "0 < n \<Longrightarrow> lookup_shards (replicate n []) k = None"
  by (simp add: lookup_shards_def)

lemma data_inv_empty:
  assumes "ok (DataStoreLimits_validate l)" "0 < n"
    and "\<forall>e \<in> set (cst_entities cat). er_kind e = EK_Device \<and> er_generation e \<noteq> 0"
    and "dm_limits m = l" "dm_shards m = replicate n []" "dm_catalog m = cat"
  shows "data_inv m"
  using assms
  by (simp add: data_inv_def shards_ok_empty lookup_empty shards_keys_def shards_bytes_def sum_list_replicate)

text \<open>An activation changes nothing, or replaces the catalog and clears the stores.\<close>

lemma activate_elim:
  assumes "DataManager_activateCatalog v tc m = (st, m')"
  obtains (same) "m' = m"
  | (activated) w tombs where
      "v = Some w" "st = SUCCESS" "cv_generation w \<noteq> 0" "dm_generation m < cv_generation w"
      "TargetCatalog_validate tc = SUCCESS"
      "\<forall>e \<in> set (cv_entities w). er_kind (en_ref e) = EK_Device \<and> er_generation (en_ref e) \<noteq> 0"
      "m' = m\<lparr>dm_tombstones := tombs, dm_shards := map (\<lambda>_. []) (dm_shards m),
        dm_heartbeat_evidence := [], dm_latest_heartbeat := [], dm_health := [],
        dm_catalog := next_catalog_state w tc,
        dm_event_store := snd (EventStore_publish (default_draft\<lparr>dr_type := ET_CatalogChanged,
          dr_catalog_generation := cv_generation w\<rparr>) (dm_event_store m))\<rparr>"
proof (cases v)
  case None
  then show ?thesis using assms same by (simp add: DataManager_activateCatalog_def)
next
  case (Some w)
  let ?bad = "list_ex (\<lambda>e. en_target e \<noteq> tc_target tc \<or> er_kind (en_ref e) \<noteq> EK_Device \<or>
    er_generation (en_ref e) = 0) (cv_entities w)"
  show ?thesis
  proof (cases "cv_generation w \<noteq> 0 \<and> ok (TargetCatalog_validate tc) \<and> \<not> ?bad \<and> dm_generation m < cv_generation w")
    case True
    then have "\<not> cv_generation w < dm_generation m" "cv_generation w \<noteq> dm_generation m" by auto
    moreover have "\<forall>e \<in> set (cv_entities w). er_kind (en_ref e) = EK_Device \<and> er_generation (en_ref e) \<noteq> 0"
      using True by (auto simp: list_ex_iff)
    ultimately show ?thesis
      using assms True Some
      by (intro activated [of w "fold (\<lambda>old. push_bounded (dl_max_tombstones (dm_limits m)) (old, cv_generation w))
          (filter (\<lambda>old. old \<notin> set (map en_ref (cv_entities w))) (cst_entities (dm_catalog m)))
          (dm_tombstones m)"])
        (auto simp: DataManager_activateCatalog_def Let_def ok_def)
  next
    case False
    then have "m' = m"
      using assms Some
      by (auto simp: DataManager_activateCatalog_def word_neq_0_conv [symmetric] split: if_splits)
    then show ?thesis by (rule same)
  qed
qed

lemma data_inv_activate:
  assumes "data_inv m" "DataManager_activateCatalog v tc m = (st, m')"
  shows "data_inv m'"
  using assms(2)
proof (cases rule: activate_elim)
  case (activated w tombs)
  have n: "0 < length (dm_shards m)" and l: "ok (DataStoreLimits_validate (dm_limits m))"
    using assms(1) by (auto simp: data_inv_def shards_ok_def)
  have "\<forall>e \<in> set (cst_entities (next_catalog_state w tc)). er_kind e = EK_Device \<and> er_generation e \<noteq> 0"
    using activated(6) by (simp add: next_catalog_state_def Let_def)
  from data_inv_empty [OF l n this] show ?thesis
    by (simp add: activated(7) map_replicate_const)
qed (simp add: assms(1))

lemma data_inv_step: "data_inv m \<Longrightarrow> data_inv (dm_step op m)"
proof (cases op)
  case (DM_publishEvent d)
  assume "data_inv m"
  then show ?thesis
    by (rule data_inv_frame) (simp_all add: DM_publishEvent publishEvent_def split: prod.split)
next
  case (DM_commitHeartbeatEvidence e)
  assume "data_inv m"
  then show ?thesis
    by (rule data_inv_frame) (simp_all add: DM_commitHeartbeatEvidence commitHeartbeatEvidence_frame)
next
  case (DM_commitHealth r)
  assume "data_inv m"
  then show ?thesis
    by (rule data_inv_frame) (simp_all add: DM_commitHealth commitHealth_frame)
next
  case (DM_commit os)
  assume "data_inv m"
  then show ?thesis
    using data_inv_commit [of m os "fst (DataManager_commit os m)"] by (simp add: DM_commit)
next
  case (DM_activateCatalog v tc)
  assume "data_inv m"
  then show ?thesis
    using data_inv_activate [of m v tc "fst (DataManager_activateCatalog v tc m)"]
    by (simp add: DM_activateCatalog)
qed

lemma data_inv_start: "ok (DataStoreLimits_validate l) \<Longrightarrow> data_inv (data_manager_start l)"
  by (rule data_inv_empty [of l "dl_shard_count l" default_catalog_state])
    (auto simp: data_manager_start_def default_catalog_state_def DataStoreLimits_validate_def ok_def
      split: if_splits)

lemma commit_epoch_step:
  assumes "data_inv m"
  shows "dm_commit_epoch m \<le> dm_commit_epoch (dm_step op m)"
proof (cases op)
  case (DM_commit os)
  have "shards_ok (dm_shards m)" using assms by (simp add: data_inv_def)
  moreover have "DataManager_commit os m = (fst (DataManager_commit os m), dm_step op m)"
    by (simp add: DM_commit)
  ultimately show ?thesis
  proof (cases rule: data_commit_elim)
    case (committed staged)
    have "dm_commit_epoch (dm_step op m) = dm_commit_epoch m + 1"
      by (subst committed(14)) simp
    with committed(6) show ?thesis by (simp add: less_inc [THEN less_imp_le])
  qed simp
next
  case (DM_activateCatalog v tc)
  have "DataManager_activateCatalog v tc m = (fst (DataManager_activateCatalog v tc m), dm_step op m)"
    by (simp add: DM_activateCatalog)
  then show ?thesis by (cases rule: activate_elim) simp_all
qed (simp_all add: commitHeartbeatEvidence_frame commitHealth_frame publishEvent_def split: prod.split)

lemma dm_limits_step [simp]: "dm_limits (dm_step op m) = dm_limits m"
proof (cases op)
  case (DM_activateCatalog v tc)
  have "DataManager_activateCatalog v tc m = (fst (DataManager_activateCatalog v tc m), dm_step op m)"
    by (simp add: DM_activateCatalog)
  then show ?thesis by (cases rule: activate_elim) simp_all
next
  case (DM_commit os)
  then show ?thesis
    by (simp add: DataManager_commit_def Let_def split: option.split prod.split)
qed (simp_all add: commitHeartbeatEvidence_frame commitHealth_frame publishEvent_def split: prod.split)

interpretation dm: ranked_component "data_manager_start l" dm_step
  "\<lambda>m. dm_limits m = l \<and> (ok (DataStoreLimits_validate l) \<longrightarrow> data_inv m)"
  "\<lambda>m. if ok (DataStoreLimits_validate l) then dm_commit_epoch m else 0" for l
  by unfold_locales (auto simp: data_inv_step data_inv_start commit_epoch_step, simp add: data_manager_start_def)

section \<open>Reading\<close>

lemma stale_observation_ok:
  assumes "validateObservation v = SUCCESS" "obs_status v = OS_Valid"
    "\<not> status_ok (em_status err)" "0 \<le> age"
  shows "validateObservation (v\<lparr>obs_status := OS_Stale, obs_commit_epoch := n, obs_stale_age_ns := Some age,
    obs_latest_failure := Some err, obs_error := err\<rparr>) = SUCCESS"
  using assms
  by (auto simp: validateObservation_SUCCESS_iff obs_identity_ok_def obs_status_coherent_def
      obs_provenance_ok_def)

lemma readItem_ok:
  assumes inv: "data_inv m" and "dm_generation m \<noteq> 0" "dk_metric key \<noteq> 0" "0 \<le> now"
    and read: "readItem allow_stale now m key = Inr item"
  shows "validateObservation item = SUCCESS \<and> obs_key item = key \<and>
    obs_catalog_generation item = dm_generation m \<and> obs_commit_epoch item \<le> dm_commit_epoch m"
proof -
  have key: "dk_entity key \<in> set (cst_entities (dm_catalog m))"
    using read by (auto simp: readItem_def Let_def dest: find_Some_D split: option.splits if_splits)
  then have dev: "er_kind (dk_entity key) = EK_Device" "er_generation (dk_entity key) \<noteq> 0"
    using inv by (auto simp: data_inv_def)
  have una: "validateObservation (unavailable key v (dm_generation m) n now st os msg) = SUCCESS \<and>
      obs_key (unavailable key v (dm_generation m) n now st os msg) = key"
    if "st \<noteq> SUCCESS" "os \<noteq> OS_Valid" "os \<noteq> OS_Stale" for v n st os msg
    using that assms(2-4) dev
    by (cases key; cases os)
      (simp_all add: validateObservation_SUCCESS_iff unavailable_def default_observation_def
        obs_identity_ok_def obs_status_coherent_def obs_provenance_ok_def default_derivation_def
        default_error_def obs_key_def)
  show ?thesis
  proof (cases "\<exists>e latest. lookup_shards (dm_shards m) key = Some e \<and> dt_latest e = Some latest \<and>
      map_of (cst_metrics (dm_catalog m)) (dk_metric key) \<noteq> None")
    case False
    then have "\<exists>v st os msg. st \<noteq> SUCCESS \<and> os \<noteq> OS_Valid \<and> os \<noteq> OS_Stale \<and>
        item = unavailable key v (dm_generation m) (dm_commit_epoch m) now st os msg"
      using read by (auto simp: readItem_def Let_def split: option.splits if_splits)
    then show ?thesis using una by (auto simp: unavailable_def)
  next
    case True
    then obtain e latest where e: "lookup_shards (dm_shards m) key = Some e" "dt_latest e = Some latest"
      by blast
    then have ok: "entry_ok (dm_limits m) (dm_generation m) (dm_commit_epoch m) key e"
      using inv by (simp add: data_inv_def)
    have item: "item = latest \<or> (\<exists>v. obs_status latest \<noteq> OS_Valid \<and> dt_last_valid e = Some v \<and> obs_time v \<le> now \<and>
        item = v\<lparr>obs_status := OS_Stale, obs_commit_epoch := obs_commit_epoch latest,
          obs_stale_age_ns := Some (now - obs_time v), obs_latest_failure := Some (obs_error latest),
          obs_error := obs_error latest\<rparr>)"
      using read True e by (auto simp: readItem_def Let_def split: option.splits if_splits)
    have latest: "obs_stored (dm_generation m) (dm_commit_epoch m) key latest"
      using ok e by (simp add: entry_ok_def)
    then have fail: "obs_status latest \<noteq> OS_Valid \<Longrightarrow> \<not> status_ok (em_status (obs_error latest))"
      by (auto simp: obs_stored_def validateObservation_SUCCESS_iff obs_status_coherent_def)
    have valid: "obs_stored (dm_generation m) (dm_commit_epoch m) key v \<and> obs_status v = OS_Valid"
      if "dt_last_valid e = Some v" for v
      using ok that by (auto simp: entry_ok_def)
    from item show ?thesis
    proof
      assume "item = latest"
      then show ?thesis using latest by (simp add: obs_stored_def)
    next
      assume "\<exists>v. obs_status latest \<noteq> OS_Valid \<and> dt_last_valid e = Some v \<and> obs_time v \<le> now \<and>
        item = v\<lparr>obs_status := OS_Stale, obs_commit_epoch := obs_commit_epoch latest,
          obs_stale_age_ns := Some (now - obs_time v), obs_latest_failure := Some (obs_error latest),
          obs_error := obs_error latest\<rparr>"
      then obtain v where v: "obs_status latest \<noteq> OS_Valid" "dt_last_valid e = Some v" "obs_time v \<le> now"
        "item = v\<lparr>obs_status := OS_Stale, obs_commit_epoch := obs_commit_epoch latest,
          obs_stale_age_ns := Some (now - obs_time v), obs_latest_failure := Some (obs_error latest),
          obs_error := obs_error latest\<rparr>" by blast
      with valid [OF v(2)] fail latest show ?thesis
        by (simp add: obs_stored_def stale_observation_ok) (simp add: obs_key_def)
    qed
  qed
qed

lemma readItems_Inr:
  "readItems a now m ks = Inr (items, partial) \<Longrightarrow>
   list_all2 (\<lambda>k item. readItem a now m k = Inr item) ks items \<and>
   (partial \<longleftrightarrow> (\<exists>item \<in> set items. obs_status item \<noteq> OS_Valid))"
  by (induction ks arbitrary: items partial) (auto split: sum.splits prod.splits)

lemma readItems_all:
  assumes "\<And>k. k \<in> set ks \<Longrightarrow> readItem a now m k = Inr (f k)"
  shows "readItems a now m ks = Inr (map f ks, \<exists>k \<in> set ks. obs_status (f k) \<noteq> OS_Valid)"
  using assms by (induction ks) auto

section \<open>Reading what was committed\<close>

lemma committed_latest:
  assumes "staged_by l epoch os s staged" "shards_trim kept staged" "o' \<in> set os"
  obtains e where "lookup_shards kept (obs_key o') = Some e"
    "dt_latest e = Some (o'\<lparr>obs_commit_epoch := epoch\<rparr>)"
proof -
  have "rel_option entry_trim (lookup_shards kept (obs_key o')) (lookup_shards staged (obs_key o'))"
    using assms(2) by (simp add: shards_trim_def)
  moreover have "lookup_shards staged (obs_key o') =
      Some (stageEntry l (o'\<lparr>obs_commit_epoch := epoch\<rparr>) (entry_at s (obs_key o')))"
    using assms(1,3) by (simp add: staged_by_def)
  ultimately show ?thesis
    using that by (auto simp: option_rel_Some2 entry_trim_def stageEntry_def Let_def split: if_splits)
qed

lemma sort_map_sort_key: "sort (map f xs) = map f (sort_key f xs)"
  by (rule properties_for_sort) simp_all

lemma commit_then_readItem:
  assumes inv: "data_inv m" and eq: "DataManager_commit os m = (r, m')"
    and "dcr_status r \<in> {SUCCESS, PARTIAL_RESULT}" "cst_entities (dm_catalog m) = [e]" "o' \<in> set os"
  shows "readItem False now m' (obs_key o') = Inr (o'\<lparr>obs_commit_epoch := dcr_commit_epoch r\<rparr>)"
proof -
  have ok: "shards_ok (dm_shards m)" using inv by (simp add: data_inv_def)
  show ?thesis
    using ok eq
  proof (cases rule: data_commit_elim)
    case failed
    then show ?thesis using assms(3) by simp
  next
    case (committed staged)
    have cat: "dm_catalog m' = dm_catalog m" by (subst committed(14)) simp
    obtain x where x: "lookup_shards (dm_shards m') (obs_key o') = Some x"
      "dt_latest x = Some (o'\<lparr>obs_commit_epoch := dm_commit_epoch m + 1\<rparr>)"
      by (rule committed_latest [OF committed(7,8) assms(5)])
    have "batch_item_ok (dm_catalog m) o'" using committed(3) assms(5) by blast
    then have "obs_entity o' = e" "map_of (cst_metrics (dm_catalog m)) (obs_metric o') \<noteq> None"
      using assms(4) by (auto simp: batch_item_ok_def)
    then show ?thesis
      using x committed(12) assms(4)
      by (auto simp: readItem_def Let_def cat obs_key_def sameLogicalEntity_def)
  qed
qed

lemma list_all2_set2: "list_all2 P xs ys \<Longrightarrow> y \<in> set ys \<Longrightarrow> \<exists>x \<in> set xs. P x y"
  by (induction rule: list_all2_induct) auto

lemma readItem_stale:
  assumes "data_inv m" "readItem allow_stale now m key = Inr item" "obs_status item = OS_Stale"
  shows "allow_stale \<and> obs_stale_age_ns item = Some (now - obs_time item) \<and> 0 \<le> now - obs_time item"
proof -
  have "obs_status x \<noteq> OS_Stale" if "lookup_shards (dm_shards m) key = Some e" "dt_latest e = Some x" for e x
    using data_invD [OF assms(1) that(1)] that(2) by (auto simp: entry_ok_def obs_stored_def)
  then show ?thesis
    using assms(2,3)
    by (auto simp: readItem_def Let_def unavailable_def split: option.splits if_splits)
qed

lemma readLatest_items:
  assumes "drr_status (readLatest keys allow_stale now required m) \<in> {SUCCESS, PARTIAL_RESULT}"
  shows "list_all2 (\<lambda>k item. readItem allow_stale now m k = Inr item) (sort keys)
      (drr_items (readLatest keys allow_stale now required m))"
    and "0 \<le> now" and "dm_generation m \<noteq> 0" and "distinct keys"
proof -
  have ne: "readItem allow_stale now m k \<noteq> Inl SUCCESS \<and> readItem allow_stale now m k \<noteq> Inl PARTIAL_RESULT" for k
    by (auto simp: readItem_def Let_def split: option.splits)
  then have nes: "readItems allow_stale now m ks \<noteq> Inl SUCCESS \<and> readItems allow_stale now m ks \<noteq> Inl PARTIAL_RESULT" for ks
    by (induction ks) (auto split: sum.splits)
  show "list_all2 (\<lambda>k item. readItem allow_stale now m k = Inr item) (sort keys)
      (drr_items (readLatest keys allow_stale now required m))"
    and "0 \<le> now" and "dm_generation m \<noteq> 0" and "distinct keys"
    using assms nes [of "sort keys"]
    by (auto simp: readLatest_def Let_def dest: readItems_Inr split: if_splits sum.splits)
qed

section \<open>Properties\<close>

definition witness_limits_ds :: data_store_limits where
  "witness_limits_ds =
     \<lparr>dl_shard_count = 2, dl_max_keys = 4, dl_max_history_samples_per_key = 2,
      dl_max_history_duration_ns = 100, dl_max_total_bytes = 9000, dl_max_value_bytes = 64,
      dl_max_query_items = 4, dl_max_tombstones = 2, dl_max_events = 4, dl_max_event_bytes = 2000,
      dl_max_evidence_items = 2, dl_max_evidence_bytes = 2000, dl_evidence_ttl_ns = 100,
      dl_max_health_entries = 1, dl_max_health_evidence_refs = 2, dl_max_health_result_bytes = 2000,
      dl_max_health_bytes = 4000\<rparr>"

definition witness_metric :: metric_descriptor where
  "witness_metric =
     \<lparr>md_id = 7, md_name = ''m'', md_value_type = MK_Uint64, md_unit = ''u'',
      md_temporality = MT_Gauge, md_scope = EK_Device, md_collection_mode = CM_Poll,
      md_default_period_ns = 10, md_min_period_ns = 1, md_freshness_ns = 20, md_supports_fpga = True,
      md_supports_emu = True, md_requirement = RL_Conditional, md_semantic_version = 1,
      md_provider_mapping_approved = True, md_dependencies = []\<rparr>"

definition witness_target :: target_catalog where
  "witness_target =
     (TargetCatalog_blocked TK_Fpga)\<lparr>tc_metrics_status := MC_Ready, tc_metrics := [witness_metric],
       tc_health := [default_health_entry\<lparr>hc_freshness_ns := 10, hc_provider_data_id := Some 9\<rparr>]\<rparr>"

definition witness_view :: catalog_view where
  "witness_view =
     \<lparr>cv_generation = 1, cv_detected_device_count = 1, cv_topology_unsupported = False,
      cv_entities =
        [\<lparr>en_ref = EntityRef EK_Device 0 1, en_state = ES_Ready, en_native_id = validAttribute ''d'',
          en_pci_bdf = validAttribute ''b'', en_pdrv_version = validAttribute ''v'',
          en_provider_version = [], en_target = TK_Fpga, en_item_status = SUCCESS\<rparr>],
      cv_capability_sets =
        [\<lparr>cs_entity = EntityRef EK_Device 0 1, cs_catalog_generation = 1,
          cs_items = [\<lparr>ci_kind = CP_Health, ci_id = 1, ci_supported = True, ci_reason = CR_Supported,
                       ci_semantic_version = 1, ci_catalog_generation = 1\<rparr>]\<rparr>]\<rparr>"

text \<open>The store after the activation of this view, written out.\<close>

definition witness_base :: data_manager where
  "witness_base =
     \<lparr>dm_limits = witness_limits_ds,
      dm_event_store =
        \<lparr>es_limits = \<lparr>el_max_events = 4, el_max_bytes = 2000\<rparr>, es_boot_epoch = 1, es_next_sequence = 2,
         es_stored_bytes = 177,
         es_events = [event_of_draft 1 1 (default_draft\<lparr>dr_catalog_generation := 1\<rparr>)]\<rparr>,
      dm_shards = [[], []],
      dm_catalog =
        \<lparr>cst_generation = 1, cst_topology_unsupported = False,
         cst_entities = [EntityRef EK_Device 0 1], cst_metrics = [(7, witness_metric)],
         cst_heartbeat = Some (default_health_entry\<lparr>hc_freshness_ns := 10, hc_provider_data_id := Some 9\<rparr>),
         cst_heartbeat_supported = True\<rparr>,
      dm_commit_epoch = 0, dm_tombstones = [], dm_heartbeat_evidence = [],
      dm_latest_heartbeat = [], dm_health = [], dm_next_evidence_id = 1\<rparr>"

lemma witness_base_eq:
  "dm_step (DM_activateCatalog (Some witness_view) witness_target) (data_manager_start witness_limits_ds) =
     witness_base"
  by code_simp

definition witness_data :: "dm_op list \<Rightarrow> data_manager" where
  "witness_data ops = fold dm_step ops witness_base"

definition witness_obs :: "i64 \<Rightarrow> observation" where
  "witness_obs t =
     default_observation\<lparr>obs_entity := EntityRef EK_Device 0 1, obs_metric := 7,
       obs_value := Some (V_uint64 5), obs_status := OS_Valid, obs_observed_monotonic_time_ns := t,
       obs_metric_semantic_version := 1, obs_catalog_generation := 1\<rparr>"

definition witness_failed_obs :: "i64 \<Rightarrow> observation" where
  "witness_failed_obs t =
     (witness_obs t)\<lparr>obs_value := None, obs_status := OS_Error,
       obs_error := default_error\<lparr>em_status := Status INTERNAL ''x''\<rparr>\<rparr>"

lemma witness_limits_ds_ok: "ok (DataStoreLimits_validate witness_limits_ds)"
  by (simp add: DataStoreLimits_validate_def witness_limits_ds_def ok_def)

text \<open>The stores that operations reach from a store with valid limits.\<close>

definition data_reachable :: "data_store_limits \<Rightarrow> dm_op list \<Rightarrow> data_manager option" where
  "data_reachable l ops = map_option (fold dm_step ops) (DataManager l)"

lemma data_reachable_inv: "data_reachable l ops = Some m \<Longrightarrow> data_inv m \<and> dm_limits m = l"
  using dm.inv_reach [of ops l] by (auto simp: data_reachable_def DataManager_def split: if_splits)

lemma witness_data_reachable:
  "data_reachable witness_limits_ds (DM_activateCatalog (Some witness_view) witness_target # ops) =
     Some (witness_data ops)"
  by (simp add: data_reachable_def DataManager_def witness_limits_ds_ok witness_data_def witness_base_eq del: dm_step.simps)

text \<open>
  C1: A commit of observations is atomic. Either its status is success (all items valid) or
  partial (some item failed), every item of the batch is committed under one new epoch, the
  old epoch plus one; or the whole store, epoch and events included, is exactly as before.
\<close>

theorem data_commit_atomic:
  assumes "data_reachable l ops = Some m" and "DataManager_commit os m = (r, m')"
  shows "if dcr_status r \<in> {SUCCESS, PARTIAL_RESULT}
     then dcr_committed_items r = length os \<and> dcr_commit_epoch r = dm_commit_epoch m' \<and>
          dm_commit_epoch m' = dm_commit_epoch m + 1 \<and> dm_commit_epoch m < dm_commit_epoch m' \<and>
          (dcr_status r = SUCCESS \<longleftrightarrow> (\<forall>o' \<in> set os. obs_status o' = OS_Valid)) \<and>
          (\<forall>o' \<in> set os. \<exists>e. lookup_shards (dm_shards m') (obs_key o') = Some e \<and>
             dt_latest e = Some (o'\<lparr>obs_commit_epoch := dm_commit_epoch m'\<rparr>))
     else m' = m"
proof -
  have "shards_ok (dm_shards m)" using data_reachable_inv [OF assms(1)] by (simp add: data_inv_def)
  then show ?thesis
    using assms(2)
  proof (cases rule: data_commit_elim)
    case (committed staged)
    have "dm_commit_epoch m' = dm_commit_epoch m + 1" by (subst committed(14)) simp
    moreover have "\<exists>e. lookup_shards (dm_shards m') (obs_key o') = Some e \<and>
        dt_latest e = Some (o'\<lparr>obs_commit_epoch := dm_commit_epoch m + 1\<rparr>)" if "o' \<in> set os" for o'
      using committed_latest [OF committed(7,8) that] by metis
    ultimately show ?thesis
      using committed(6,11-13) by (auto simp: less_inc)
  qed simp
qed

lemma witness_commit:
  "fst (DataManager_commit [witness_obs 1] (witness_data [])) =
     \<lparr>dcr_status = SUCCESS, dcr_commit_epoch = 1, dcr_committed_items = 1\<rparr>"
  by code_simp

lemma witness_commit_pair:
  "DataManager_commit [witness_obs 1] (witness_data []) =
     (\<lparr>dcr_status = SUCCESS, dcr_commit_epoch = 1, dcr_committed_items = 1\<rparr>,
      snd (DataManager_commit [witness_obs 1] (witness_data [])))"
  by (simp add: prod_eq_iff witness_commit)

theorem data_commit_atomic_witness:
  "dcr_status (fst (DataManager_commit [witness_obs 1] (witness_data []))) = SUCCESS \<and>
   dm_commit_epoch (snd (DataManager_commit [witness_obs 1] (witness_data []))) = 1"
proof -
  have "dm_commit_epoch (witness_data []) = 0" by (simp add: witness_data_def witness_base_def)
  with witness_commit data_commit_atomic [OF witness_data_reachable witness_commit_pair]
  show ?thesis by simp
qed

text \<open>
  What was committed is what is read: right after a commit on the one published device,
  querying the keys of the batch returns exactly the committed observations, stamped with the
  epoch of the commit, in key order, with the status of the commit.
\<close>

theorem data_read_your_writes:
  assumes "data_reachable l ops = Some m" and "DataManager_commit os m = (r, m')"
    and "dcr_status r \<in> {SUCCESS, PARTIAL_RESULT}" and "cst_entities (dm_catalog m) = [e]"
    and "length os \<le> dl_max_query_items l" and "0 \<le> now"
  shows "readLatest (map obs_key os) False now 0 m' =
    \<lparr>drr_status = dcr_status r, drr_catalog_generation = dm_generation m,
     drr_observed_commit_epoch = dcr_commit_epoch r,
     drr_items = map (\<lambda>o'. o'\<lparr>obs_commit_epoch := dcr_commit_epoch r\<rparr>) (sort_key obs_key os)\<rparr>"
proof -
  have inv: "data_inv m" and l: "dm_limits m = l" using data_reachable_inv [OF assms(1)] by auto
  have ok: "shards_ok (dm_shards m)" using inv by (simp add: data_inv_def)
  show ?thesis
    using ok assms(2)
  proof (cases rule: data_commit_elim)
    case failed
    then show ?thesis using assms(3) by simp
  next
    case (committed staged)
    let ?f = "\<lambda>o'. o'\<lparr>obs_commit_epoch := dcr_commit_epoch r\<rparr>"
    have m': "dm_catalog m' = dm_catalog m" "dm_limits m' = l" "dm_commit_epoch m' = dm_commit_epoch m + 1"
      using l by (subst committed(14), simp)+
    define obs where "obs = (\<lambda>k. the (find (\<lambda>o'. obs_key o' = k) os))"
    have obs: "obs (obs_key o') = o'" if "o' \<in> set os" for o'
    proof -
      have "find (\<lambda>x. obs_key x = obs_key o') os \<noteq> None"
        using that by (auto simp: find_None_iff)
      then obtain x where x: "find (\<lambda>x. obs_key x = obs_key o') os = Some x" by blast
      then have "x \<in> set os" "obs_key x = obs_key o'" by (auto dest: find_Some_D)
      with committed(2) that have "x = o'" by (auto simp: distinct_map inj_on_def)
      with x show ?thesis by (simp add: obs_def)
    qed
    have items: "readItems False now m' (sort (map obs_key os)) =
      Inr (map (?f \<circ> obs) (sort (map obs_key os)), \<exists>k \<in> set (map obs_key os). obs_status (?f (obs k)) \<noteq> OS_Valid)"
      by (subst readItems_all [where f = "?f \<circ> obs"])
        (use commit_then_readItem [OF inv assms(2-4)] obs in auto)
    have "map (?f \<circ> obs) (sort (map obs_key os)) = map ?f (sort_key obs_key os)"
      using obs by (simp add: sort_map_sort_key)
    moreover have "(\<exists>k \<in> set (map obs_key os). obs_status (?f (obs k)) \<noteq> OS_Valid) \<longleftrightarrow>
        (\<exists>o' \<in> set os. obs_status o' \<noteq> OS_Valid)"
      using obs by auto
    ultimately show ?thesis
      using items committed(1,2,4,5,11,12) m' assms(5,6)
      by (simp add: readLatest_def Let_def)
  qed
qed

text \<open>
  Every item of a successful or partial query is a well-formed observation of the key
  that was asked, in key order, of the active catalog generation and of an epoch not after
  the one reported; a stale item appears only when stale values are allowed, carries the last
  valid value and its exact age.
\<close>

theorem data_reads_well_formed:
  assumes "data_reachable l ops = Some m" and "\<forall>k \<in> set keys. dk_metric k \<noteq> 0"
    and "r = readLatest keys allow_stale now required m" and "drr_status r \<in> {SUCCESS, PARTIAL_RESULT}"
  shows "map obs_key (drr_items r) = sort keys \<and>
    (\<forall>item \<in> set (drr_items r). ok (validateObservation item) \<and>
       obs_catalog_generation item = dm_generation m \<and> obs_commit_epoch item \<le> dm_commit_epoch m \<and>
       (obs_status item = OS_Stale \<longrightarrow> allow_stale \<and> obs_stale_age_ns item = Some (now - obs_time item)))"
proof -
  have inv: "data_inv m" using data_reachable_inv [OF assms(1)] by auto
  note rd = readLatest_items [OF assms(4) [unfolded assms(3)]]
  have item: "validateObservation item = SUCCESS \<and> obs_key item = k \<and>
      obs_catalog_generation item = dm_generation m \<and> obs_commit_epoch item \<le> dm_commit_epoch m"
    if "readItem allow_stale now m k = Inr item" "k \<in> set keys" for k item
    using readItem_ok [OF inv rd(3) _ rd(2) that(1)] assms(2) that(2) by blast
  have all: "list_all2 (\<lambda>k item. k \<in> set keys \<and> readItem allow_stale now m k = Inr item) (sort keys) (drr_items r)"
    using rd(1) unfolding assms(3) by (auto simp: list_all2_conv_all_nth) (metis length_sort nth_mem set_sort)
  have "map obs_key (drr_items r) = sort keys"
    using all item by (auto simp: list_all2_conv_all_nth intro!: nth_equalityI)
  moreover have "\<exists>k \<in> set keys. readItem allow_stale now m k = Inr x" if "x \<in> set (drr_items r)" for x
    using list_all2_set2 [OF all that] by blast
  ultimately show ?thesis
    using item readItem_stale [OF inv] by (fastforce simp: ok_def)
qed

end
