(* ===== verification/Query.thy ===== *)
theory Query
  imports DataStore_Commit "HOL-Library.Monad_Syntax" "HOL-Library.Sublist"
begin

text \<open>
  The query engine (\<open>data/query_engine\<close>): read policies, consistency and result limits over
  the data manager, while other threads commit. The other threads appear as a run: what the
  clock shows and what the data manager holds at each instant. Every call the engine makes
  happens at an instant of its own, so any interference between two calls is covered; a wait
  ends at the first instant at which its epoch is there or its deadline has passed. Whether
  the loops end is a theorem about runs, not built into the definitions.
\<close>

section \<open>Requests and results\<close>

datatype read_policy = RP_CacheOnly | RP_CacheOrFresh | RP_FreshRequired

datatype query_consistency = QC_BestEffort | QC_AtLeastEpoch | QC_SameBatch

record query_limits =
  ql_max_items :: size_t
  ql_max_result_bytes :: size_t

record query_request =
  qq_selection :: "data_key list"
  qq_max_age_ns :: u64
  qq_read_policy :: read_policy
  qq_consistency :: query_consistency
  qq_allow_stale :: bool
  qq_catalog_generation :: u64
  qq_required_epoch :: u64
  qq_max_result_items :: size_t
  qq_max_result_bytes :: size_t
  qq_deadline :: i64

record query_result =
  qr_status :: pdcm_status
  qr_catalog_generation :: u64
  qr_observed_commit_epoch :: u64
  qr_required_items :: size_t
  qr_required_bytes :: size_t
  qr_truncated :: bool
  qr_items :: "observation list"

definition default_query_result :: query_result where
  "default_query_result =
     \<lparr>qr_status = SUCCESS, qr_catalog_generation = 0, qr_observed_commit_epoch = 0, qr_required_items = 0,
      qr_required_bytes = 0, qr_truncated = False, qr_items = []\<rparr>"

text \<open>A fresh read starts at an instant and returns its status at another.\<close>

type_synonym fresh_read = "data_key list \<Rightarrow> u64 \<Rightarrow> i64 \<Rightarrow> nat \<Rightarrow> pdcm_status \<times> nat"

record query_engine =
  qe_clock :: bool
  qe_fresh_reads :: "fresh_read option"
  qe_limits :: query_limits

section \<open>Runs\<close>

record moment =
  mo_now :: i64
  mo_data :: data_manager

type_synonym data_run = "nat \<Rightarrow> moment"

text \<open>The first instant, from one on, with the epoch reached or the deadline passed.\<close>

partial_function (option) epoch_wake :: "data_run \<Rightarrow> u64 \<Rightarrow> i64 \<Rightarrow> nat \<Rightarrow> nat option" where
  "epoch_wake run epoch deadline t =
    (if epoch \<le> dm_commit_epoch (mo_data (run t)) \<or> deadline \<le> mo_now (run t) then Some t
     else epoch_wake run epoch deadline (t + 1))"

text \<open>\<open>DataManager::waitForEpoch\<close> in a run: the status and the instant at which it returns.\<close>

definition query_wait :: "data_run \<Rightarrow> u64 \<Rightarrow> i64 \<Rightarrow> nat \<Rightarrow> (pdcm_status \<times> nat) option" where
  "query_wait run epoch deadline t =
    (if epoch = 0 then Some (waitForEpoch epoch (mo_data (run t)), t)
     else map_option (\<lambda>w. (waitForEpoch epoch (mo_data (run w)), w)) (epoch_wake run epoch deadline t))"

section \<open>The engine\<close>

definition isReadableStatus :: "pdcm_status \<Rightarrow> bool" where
  "isReadableStatus st \<longleftrightarrow> ok st \<or> st = PARTIAL_RESULT"

definition allItemsAtEpoch :: "data_read_result \<Rightarrow> u64 \<Rightarrow> bool" where
  "allItemsAtEpoch snapshot required \<longleftrightarrow> list_all (\<lambda>item. obs_commit_epoch item \<ge> required) (drr_items snapshot)"

definition QueryLimits_validate :: "query_limits \<Rightarrow> pdcm_status" where
  "QueryLimits_validate l =
     (if ql_max_items l = 0 \<or> ql_max_result_bytes l = 0 then INVALID_ARGUMENT else SUCCESS)"

definition query_validate :: "query_engine \<Rightarrow> query_request \<Rightarrow> pdcm_status" where
  "query_validate e req =
    (let limits_status = QueryLimits_validate (qe_limits e);
         keys = sort (qq_selection req)
     in if \<not> ok limits_status then limits_status
        else if \<not> qe_clock e \<or> qq_selection req = [] \<or> length (qq_selection req) > ql_max_items (qe_limits e) \<or>
          qq_max_result_items req = 0 \<or> qq_max_result_items req > ql_max_items (qe_limits e) \<or>
          qq_max_result_bytes req = 0 \<or> qq_max_result_bytes req > ql_max_result_bytes (qe_limits e)
        then INVALID_ARGUMENT
        else if adjacent_find keys then INVALID_ARGUMENT
        else if qq_consistency req = QC_AtLeastEpoch \<and> qq_required_epoch req = 0 then INVALID_ARGUMENT
        else if qq_consistency req \<noteq> QC_AtLeastEpoch \<and> qq_required_epoch req \<noteq> 0 then INVALID_ARGUMENT
        else SUCCESS)"

definition effective_age :: "query_request \<Rightarrow> metric_descriptor \<Rightarrow> u64" where
  "effective_age req d =
    (let age = md_freshness_ns d
     in if qq_max_age_ns req \<noteq> 0 \<and> (age = 0 \<or> qq_max_age_ns req < age) then qq_max_age_ns req else age)"

text \<open>The keys to read again; each look-up of a descriptor is a call at an instant of its own.\<close>

fun fresh_loop ::
  "data_run \<Rightarrow> query_request \<Rightarrow> i64 \<Rightarrow> observation list \<Rightarrow> nat \<Rightarrow> data_key list \<times> nat" where
  "fresh_loop run req now [] t = ([], t)"
| "fresh_loop run req now (item # items) t =
    (if obs_status item = OS_Unsupported then fresh_loop run req now items t
     else if qq_read_policy req = RP_FreshRequired \<or> obs_status item \<noteq> OS_Valid
     then (let (keys, t) = fresh_loop run req now items t in (DataKey (obs_entity item) (obs_metric item) # keys, t))
     else
      case metricDescriptor (obs_metric item) (mo_data (run t)) of
        None \<Rightarrow> fresh_loop run req now items (t + 1)
      | Some d \<Rightarrow>
         let age = effective_age req d
         in if age = 0 then fresh_loop run req now items (t + 1)
            else if now < obs_observed_monotonic_time_ns item \<or>
              to_u64 (now - obs_observed_monotonic_time_ns item) > age
            then (let (keys, t) = fresh_loop run req now items (t + 1)
                  in (DataKey (obs_entity item) (obs_metric item) # keys, t))
            else fresh_loop run req now items (t + 1))"

definition keysNeedingFreshRead ::
  "data_run \<Rightarrow> query_request \<Rightarrow> data_read_result \<Rightarrow> i64 \<Rightarrow> nat \<Rightarrow> data_key list \<times> nat" where
  "keysNeedingFreshRead run req snapshot now t =
     (if qq_read_policy req = RP_CacheOnly then ([], t) else fresh_loop run req now (drr_items snapshot) t)"

definition itemBytes :: "observation \<Rightarrow> size_t" where
  "itemBytes o' =
     sizeof_Observation + length (src_provider (obs_source o')) + length (src_native_source (obs_source o')) +
     length (status_message (em_status (obs_error o'))) + length (dv_processor_id (obs_derivation o')) +
     length (dv_input_sequences (obs_derivation o')) * sizeof_uint64 +
     (case obs_latest_failure o' of None \<Rightarrow> 0 | Some f \<Rightarrow> sizeof_ErrorMetadata + length (status_message (em_status f))) +
     (case obs_value o' of None \<Rightarrow> 0 | Some v \<Rightarrow> valueBytes v)"

text \<open>The two loops of \<open>finalize\<close>: the size of everything (or an overflow: the test
  \<open>required_bytes > max - bytes\<close>, written as a sum), then what fits.\<close>

fun requiredBytes :: "size_t \<Rightarrow> observation list \<Rightarrow> bool \<times> size_t" where
  "requiredBytes acc [] = (True, acc)"
| "requiredBytes acc (item # items) =
    (if acc + itemBytes item > size_max then (False, acc) else requiredBytes (acc + itemBytes item) items)"

fun takeItems :: "query_request \<Rightarrow> size_t \<Rightarrow> size_t \<Rightarrow> observation list \<Rightarrow> observation list \<times> bool" where
  "takeItems req taken returned_bytes [] = ([], False)"
| "takeItems req taken returned_bytes (item # items) =
    (if taken = qq_max_result_items req \<or> itemBytes item > szsub (qq_max_result_bytes req) returned_bytes
     then ([], True)
     else let (rest, truncated) = takeItems req (taken + 1) (returned_bytes + itemBytes item) items
          in (item # rest, truncated))"

definition query_finalize :: "query_request \<Rightarrow> data_read_result \<Rightarrow> pdcm_status \<Rightarrow> query_result" where
  "query_finalize req snapshot fresh_status =
    (let items = drr_items snapshot;
         result = default_query_result\<lparr>qr_status := drr_status snapshot,
           qr_catalog_generation := drr_catalog_generation snapshot,
           qr_observed_commit_epoch := drr_observed_commit_epoch snapshot, qr_required_items := length items\<rparr>
     in if \<not> isReadableStatus (drr_status snapshot) then result
        else if qq_consistency req = QC_SameBatch \<and> items \<noteq> [] \<and>
          \<not> list_all (\<lambda>item. obs_commit_epoch item = obs_commit_epoch (hd items)) items
        then result\<lparr>qr_status := UNAVAILABLE\<rparr>
        else
         let (fits, bytes) = requiredBytes 0 items; result = result\<lparr>qr_required_bytes := bytes\<rparr>
         in if \<not> fits then result\<lparr>qr_status := RESOURCE_EXHAUSTED\<rparr>
            else
             let (taken, over) = takeItems req 0 0 items;
                 truncated = (over \<or> length taken \<noteq> length items)
             in result\<lparr>qr_items := taken, qr_truncated := truncated,
                  qr_status := (if truncated then BUFFER_TOO_SMALL
                                else if \<not> ok fresh_status \<and> fresh_status \<noteq> PARTIAL_RESULT then fresh_status
                                else drr_status snapshot)\<rparr>)"

text \<open>One reading: the clock at an instant, the data manager at the next.\<close>

definition query_read :: "data_run \<Rightarrow> query_request \<Rightarrow> nat \<Rightarrow> data_read_result" where
  "query_read run req t =
     readLatest (qq_selection req) (qq_allow_stale req) (mo_now (run t)) (qq_catalog_generation req)
       (mo_data (run (t + 1)))"

partial_function (option) epoch_loop ::
  "data_run \<Rightarrow> query_request \<Rightarrow> data_read_result \<Rightarrow> nat \<Rightarrow> (data_read_result \<times> nat) option" where
  "epoch_loop run req snapshot t =
    (if allItemsAtEpoch snapshot (qq_required_epoch req) then Some (snapshot, t)
     else
      do { (wait_status, t) \<leftarrow> query_wait run (dm_commit_epoch (mo_data (run (t + 1))) + 1) (qq_deadline req) (t + 2);
           if \<not> ok wait_status then Some (snapshot\<lparr>drr_status := wait_status, drr_items := []\<rparr>, t)
           else if \<not> isReadableStatus (drr_status (query_read run req (t + 1)))
           then Some (query_read run req (t + 1), t + 2)
           else epoch_loop run req (query_read run req (t + 1)) (t + 2) })"

text \<open>The fresh read of \<open>execute\<close> and the second reading.\<close>

definition query_refresh ::
  "data_run \<Rightarrow> query_engine \<Rightarrow> query_request \<Rightarrow> data_read_result \<Rightarrow> data_key list \<Rightarrow> nat \<Rightarrow>
   (pdcm_status \<times> data_read_result) \<times> nat" where
  "query_refresh run e req snapshot keys t =
    (if keys = [] then ((SUCCESS, snapshot), t)
     else
      let (fresh_status, t) =
            (case qe_fresh_reads e of
               None \<Rightarrow> (UNAVAILABLE, t)
             | Some freshRead \<Rightarrow>
                if mo_now (run (t + 1)) \<ge> qq_deadline req then (TIMEOUT, t + 1)
                else freshRead keys (drr_catalog_generation snapshot) (qq_deadline req) (t + 2))
      in ((fresh_status, query_read run req (t + 1)), t + 2))"

text \<open>\<open>execute\<close> from the first reading on, then the whole of it.\<close>

definition query_serve ::
  "data_run \<Rightarrow> query_engine \<Rightarrow> query_request \<Rightarrow> nat \<Rightarrow> (query_result \<times> nat) option" where
  "query_serve run e req t =
    (let now = mo_now (run (t + 1)); snapshot = query_read run req (t + 1); t = t + 2
     in if \<not> isReadableStatus (drr_status snapshot) then Some (query_finalize req snapshot SUCCESS, t)
        else
         let (keys, t) = keysNeedingFreshRead run req snapshot now (t + 1);
             ((fresh_status, snapshot), t) = query_refresh run e req snapshot keys t
         in do { (snapshot, t) \<leftarrow>
                   (if qq_consistency req = QC_AtLeastEpoch \<and> isReadableStatus (drr_status snapshot)
                    then epoch_loop run req snapshot t else Some (snapshot, t));
                 Some (query_finalize req snapshot fresh_status, t) })"

definition query_execute ::
  "data_run \<Rightarrow> query_engine \<Rightarrow> query_request \<Rightarrow> nat \<Rightarrow> (query_result \<times> nat) option" where
  "query_execute run e req t =
    (let request_status = query_validate e req
     in if \<not> ok request_status then Some (default_query_result\<lparr>qr_status := request_status\<rparr>, t)
        else
         do { (wait_status, t) \<leftarrow>
                (if qq_consistency req = QC_AtLeastEpoch then query_wait run (qq_required_epoch req) (qq_deadline req) t
                 else Some (SUCCESS, t));
              if \<not> ok wait_status then Some (default_query_result\<lparr>qr_status := wait_status\<rparr>, t)
              else query_serve run e req t })"

declare epoch_wake.simps [code] epoch_loop.simps [code]

section \<open>Waiting\<close>

abbreviation epoch_at :: "data_run \<Rightarrow> nat \<Rightarrow> u64" where
  "epoch_at run t \<equiv> dm_commit_epoch (mo_data (run t))"

lemma epoch_wake_spec:
  assumes "epoch_wake run epoch deadline t = Some w"
  shows "t \<le> w \<and> (epoch \<le> epoch_at run w \<or> deadline \<le> mo_now (run w))"
  by (rule epoch_wake.raw_induct [OF _ assms, where P = "\<lambda>run epoch deadline t w.
        t \<le> w \<and> (epoch \<le> epoch_at run w \<or> deadline \<le> mo_now (run w))"]) (force split: if_splits)

lemma epoch_wake_total:
  assumes "epoch \<le> epoch_at run (t + n) \<or> deadline \<le> mo_now (run (t + n))"
  shows "\<exists>w. epoch_wake run epoch deadline t = Some w"
  using assms
proof (induction n arbitrary: t)
  case (Suc n)
  then show ?case using Suc.IH [of "t + 1"] by (simp add: epoch_wake.simps [of _ _ _ t])
qed (simp add: epoch_wake.simps)

lemma query_wait_spec:
  assumes "query_wait run epoch deadline t = Some (st, w)"
  shows "t \<le> w" and "st = SUCCESS \<longleftrightarrow> epoch \<noteq> 0 \<and> epoch \<le> epoch_at run w"
    and "st = TIMEOUT \<Longrightarrow> deadline \<le> mo_now (run w)" and "st \<in> {SUCCESS, TIMEOUT, INVALID_ARGUMENT}"
  using assms
  by (auto simp: query_wait_def waitForEpoch_def dest: epoch_wake_spec split: if_splits)

lemma query_wait_total:
  assumes "deadline \<le> mo_now (run (t + n))"
  shows "\<exists>st w. query_wait run epoch deadline t = Some (st, w)"
  using epoch_wake_total [of epoch run t n deadline] assms by (auto simp: query_wait_def)

section \<open>What is returned\<close>

definition fits :: "query_request \<Rightarrow> observation list \<Rightarrow> bool" where
  "fits req items \<longleftrightarrow>
     length items \<le> qq_max_result_items req \<and> sum_list (map itemBytes items) \<le> qq_max_result_bytes req"

lemma takeItems_spec:
  assumes "takeItems req k b items = (taken, over)" "b \<le> qq_max_result_bytes req" "k \<le> qq_max_result_items req"
  shows "\<exists>rest. items = taken @ rest \<and> over = (rest \<noteq> []) \<and> k + length taken \<le> qq_max_result_items req \<and>
    b + sum_list (map itemBytes taken) \<le> qq_max_result_bytes req \<and>
    (rest \<noteq> [] \<longrightarrow> k + length taken = qq_max_result_items req \<or>
       b + sum_list (map itemBytes taken) + itemBytes (hd rest) > qq_max_result_bytes req)"
  using assms
proof (induction items arbitrary: k b taken over)
  case (Cons i items)
  show ?case
  proof (cases "k = qq_max_result_items req \<or> itemBytes i > szsub (qq_max_result_bytes req) b")
    case True
    then show ?thesis using Cons.prems by (auto simp: less_szsub_iff)
  next
    case False
    obtain xs c where rec: "takeItems req (k + 1) (b + itemBytes i) items = (xs, c)" by (cases rule: prod.exhaust)
    have "b + itemBytes i \<le> qq_max_result_bytes req" "k + 1 \<le> qq_max_result_items req" using False Cons.prems(2,3) by auto
    moreover have eqs: "taken = i # xs" "over = c" using Cons.prems(1) False rec by (simp_all split: if_splits)
    moreover note Cons.IH [OF rec]
    ultimately obtain rest where "items = xs @ rest" "c = (rest \<noteq> [])" "k + 1 + length xs \<le> qq_max_result_items req"
      "b + itemBytes i + sum_list (map itemBytes xs) \<le> qq_max_result_bytes req"
      "rest \<noteq> [] \<longrightarrow> k + 1 + length xs = qq_max_result_items req \<or>
         b + itemBytes i + sum_list (map itemBytes xs) + itemBytes (hd rest) > qq_max_result_bytes req" by blast
    then show ?thesis using eqs by (intro exI [of _ rest]) (simp add: add.assoc)
  qed
qed auto

lemma requiredBytes_spec:
  "requiredBytes acc items = (f, n) \<Longrightarrow> acc \<le> size_max \<Longrightarrow>
     f = (acc + sum_list (map itemBytes items) \<le> size_max) \<and> (f \<longrightarrow> n = acc + sum_list (map itemBytes items))"
proof (induction items arbitrary: acc)
  case (Cons i items)
  show ?case
  proof (cases "acc + itemBytes i \<le> size_max")
    case True
    then show ?thesis using Cons.IH [of "acc + itemBytes i"] Cons.prems(1) by (auto simp: ac_simps split: if_splits)
  next
    case False
    then show ?thesis using Cons.prems by auto
  qed
qed simp

text \<open>The items of a result are the longest prefix of the reading that fits the limits.\<close>

lemma finalize_exact:
  assumes "isReadableStatus (drr_status s)" "sum_list (map itemBytes (drr_items s)) \<le> size_max"
    and "qq_consistency req = QC_SameBatch \<Longrightarrow> list_all (\<lambda>i. obs_commit_epoch i = obs_commit_epoch (hd (drr_items s))) (drr_items s)"
    and "r = query_finalize req s fs"
  obtains rest where "drr_items s = qr_items r @ rest" "fits req (qr_items r)"
    "rest \<noteq> [] \<Longrightarrow> \<not> fits req (qr_items r @ [hd rest])" "qr_truncated r = (rest \<noteq> [])"
    "qr_status r = (if rest \<noteq> [] then BUFFER_TOO_SMALL else if isReadableStatus fs then drr_status s else fs)"
    "qr_required_items r = length (drr_items s)" "qr_required_bytes r = sum_list (map itemBytes (drr_items s))"
proof -
  obtain taken over where t: "takeItems req 0 0 (drr_items s) = (taken, over)" by (cases rule: prod.exhaust)
  obtain f n where n: "requiredBytes 0 (drr_items s) = (f, n)" by (cases rule: prod.exhaust)
  have f: "f" "n = sum_list (map itemBytes (drr_items s))" using requiredBytes_spec [OF n] assms(2) by auto
  obtain rest where rest: "drr_items s = taken @ rest" "over = (rest \<noteq> [])" "length taken \<le> qq_max_result_items req"
    "sum_list (map itemBytes taken) \<le> qq_max_result_bytes req"
    "rest \<noteq> [] \<Longrightarrow> length taken = qq_max_result_items req \<or>
       sum_list (map itemBytes taken) + itemBytes (hd rest) > qq_max_result_bytes req"
    using takeItems_spec [OF t] by auto
  have r: "r = default_query_result\<lparr>qr_status := (if rest \<noteq> [] then BUFFER_TOO_SMALL else if isReadableStatus fs then drr_status s else fs),
      qr_catalog_generation := drr_catalog_generation s, qr_observed_commit_epoch := drr_observed_commit_epoch s,
      qr_required_items := length (drr_items s), qr_required_bytes := n, qr_items := taken, qr_truncated := (rest \<noteq> [])\<rparr>"
    using assms(1,3) t n f rest(1,2)
    by (auto simp: assms(4) query_finalize_def Let_def isReadableStatus_def ok_def default_query_result_def)
  show thesis by (rule that [of rest]) (use rest f in \<open>auto simp: r fits_def\<close>)
qed

text \<open>Whatever its status, a result with items comes from a readable snapshot of one shape.\<close>

lemma finalize_items:
  assumes "qr_items (query_finalize req s fs) \<noteq> []"
  shows "isReadableStatus (drr_status s)" and "prefix (qr_items (query_finalize req s fs)) (drr_items s)"
    and "fits req (qr_items (query_finalize req s fs))"
    and "qr_observed_commit_epoch (query_finalize req s fs) = drr_observed_commit_epoch s"
    and "qr_catalog_generation (query_finalize req s fs) = drr_catalog_generation s"
    and "qr_required_items (query_finalize req s fs) = length (drr_items s)"
    and "qq_consistency req = QC_SameBatch \<Longrightarrow> list_all (\<lambda>i. obs_commit_epoch i = obs_commit_epoch (hd (drr_items s))) (drr_items s)"
proof -
  let ?r = "query_finalize req s fs"
  show readable: "isReadableStatus (drr_status s)"
    and batch: "qq_consistency req = QC_SameBatch \<Longrightarrow> list_all (\<lambda>i. obs_commit_epoch i = obs_commit_epoch (hd (drr_items s))) (drr_items s)"
    and "qr_observed_commit_epoch ?r = drr_observed_commit_epoch s" "qr_catalog_generation ?r = drr_catalog_generation s"
      "qr_required_items ?r = length (drr_items s)"
    using assms by (auto simp: query_finalize_def Let_def default_query_result_def split: if_splits prod.splits)
  have "fst (requiredBytes 0 (drr_items s))"
    using assms by (auto simp: query_finalize_def Let_def default_query_result_def split: if_splits prod.splits)
  then have "sum_list (map itemBytes (drr_items s)) \<le> size_max"
    using requiredBytes_spec [of 0 "drr_items s" "fst (requiredBytes 0 (drr_items s))" "snd (requiredBytes 0 (drr_items s))"] by (metis add_0 le0 prod.collapse)
  from finalize_exact [OF readable this batch refl [of "query_finalize req s fs"]]
  show "prefix (qr_items ?r) (drr_items s)" and "fits req (qr_items ?r)" by (metis prefixI)+
qed

section \<open>Runs of the data manager\<close>

text \<open>
  A run of the system: the clock never goes back, the data manager starts from a reachable
  state and between two instants other threads apply any operations to it.
\<close>

definition data_run_ok :: "data_store_limits \<Rightarrow> data_run \<Rightarrow> bool" where
  "data_run_ok l run \<longleftrightarrow>
     (\<exists>ops. data_reachable l ops = Some (mo_data (run 0))) \<and>
     (\<forall>t. mo_now (run t) \<le> mo_now (run (t + 1)) \<and> (\<exists>ops. mo_data (run (t + 1)) = fold dm_step ops (mo_data (run t))))"

lemma run_reachable:
  assumes "data_run_ok l run"
  shows "\<exists>ops. data_reachable l ops = Some (mo_data (run t))"
proof (induction t)
  case (Suc t)
  then obtain ops where "data_reachable l ops = Some (mo_data (run t))" ..
  moreover obtain more_ops where "mo_data (run (t + 1)) = fold dm_step more_ops (mo_data (run t))"
    using assms by (auto simp: data_run_ok_def)
  ultimately have "data_reachable l (ops @ more_ops) = Some (mo_data (run (Suc t)))"
    by (auto simp: data_reachable_def)
  then show ?case ..
qed (use assms in \<open>auto simp: data_run_ok_def\<close>)

lemma run_inv: "data_run_ok l run \<Longrightarrow> data_inv (mo_data (run t))"
  using run_reachable data_reachable_inv by blast

lemma run_epoch_mono:
  assumes "data_run_ok l run" "t \<le> t'"
  shows "epoch_at run t \<le> epoch_at run t'"
  using assms(2)
proof (induction rule: dec_induct)
  case (step n)
  have "dm_commit_epoch m \<le> dm_commit_epoch (fold dm_step ops m)" if "data_inv m" for ops m
    using that
  proof (induction ops arbitrary: m)
    case (Cons op ops)
    then show ?case using commit_epoch_step [of m op] data_inv_step [of m op] by (auto intro: order_trans)
  qed simp
  moreover obtain ops where "mo_data (run (Suc n)) = fold dm_step ops (mo_data (run n))"
    using assms(1) unfolding data_run_ok_def by (metis Suc_eq_plus1)
  ultimately show ?case using step.IH run_inv [OF assms(1)] by (auto intro: order_trans)
qed simp

section \<open>The loop of an at-least-epoch query\<close>

lemma epoch_loop_spec:
  assumes "epoch_loop run req snapshot t = Some x"
  shows "t \<le> snd x \<and> (isReadableStatus (drr_status (fst x)) \<longrightarrow>
    allItemsAtEpoch (fst x) (qq_required_epoch req) \<and>
    (fst x = snapshot \<or> (\<exists>t1. t \<le> t1 \<and> t1 + 1 \<le> snd x \<and> fst x = query_read run req t1)))"
proof (rule epoch_loop.raw_induct [OF _ assms, where P = "\<lambda>run req snapshot t x.
    t \<le> snd x \<and> (isReadableStatus (drr_status (fst x)) \<longrightarrow> allItemsAtEpoch (fst x) (qq_required_epoch req) \<and>
    (fst x = snapshot \<or> (\<exists>t1. t \<le> t1 \<and> t1 + 1 \<le> snd x \<and> fst x = query_read run req t1)))"], goal_cases)
  case (1 f run req snapshot t x)
  show ?case
  proof (cases "allItemsAtEpoch snapshot (qq_required_epoch req)")
    case True
    then show ?thesis using 1(2) by auto
  next
    case False
    then obtain st w where w: "query_wait run (epoch_at run (t + 1) + 1) (qq_deadline req) (t + 2) = Some (st, w)"
      and x: "(if \<not> ok st then Some (snapshot\<lparr>drr_status := st, drr_items := []\<rparr>, w)
         else if \<not> isReadableStatus (drr_status (query_read run req (w + 1))) then Some (query_read run req (w + 1), w + 2)
         else f run req (query_read run req (w + 1)) (w + 2)) = Some x"
      using 1(2) by (auto simp: bind_eq_Some_conv split: prod.splits)
    note wait = query_wait_spec [OF w]
    show ?thesis
    proof (cases "ok st \<and> isReadableStatus (drr_status (query_read run req (w + 1)))")
      case True
      with x have "f run req (query_read run req (w + 1)) (w + 2) = Some x" by simp
      note rec = 1(1) [OF this]
      then have "t \<le> w + 1" "w + 1 + 1 \<le> snd x" "t \<le> snd x" and "\<And>t1. w + 2 \<le> t1 \<Longrightarrow> t \<le> t1" using wait(1) by simp_all
      with rec show ?thesis by blast
    next
      case False
      have "\<not> isReadableStatus (drr_status (fst x)) \<and> w \<le> snd x"
      proof (cases "ok st")
        case True
        with False x show ?thesis by auto
      next
        case False
        with x wait(4) show ?thesis by (auto simp: isReadableStatus_def ok_def)
      qed
      with wait(1) show ?thesis by simp
    qed
  qed
qed

lemma epoch_loop_total:
  assumes "data_run_ok l run" and "\<And>t. \<exists>n. qq_deadline req \<le> mo_now (run (t + n))"
  shows "\<exists>x. epoch_loop run req snapshot t = Some x"
proof (induction "2 ^ 64 - unat (epoch_at run t)" arbitrary: snapshot t rule: less_induct)
  case less
  obtain n where "qq_deadline req \<le> mo_now (run (t + 2 + n))" using assms(2) by blast
  then obtain st w where w: "query_wait run (epoch_at run (t + 1) + 1) (qq_deadline req) (t + 2) = Some (st, w)"
    using query_wait_total by blast
  note wait = query_wait_spec [OF w]
  have "\<exists>x. epoch_loop run req (query_read run req (w + 1)) (w + 2) = Some x" if "ok st"
  proof (rule less)
    have "epoch_at run (t + 1) + 1 \<noteq> 0" "epoch_at run (t + 1) + 1 \<le> epoch_at run w" using wait(2) that by (simp_all add: ok_def)
    then have "epoch_at run (t + 1) < epoch_at run w" by (metis add.commute add_eq_0_iff inc_le_iff)
    moreover have "epoch_at run t \<le> epoch_at run (t + 1)" "epoch_at run w \<le> epoch_at run (w + 2)"
      by (simp_all add: run_epoch_mono [OF assms(1)])
    ultimately have "epoch_at run t < epoch_at run (w + 2)" by simp
    then show "2 ^ 64 - unat (epoch_at run (w + 2)) < 2 ^ 64 - unat (epoch_at run t)"
      by (simp add: word_less_nat_alt diff_less_mono2 less_le_trans [OF _ less_imp_le [OF unsigned_less [where 'a = nat and 'b = 64, simplified]]])
  qed
  then show ?case by (auto simp: epoch_loop.simps [of _ _ _ t] w [simplified])
qed

section \<open>The execution of a query\<close>

text \<open>A fresh read returns after it was called.\<close>

definition fresh_forward :: "query_engine \<Rightarrow> bool" where
  "fresh_forward e \<longleftrightarrow> (\<forall>freshRead keys generation deadline t.
     qe_fresh_reads e = Some freshRead \<longrightarrow> t \<le> snd (freshRead keys generation deadline t))"

lemma fresh_loop_instants: "t \<le> snd (fresh_loop run req now items t)"
proof (induction items arbitrary: t)
  case (Cons i items)
  have "t \<le> snd (fresh_loop run req now items (t + 1))" using Cons [of "t + 1"] by simp
  with Cons [of t] show ?case by (simp add: Let_def split_def split: option.split)
qed simp

lemma query_refresh_spec:
  assumes "query_refresh run e req s keys t = ((fs, s'), t')" "fresh_forward e"
  shows "t \<le> t' \<and> (s' = s \<or> (\<exists>t1. t \<le> t1 \<and> t1 + 1 \<le> t' \<and> s' = query_read run req t1))"
proof (cases "keys = []")
  case False
  obtain fs1 t1 where f: "(case qe_fresh_reads e of None \<Rightarrow> (UNAVAILABLE, t)
      | Some freshRead \<Rightarrow> if mo_now (run (t + 1)) \<ge> qq_deadline req then (TIMEOUT, t + 1)
          else freshRead keys (drr_catalog_generation s) (qq_deadline req) (t + 2)) = (fs1, t1)"
    by (cases rule: prod.exhaust)
  then have "t \<le> t1"
    using assms(2) unfolding fresh_forward_def
    by (auto split: option.splits if_splits) (metis le_Suc_eq less_Suc_eq_le not_less snd_conv)+
  moreover have "s' = query_read run req (t1 + 1)" "t' = t1 + 2"
    using assms(1) False f by (auto simp: query_refresh_def)
  ultimately show ?thesis by (auto intro!: exI [of _ "t1 + 1"])
qed (use assms in \<open>simp add: query_refresh_def\<close>)

text \<open>
  What is finalized is a reading of the data manager at one instant of the call, with every
  item at the epoch when one was asked for; or it carries an error and has no items.
\<close>

lemma serve_elim:
  assumes "query_serve run e req t = Some (r, t')" "fresh_forward e" "qr_items r \<noteq> []"
  obtains s fs t1 where "r = query_finalize req s fs" "s = query_read run req t1" "t < t1" "t1 + 1 \<le> t'"
    "qq_consistency req = QC_AtLeastEpoch \<Longrightarrow> allItemsAtEpoch s (qq_required_epoch req)"
proof -
  let ?s0 = "query_read run req (t + 1)"
  have readable: "isReadableStatus (drr_status ?s0)"
    using assms(1) finalize_items(1) [of req ?s0 SUCCESS] assms(3) by (auto simp: query_serve_def Let_def split: if_splits)
  obtain keys t2 where keys: "keysNeedingFreshRead run req ?s0 (mo_now (run (t + 1))) (t + 2 + 1) = (keys, t2)"
    by (cases rule: prod.exhaust)
  obtain fs s1 t3 where refresh: "query_refresh run e req ?s0 keys t2 = ((fs, s1), t3)" by (metis prod.exhaust)
  have "t + 3 \<le> t2"
    using keys fresh_loop_instants [of "t + 2 + 1" run req "mo_now (run (t + 1))" "drr_items ?s0"]
    by (auto simp: keysNeedingFreshRead_def split: if_splits)
  with query_refresh_spec [OF refresh assms(2)]
  have s1: "t + 3 \<le> t3 \<and> (\<exists>t1. t < t1 \<and> t1 + 1 \<le> t3 \<and> s1 = query_read run req t1)"
  proof (elim conjE disjE exE)
    fix t1 assume "t2 \<le> t1" "t1 + 1 \<le> t3" "s1 = query_read run req t1" "t + 3 \<le> t2"
    then show ?thesis by (intro conjI exI [of _ t1]) simp_all
  qed (auto intro!: exI [of _ "t + 1"])
  obtain s where last: "(if qq_consistency req = QC_AtLeastEpoch \<and> isReadableStatus (drr_status s1)
      then epoch_loop run req s1 t3 else Some (s1, t3)) = Some (s, t')" and r: "r = query_finalize req s fs"
    using assms(1) readable keys refresh by (auto simp: query_serve_def Let_def bind_eq_Some_conv simp del: One_nat_def)
  have "isReadableStatus (drr_status s)" using finalize_items(1) assms(3) by (simp add: r)
  show thesis
  proof (cases "qq_consistency req = QC_AtLeastEpoch \<and> isReadableStatus (drr_status s1)")
    case True
    then have "epoch_loop run req s1 t3 = Some (s, t')" using last by simp
    from epoch_loop_spec [OF this] \<open>isReadableStatus (drr_status s)\<close>
    have "allItemsAtEpoch s (qq_required_epoch req)" "t3 \<le> t'"
      and "s = s1 \<or> (\<exists>t1. t3 \<le> t1 \<and> t1 + 1 \<le> t' \<and> s = query_read run req t1)" by auto
    moreover obtain ta where "t < ta" "ta + 1 \<le> t3" "s1 = query_read run req ta" using s1 by blast
    moreover from this \<open>t3 \<le> t'\<close> have "ta + 1 \<le> t'" by simp
    moreover have "t < t1" if "t3 \<le> t1" for t1 using s1 that by simp
    ultimately obtain t1 where "t < t1" "t1 + 1 \<le> t'" "s = query_read run req t1" by blast
    with that [OF r] \<open>allItemsAtEpoch s (qq_required_epoch req)\<close> show thesis by blast
  next
    case False
    then have "s = s1" "t' = t3" "qq_consistency req \<noteq> QC_AtLeastEpoch" using last \<open>isReadableStatus (drr_status s)\<close> by auto
    with s1 that r show thesis by blast
  qed
qed

lemma execute_elim:
  assumes "query_execute run e req t = Some (r, t')" "qr_items r \<noteq> []"
  obtains w where "ok (query_validate e req)" "t \<le> w" "query_serve run e req w = Some (r, t')"
    "qq_consistency req = QC_AtLeastEpoch \<Longrightarrow> qq_required_epoch req \<le> epoch_at run w"
proof -
  have ok: "ok (query_validate e req)"
    using assms by (auto simp: query_execute_def default_query_result_def Let_def split: if_splits)
  then obtain st w where w: "(if qq_consistency req = QC_AtLeastEpoch then query_wait run (qq_required_epoch req) (qq_deadline req) t
      else Some (SUCCESS, t)) = Some (st, w)"
    and serve: "(if \<not> ok st then Some (default_query_result\<lparr>qr_status := st\<rparr>, w) else query_serve run e req w) = Some (r, t')"
    using assms(1) by (auto simp: query_execute_def Let_def bind_eq_Some_conv split: prod.splits)
  have st: "ok st" using serve assms(2) by (auto simp: default_query_result_def split: if_splits)
  show thesis
  proof (rule that [OF ok])
    show "query_serve run e req w = Some (r, t')" using serve st by simp
  qed (use w st query_wait_spec(1,2) [of run "qq_required_epoch req" "qq_deadline req" t st w] in \<open>auto simp: ok_def split: if_splits\<close>)
qed

lemma execute_reads:
  assumes "query_execute run e req t = Some (r, t')" "fresh_forward e" "qr_items r \<noteq> []"
  obtains s fs t1 where "r = query_finalize req s fs" "s = query_read run req t1" "t < t1" "t1 + 1 \<le> t'"
    "qq_consistency req = QC_AtLeastEpoch \<Longrightarrow> allItemsAtEpoch s (qq_required_epoch req)"
proof -
  obtain w where w: "t \<le> w" "query_serve run e req w = Some (r, t')" by (rule execute_elim [OF assms(1,3)])
  show thesis by (rule serve_elim [OF w(2) assms(2,3)]) (rule that, use w(1) in auto)
qed

lemma execute_total:
  assumes run: "data_run_ok l run" and later: "\<And>t. \<exists>n. qq_deadline req \<le> mo_now (run (t + n))"
  shows "\<exists>r t'. query_execute run e req t = Some (r, t')"
proof -
  have "\<exists>x. query_serve run e req t = Some x" for t
  proof -
    obtain keys t2 where "keysNeedingFreshRead run req (query_read run req (t + 1)) (mo_now (run (t + 1))) (t + 2 + 1) = (keys, t2)"
      by (cases rule: prod.exhaust)
    moreover obtain fs s1 t3 where "query_refresh run e req (query_read run req (t + 1)) keys t2 = ((fs, s1), t3)" by (metis prod.exhaust)
    moreover obtain s t' where "epoch_loop run req s1 t3 = Some (s, t')" using epoch_loop_total [OF run later] by (metis prod.exhaust)
    ultimately show ?thesis by (simp add: query_serve_def Let_def del: One_nat_def)
  qed
  then have serve: "\<exists>r t'. query_serve run e req t = Some (r, t')" for t by (metis prod.exhaust)
  obtain st w where "query_wait run (qq_required_epoch req) (qq_deadline req) t = Some (st, w)"
    using later [of t] query_wait_total by blast
  with serve [of w] serve [of t] show ?thesis by (auto simp: query_execute_def Let_def ok_def)
qed

lemma run_clock_mono:
  assumes "data_run_ok l run" "t \<le> t'"
  shows "mo_now (run t) \<le> mo_now (run t')"
  using assms(2)
proof (induction rule: dec_induct)
  case (step n)
  have "mo_now (run n) \<le> mo_now (run (n + 1))" using assms(1) unfolding data_run_ok_def by blast
  with step show ?case by simp
qed simp

lemma run_past_deadline:
  assumes "data_run_ok l run" "deadline \<le> mo_now (run T)"
  shows "\<exists>n. deadline \<le> mo_now (run (t + n))"
  using run_clock_mono [OF assms(1), of T "t + T"] assms(2) by (intro exI [of _ T]) simp

text \<open>The age test: an item whose key is not read again is unsupported, or valid and young.\<close>

definition young_at :: "data_run \<Rightarrow> query_request \<Rightarrow> i64 \<Rightarrow> nat \<Rightarrow> observation \<Rightarrow> bool" where
  "young_at run req now t i \<longleftrightarrow> obs_status i = OS_Valid \<and>
     (case metricDescriptor (obs_metric i) (mo_data (run t)) of
        None \<Rightarrow> True
      | Some d \<Rightarrow> effective_age req d = 0 \<or>
          obs_time i \<le> now \<and> to_u64 (now - obs_time i) \<le> effective_age req d)"

lemma fresh_loop_Nil:
  assumes "fst (fresh_loop run req now items t) = []"
  shows "\<forall>i \<in> set items. obs_status i = OS_Unsupported \<or>
    (\<exists>t2. t \<le> t2 \<and> t2 \<le> snd (fresh_loop run req now items t) \<and> young_at run req now t2 i)"
  using assms
proof (induction items arbitrary: t)
  case (Cons i items)
  let ?r = "fresh_loop run req now items"
  show ?case
  proof (cases "obs_status i = OS_Unsupported")
    case True
    then show ?thesis using Cons by auto
  next
    case False
    then have rec: "fresh_loop run req now (i # items) t = ?r (t + 1)" "young_at run req now t i"
      using Cons.prems by (auto simp: Let_def split_def young_at_def split: option.splits if_splits)
    have "t \<le> snd (?r (t + 1))" using fresh_loop_instants [of "t + 1"] by (meson add_leD1)
    moreover have "\<exists>t2. t \<le> t2 \<and> t2 \<le> snd (?r (t + 1)) \<and> young_at run req now t2 j"
      if "\<exists>t2. t + 1 \<le> t2 \<and> t2 \<le> snd (?r (t + 1)) \<and> young_at run req now t2 j" for j
      using that by (meson add_leD1)
    ultimately show ?thesis using Cons.IH [of "t + 1"] Cons.prems rec by auto
  qed
qed simp

lemma finalize_SUCCESS:
  assumes "qr_status (query_finalize req s fs) = SUCCESS"
  shows "isReadableStatus fs" and "drr_status s = SUCCESS" and "qr_items (query_finalize req s fs) = drr_items s"
proof -
  have readable: "isReadableStatus (drr_status s)"
    and batch: "qq_consistency req = QC_SameBatch \<Longrightarrow> list_all (\<lambda>i. obs_commit_epoch i = obs_commit_epoch (hd (drr_items s))) (drr_items s)"
    and req: "fst (requiredBytes 0 (drr_items s))"
    using assms by (auto simp: query_finalize_def Let_def default_query_result_def isReadableStatus_def ok_def split: if_splits prod.splits)
  have "sum_list (map itemBytes (drr_items s)) \<le> size_max"
    using requiredBytes_spec [of 0 "drr_items s"] req by (metis add_0 le0 prod.collapse)
  then obtain rest where "drr_items s = qr_items (query_finalize req s fs) @ rest"
    "qr_status (query_finalize req s fs) = (if rest \<noteq> [] then BUFFER_TOO_SMALL else if isReadableStatus fs then drr_status s else fs)"
    using finalize_exact [OF readable _ batch refl] by metis
  then show "isReadableStatus fs" "drr_status s = SUCCESS" "qr_items (query_finalize req s fs) = drr_items s"
    using assms by (auto simp: isReadableStatus_def ok_def split: if_splits)
qed

lemma readLatest_valid:
  assumes "drr_status (readLatest keys allow_stale now required m) = SUCCESS"
  shows "list_all (\<lambda>i. obs_status i = OS_Valid) (drr_items (readLatest keys allow_stale now required m))"
proof -
  have *: "readItems allow_stale now m ks = Inr (items, False) \<longrightarrow> list_all (\<lambda>i. obs_status i = OS_Valid) items" for ks items
    by (induction ks arbitrary: items) (auto split: sum.splits)
  have "readItems allow_stale now m ks \<noteq> Inl SUCCESS" for ks
    by (induction ks) (auto simp: readItem_def Let_def split: sum.splits option.splits if_splits)
  then show ?thesis
    using assms * [of "sort keys"] by (auto simp: readLatest_def Let_def split: if_splits sum.splits)
qed


definition mixed_epochs :: "observation list \<Rightarrow> bool" where
  "mixed_epochs items \<longleftrightarrow> \<not> list_all (\<lambda>i. obs_commit_epoch i = obs_commit_epoch (hd items)) items"

section \<open>Properties\<close>

text \<open>The concrete input of the witnesses: one committed observation, nobody else at work.\<close>

definition quiet_data :: data_manager where
  "quiet_data =
    (let item = (witness_obs 3)\<lparr>obs_commit_epoch := 1\<rparr>
     in witness_base\<lparr>dm_commit_epoch := 1,
          dm_shards := [[], [(DataKey (EntityRef EK_Device 0 1) 7,
                              \<lparr>dt_latest = Some item, dt_last_valid = Some item, dt_history = [item]\<rparr>)]],
          dm_event_store := (dm_event_store witness_base)\<lparr>es_next_sequence := 3, es_stored_bytes := 369,
            es_events := es_events (dm_event_store witness_base) @ [event_of_draft 1 2 (commit_draft 1 item)]\<rparr>\<rparr>)"

definition quiet_run :: data_run where
  "quiet_run t = \<lparr>mo_now = 4 + int t, mo_data = quiet_data\<rparr>"

definition witness_engine :: query_engine where
  "witness_engine = \<lparr>qe_clock = True, qe_fresh_reads = None, qe_limits = \<lparr>ql_max_items = 4, ql_max_result_bytes = 1000\<rparr>\<rparr>"

definition witness_query :: query_request where
  "witness_query =
     \<lparr>qq_selection = [DataKey (EntityRef EK_Device 0 1) 7], qq_max_age_ns = 0, qq_read_policy = RP_CacheOnly,
      qq_consistency = QC_AtLeastEpoch, qq_allow_stale = False, qq_catalog_generation = 1, qq_required_epoch = 1,
      qq_max_result_items = 4, qq_max_result_bytes = 1000, qq_deadline = 50\<rparr>"

lemma quiet_data_eq: "witness_data [DM_commit [witness_obs 3]] = quiet_data"
  by code_simp

lemma quiet_run_ok: "data_run_ok witness_limits_ds quiet_run"
  unfolding data_run_ok_def
proof (intro conjI allI)
  show "\<exists>ops. data_reachable witness_limits_ds ops = Some (mo_data (quiet_run 0))"
    using witness_data_reachable [of "[DM_commit [witness_obs 3]]"] by (auto simp: quiet_run_def quiet_data_eq simp del: dm_step.simps)
  show "\<exists>ops. mo_data (quiet_run (t + 1)) = fold dm_step ops (mo_data (quiet_run t))" for t
    by (rule exI [of _ "[]"]) (simp add: quiet_run_def)
qed (simp add: quiet_run_def)

lemma quiet_run_forward: "fresh_forward witness_engine"
  by (simp add: fresh_forward_def witness_engine_def)

lemma quiet_query:
  "map_option (\<lambda>(r, t). (qr_status r, length (qr_items r), t)) (query_execute quiet_run witness_engine witness_query 0) =
     Some (SUCCESS, 1, 3)"
  by code_simp

lemma quiet_query_result:
  obtains r where "query_execute quiet_run witness_engine witness_query 0 = Some (r, 3)" "qr_status r = SUCCESS" "length (qr_items r) = 1"
  using quiet_query by (auto split: prod.splits)

text \<open>
  C8: A query returns one consistent view. Whatever other threads do meanwhile, the items of
  a result are a prefix of one atomic reading of the data manager at an instant between call
  and return, never a mixture of two; the epoch and generation reported are those of that
  reading. An at-least-epoch query returns no item older than the epoch, and a same-batch
  query returns items of one commit only.
\<close>

theorem query_consistent_snapshot:
  assumes "query_execute run e req t = Some (r, t')" "fresh_forward e" "qr_items r \<noteq> []"
  shows "\<exists>t1 s. t < t1 \<and> t1 + 1 \<le> t' \<and>
    s = readLatest (qq_selection req) (qq_allow_stale req) (mo_now (run t1)) (qq_catalog_generation req) (mo_data (run (t1 + 1))) \<and>
    drr_status s \<in> {SUCCESS, PARTIAL_RESULT} \<and> prefix (qr_items r) (drr_items s) \<and>
    qr_observed_commit_epoch r = dm_commit_epoch (mo_data (run (t1 + 1))) \<and>
    qr_catalog_generation r = dm_generation (mo_data (run (t1 + 1))) \<and> qr_required_items r = length (qq_selection req) \<and>
    (qq_consistency req = QC_AtLeastEpoch \<longrightarrow> list_all (\<lambda>i. qq_required_epoch req \<le> obs_commit_epoch i) (qr_items r)) \<and>
    (qq_consistency req = QC_SameBatch \<longrightarrow> list_all (\<lambda>i. obs_commit_epoch i = obs_commit_epoch (hd (qr_items r))) (qr_items r))"
proof -
  obtain s fs t1 where read: "r = query_finalize req s fs" "s = query_read run req t1" "t < t1" "t1 + 1 \<le> t'"
    "qq_consistency req = QC_AtLeastEpoch \<Longrightarrow> allItemsAtEpoch s (qq_required_epoch req)"
    by (rule execute_reads [OF assms]) (rule that)
  note items = finalize_items [OF assms(3) [unfolded read(1)], folded read(1)]
  have st: "drr_status s \<in> {SUCCESS, PARTIAL_RESULT}" using items(1) by (auto simp: isReadableStatus_def ok_def)
  have "length (drr_items s) = length (qq_selection req)"
    using readLatest_items(1) [OF st [unfolded read(2) query_read_def]]
    by (simp add: read(2) query_read_def list_all2_lengthD [symmetric])
  moreover have "drr_observed_commit_epoch s = dm_commit_epoch (mo_data (run (t1 + 1))) \<and>
      drr_catalog_generation s = dm_generation (mo_data (run (t1 + 1)))"
    using st by (auto simp: read(2) query_read_def readLatest_def Let_def split: if_splits sum.splits prod.splits)
  moreover obtain rest where rest: "drr_items s = qr_items r @ rest" using items(2) by (auto elim: prefixE)
  have "qq_consistency req = QC_AtLeastEpoch \<longrightarrow> list_all (\<lambda>i. qq_required_epoch req \<le> obs_commit_epoch i) (qr_items r)"
    using read(5) rest by (simp add: allItemsAtEpoch_def)
  moreover have "qq_consistency req = QC_SameBatch \<longrightarrow>
      list_all (\<lambda>i. obs_commit_epoch i = obs_commit_epoch (hd (qr_items r))) (qr_items r)"
    using items(7) rest assms(3) by simp
  ultimately show ?thesis
    using read(3,4) st items(2,4,5,6) by (intro exI [of _ t1] exI [of _ s]) (simp add: read(2) [unfolded query_read_def])
qed

theorem query_consistent_snapshot_witness:
  "\<exists>r t1. query_execute quiet_run witness_engine witness_query 0 = Some (r, 3) \<and> length (qr_items r) = 1 \<and>
     t1 \<le> 2 \<and> qr_observed_commit_epoch r = dm_commit_epoch (mo_data (quiet_run (t1 + 1)))"
proof -
  obtain r where r: "query_execute quiet_run witness_engine witness_query 0 = Some (r, 3)" "length (qr_items r) = 1"
    by (rule quiet_query_result)
  then have "qr_items r \<noteq> []" by auto
  from query_consistent_snapshot [OF r(1) quiet_run_forward this] r show ?thesis by auto
qed

text \<open>
  C24: A result is cut exactly where it must be. From a readable snapshot the items returned are
  a prefix that fits the item and byte limits of the request; if anything was left out, the
  result says so, carries BUFFER_TOO_SMALL and the total size needed, and one item more would
  not have fitted. Three snapshots give no items and no truncation: an unreadable one (its
  status is returned), one of several commit epochs for a SAME_BATCH request (UNAVAILABLE, and
  no byte count is computed), and one whose size exceeds \<open>size_t\<close> (RESOURCE_EXHAUSTED). The item
  count needed is always reported.
\<close>

theorem query_truncation_exact:
  "let r = query_finalize req s fs; bytes = sum_list (map itemBytes (drr_items s)) in
    qr_required_items r = length (drr_items s) \<and>
    (if \<not> isReadableStatus (drr_status s) then qr_items r = [] \<and> \<not> qr_truncated r \<and> qr_status r = drr_status s
     else if qq_consistency req = QC_SameBatch \<and> mixed_epochs (drr_items s)
     then qr_items r = [] \<and> \<not> qr_truncated r \<and> qr_status r = UNAVAILABLE \<and> qr_required_bytes r = 0
     else if bytes > size_max then qr_items r = [] \<and> \<not> qr_truncated r \<and> qr_status r = RESOURCE_EXHAUSTED
     else \<exists>rest. drr_items s = qr_items r @ rest \<and> fits req (qr_items r) \<and>
       (rest \<noteq> [] \<longrightarrow> \<not> fits req (qr_items r @ [hd rest])) \<and> qr_truncated r = (rest \<noteq> []) \<and>
       qr_status r = (if rest \<noteq> [] then BUFFER_TOO_SMALL else if isReadableStatus fs then drr_status s else fs) \<and>
       qr_required_bytes r = bytes)"
proof -
  let ?r = "query_finalize req s fs" and ?bytes = "sum_list (map itemBytes (drr_items s))"
  let ?mixed = "qq_consistency req = QC_SameBatch \<and> mixed_epochs (drr_items s)"
  obtain f n where n: "requiredBytes 0 (drr_items s) = (f, n)" by (cases rule: prod.exhaust)
  have f: "f = (?bytes \<le> size_max)" using requiredBytes_spec [OF n] by simp
  consider "\<not> isReadableStatus (drr_status s)" | "isReadableStatus (drr_status s)" ?mixed
    | "isReadableStatus (drr_status s)" "\<not> ?mixed" "?bytes > size_max"
    | "isReadableStatus (drr_status s)" "\<not> ?mixed" "?bytes \<le> size_max" by linarith
  then show ?thesis
  proof cases
    case 4
    have "qq_consistency req = QC_SameBatch \<Longrightarrow>
        list_all (\<lambda>i. obs_commit_epoch i = obs_commit_epoch (hd (drr_items s))) (drr_items s)"
      using 4(2) by (auto simp: mixed_epochs_def)
    note exact = finalize_exact [OF 4(1,3) this refl, of req fs]
    have "qr_required_items ?r = length (drr_items s)" by (rule exact)
    moreover have "\<exists>rest. drr_items s = qr_items ?r @ rest \<and> fits req (qr_items ?r) \<and>
       (rest \<noteq> [] \<longrightarrow> \<not> fits req (qr_items ?r @ [hd rest])) \<and> qr_truncated ?r = (rest \<noteq> []) \<and>
       qr_status ?r = (if rest \<noteq> [] then BUFFER_TOO_SMALL else if isReadableStatus fs then drr_status s else fs) \<and>
       qr_required_bytes ?r = ?bytes"
    proof (rule exact)
      fix rest
      assume rest: "drr_items s = qr_items ?r @ rest" "fits req (qr_items ?r)"
        "rest \<noteq> [] \<Longrightarrow> \<not> fits req (qr_items ?r @ [hd rest])" "qr_truncated ?r = (rest \<noteq> [])"
        "qr_status ?r = (if rest \<noteq> [] then BUFFER_TOO_SMALL else if isReadableStatus fs then drr_status s else fs)"
        "qr_required_bytes ?r = ?bytes"
      show ?thesis by (intro exI [of _ rest] conjI impI rest)
    qed
    moreover have "\<not> \<not> isReadableStatus (drr_status s)" "\<not> ?bytes > size_max" using 4 by simp_all
    ultimately show ?thesis using 4(2) unfolding Let_def by (simp only: if_not_P simp_thms)
  qed (use n f in \<open>auto simp: query_finalize_def mixed_epochs_def default_query_result_def Let_def\<close>)
qed

theorem query_truncation_exact_witness:
  "qr_items (query_finalize (witness_query\<lparr>qq_max_result_items := 1\<rparr>)
     \<lparr>drr_status = SUCCESS, drr_catalog_generation = 1, drr_observed_commit_epoch = 1, drr_items = [witness_obs 3, witness_obs 4]\<rparr>
     SUCCESS) = [witness_obs 3]"
proof -
  let ?s = "\<lparr>drr_status = SUCCESS, drr_catalog_generation = 1, drr_observed_commit_epoch = 1, drr_items = [witness_obs 3, witness_obs 4]\<rparr>"
  let ?q = "witness_query\<lparr>qq_max_result_items := 1\<rparr>"
  have "sum_list (map itemBytes (drr_items ?s)) \<le> size_max" by code_simp
  then obtain rest where "[witness_obs 3, witness_obs 4] = qr_items (query_finalize ?q ?s SUCCESS) @ rest"
    "fits ?q (qr_items (query_finalize ?q ?s SUCCESS))"
    "rest \<noteq> [] \<longrightarrow> \<not> fits ?q (qr_items (query_finalize ?q ?s SUCCESS) @ [hd rest])"
    using query_truncation_exact [of ?q ?s SUCCESS]
    by (auto simp: isReadableStatus_def ok_def witness_query_def Let_def)
  moreover have "fits ?q [witness_obs 3] \<and> \<not> fits ?q [witness_obs 3, witness_obs 4]" by code_simp
  ultimately show ?thesis by (cases "qr_items (query_finalize ?q ?s SUCCESS)") (auto simp: Cons_eq_append_conv append_eq_Cons_conv)
qed

text \<open>
  C25: A query returns. On every run whose clock passes the deadline, every request returns a
  result: neither the wait for the epoch nor the loop that waits for the items can go on
  forever, however many commits other threads make, because each round of the loop sees a
  larger epoch.
\<close>

theorem query_returns:
  assumes "data_run_ok l run" "qq_deadline req \<le> mo_now (run T)"
  shows "\<exists>r t'. query_execute run e req t = Some (r, t')"
  by (rule execute_total [OF assms(1) run_past_deadline [OF assms]])

theorem query_returns_witness:
  "\<exists>r t'. query_execute quiet_run witness_engine (witness_query\<lparr>qq_required_epoch := 9\<rparr>) 0 = Some (r, t')"
  by (rule query_returns [OF quiet_run_ok, of _ 46]) (simp add: witness_query_def quiet_run_def)

text \<open>
  C30: Success means fresh. Without a coordinator for fresh reads, a cache-or-fresh query of
  consistency BEST_EFFORT or SAME_BATCH that reports success returns only valid items, and each
  of them was within the age limit (the smaller of the metric's freshness and the requested age;
  none if both are zero or the metric is not in the catalog) at the clock reading the data was
  read with. AT_LEAST_EPOCH is excluded: there the loop that waits for the epoch reads the data
  again and does not repeat the age test.
\<close>

theorem cache_or_fresh_success_is_young:
  assumes "query_execute run e req t = Some (r, t')" "qe_fresh_reads e = None"
    and "qq_read_policy req = RP_CacheOrFresh" "qq_consistency req \<noteq> QC_AtLeastEpoch" "qr_status r = SUCCESS"
  shows "list_all (\<lambda>i. obs_status i = OS_Valid \<and> (\<exists>t2. t < t2 \<and> t2 \<le> t' \<and> young_at run req (mo_now (run (t + 1))) t2 i)) (qr_items r)"
proof -
  let ?s = "query_read run req (t + 1)"
  obtain keys t2 where keys: "keysNeedingFreshRead run req ?s (mo_now (run (t + 1))) (t + 2 + 1) = (keys, t2)"
    by (cases rule: prod.exhaust)
  have "query_serve run e req t = Some (r, t')"
    using assms(1,4,5) by (auto simp: query_execute_def Let_def default_query_result_def ok_def split: if_splits)
  then have serve: "(if \<not> isReadableStatus (drr_status ?s) then Some (query_finalize req ?s SUCCESS, t + 2)
      else if keys = [] then Some (query_finalize req ?s SUCCESS, t2)
      else Some (query_finalize req (query_read run req (t2 + 1)) UNAVAILABLE, t2 + 2)) = Some (r, t')"
    using keys assms(2,4) by (simp add: query_serve_def Let_def query_refresh_def split: if_splits del: One_nat_def)
  then have r: "r = query_finalize req ?s SUCCESS" "keys = []" "t' = t2"
    using finalize_SUCCESS [of req _ UNAVAILABLE] finalize_SUCCESS [of req ?s SUCCESS] assms(5)
    by (auto simp: isReadableStatus_def ok_def split: if_splits)
  note fin = finalize_SUCCESS [OF assms(5) [unfolded r(1)]]
  have loop: "fresh_loop run req (mo_now (run (t + 1))) (drr_items ?s) (t + 2 + 1) = ([], t2)"
    using keys assms(3) r(2) by (simp add: keysNeedingFreshRead_def del: One_nat_def)
  have "obs_status i = OS_Valid \<and> (\<exists>t2. t < t2 \<and> t2 \<le> t' \<and> young_at run req (mo_now (run (t + 1))) t2 i)"
    if i: "i \<in> set (drr_items ?s)" for i
  proof -
    have "obs_status i = OS_Valid" using readLatest_valid fin(2) i unfolding query_read_def by (simp add: list_all_iff)
    then obtain t3 where "t + 2 + 1 \<le> t3" "t3 \<le> t'" "young_at run req (mo_now (run (t + 1))) t3 i"
      using fresh_loop_Nil [of run req "mo_now (run (t + 1))" "drr_items ?s" "t + 2 + 1", unfolded loop fst_conv snd_conv] i r(3)
      by auto
    with \<open>obs_status i = OS_Valid\<close> show ?thesis by (intro conjI exI [of _ t3]) auto
  qed
  then show ?thesis using fin(3) r(1) by (simp add: list_all_iff)
qed

definition cached_query :: query_request where
  "cached_query = witness_query\<lparr>qq_consistency := QC_BestEffort, qq_required_epoch := 0\<rparr>"

lemma cached_query_result:
  obtains r where "query_execute quiet_run witness_engine (cached_query\<lparr>qq_read_policy := RP_CacheOrFresh\<rparr>) 0 = Some (r, 4)"
    "qr_status r = SUCCESS" "length (qr_items r) = 1"
proof -
  have "map_option (\<lambda>(r, t). (qr_status r, length (qr_items r), t))
      (query_execute quiet_run witness_engine (cached_query\<lparr>qq_read_policy := RP_CacheOrFresh\<rparr>) 0) = Some (SUCCESS, 1, 4)"
    by code_simp
  then show thesis using that by (auto split: prod.splits)
qed

theorem cache_or_fresh_success_is_young_witness:
  "\<exists>r. query_execute quiet_run witness_engine (cached_query\<lparr>qq_read_policy := RP_CacheOrFresh\<rparr>) 0 = Some (r, 4) \<and>
     length (qr_items r) = 1 \<and> list_all (\<lambda>i. obs_status i = OS_Valid) (qr_items r)"
proof -
  let ?q = "cached_query\<lparr>qq_read_policy := RP_CacheOrFresh\<rparr>"
  obtain r where r: "query_execute quiet_run witness_engine ?q 0 = Some (r, 4)" "qr_status r = SUCCESS" "length (qr_items r) = 1"
    by (rule cached_query_result)
  have "qe_fresh_reads witness_engine = None" "qq_read_policy ?q = RP_CacheOrFresh" "qq_consistency ?q \<noteq> QC_AtLeastEpoch"
    by (simp_all add: witness_engine_def cached_query_def)
  from cache_or_fresh_success_is_young [OF r(1) this r(2)] r show ?thesis by (auto simp: list_all_iff)
qed



end
