(* ===== verification/DataStore_Health.thy ===== *)
theory DataStore_Health
  imports DataStore_Commit
begin

text \<open>
  Results on the heartbeat evidence store and the health store of \<open>DataStore\<close>: evidence
  that a health result cites is never expired or evicted, identifiers and heartbeat tokens
  only grow, both stores stay within their limits, and a repeated commit of the same evidence
  is idempotent.
\<close>

section \<open>The evidence loops\<close>

lemma set_expireEvidence: "set (expireEvidence l h e es) \<subseteq> set es"
  by (auto simp: expireEvidence_def)

lemma expireEvidence_keeps:
  "c \<in> set es \<Longrightarrow> ev_evidence_id c = ev_evidence_id e \<or> is_referenced h (ev_evidence_id c) \<Longrightarrow>
   c \<in> set (expireEvidence l h e es)"
  by (auto simp: expireEvidence_def)

text \<open>What every eviction loop below does to a list: it removes elements, in place.\<close>

lemma subseq_erase_first: "subseq (erase_first P xs) xs"
  by (induction xs) auto

lemma sorted_wrt_subseq: "sorted_wrt R ys \<Longrightarrow> subseq xs ys \<Longrightarrow> sorted_wrt R xs"
proof (induction ys arbitrary: xs)
  case (Cons y ys)
  show ?case
  proof (cases "subseq xs ys")
    case False
    with Cons.prems(2) obtain zs where "xs = y # zs" "subseq zs ys"
      by (cases xs) (auto simp: subseq_Cons2_iff split: if_splits)
    with Cons.IH Cons.prems(1) show ?thesis by (auto dest: list_emb_set)
  qed (use Cons in auto)
qed (auto dest: list_emb_Nil2)

lemma evictEvidence_spec:
  assumes "evictEvidence l h n es = Some es'"
  shows "subseq es' es" and "length es' \<le> dl_max_evidence_items l"
    and "evidence_bytes es' \<le> dl_max_evidence_bytes l"
    and "\<And>c. c \<in> set es \<Longrightarrow> ev_evidence_id c = n \<or> is_referenced h (ev_evidence_id c) \<Longrightarrow> c \<in> set es'"
proof -
  have "subseq es' es \<and> length es' \<le> dl_max_evidence_items l \<and>
    evidence_bytes es' \<le> dl_max_evidence_bytes l \<and>
    (\<forall>c \<in> set es. ev_evidence_id c = n \<or> is_referenced h (ev_evidence_id c) \<longrightarrow> c \<in> set es')"
    using assms
  proof (induction l h n es rule: evictEvidence.induct)
    case (1 l h n es)
    let ?P = "\<lambda>c. ev_evidence_id c \<noteq> n \<and> \<not> is_referenced h (ev_evidence_id c)"
    show ?case
    proof (cases "length es > dl_max_evidence_items l \<or> evidence_bytes es > dl_max_evidence_bytes l")
      case True
      with "1.prems" obtain x where x: "find ?P es = Some x"
        by (subst (asm) evictEvidence.simps) (auto simp: Let_def split: option.splits)
      then have "evictEvidence l h n (erase_first ?P es) = Some es'"
        using "1.prems" True by (subst (asm) evictEvidence.simps) (auto simp: Let_def)
      note IH = "1.IH" [OF True refl x this]
      have "c \<in> set (erase_first ?P es)" if "c \<in> set es" "\<not> ?P c" for c
        using that by (induction es) auto
      with IH show ?thesis
        using subseq_order.trans [OF _ subseq_erase_first [of ?P es]] by blast
    next
      case False
      with "1.prems" show ?thesis by (subst (asm) evictEvidence.simps) auto
    qed
  qed
  then show "subseq es' es" "length es' \<le> dl_max_evidence_items l"
    "evidence_bytes es' \<le> dl_max_evidence_bytes l"
    "\<And>c. c \<in> set es \<Longrightarrow> ev_evidence_id c = n \<or> is_referenced h (ev_evidence_id c) \<Longrightarrow> c \<in> set es'" by blast+
qed

section \<open>Committing evidence\<close>

definition last_valid_evidence :: "entity_ref \<Rightarrow> heartbeat_evidence list \<Rightarrow> heartbeat_evidence option" where
  "last_valid_evidence entity es = find (\<lambda>c. ev_entity c = entity \<and> ev_status c = OS_Valid) (rev es)"

lemma evidence_commit_elim:
  assumes "commitHeartbeatEvidence e m = (r, m')"
  obtains (unchanged) "m' = m" "\<not> ecr_committed r"
  | (committed) staged new where
      "ecr_committed r" "ecr_status r = SUCCESS" "ecr_evidence_id r = dm_next_evidence_id m"
      "new = e\<lparr>ev_evidence_id := dm_next_evidence_id m\<rparr>"
      "validateFirmwareHeartbeatEvidence e = SUCCESS"
      "ev_catalog_generation e = dm_generation m" "ev_entity e \<in> set (cst_entities (dm_catalog m))"
      "dm_commit_epoch m \<noteq> u64_max" "dm_next_evidence_id m \<noteq> u64_max"
      "\<And>x. ev_status e = OS_Valid \<Longrightarrow>
         last_valid_evidence (ev_entity e) (dm_heartbeat_evidence m) = Some x \<Longrightarrow>
         ev_sequence_or_token x < ev_sequence_or_token e"
      "evictEvidence (dm_limits m) (dm_health m) (dm_next_evidence_id m)
         (expireEvidence (dm_limits m) (dm_health m) new (dm_heartbeat_evidence m @ [new])) = Some staged"
      "m' = m\<lparr>dm_next_evidence_id := dm_next_evidence_id m + 1, dm_commit_epoch := dm_commit_epoch m + 1,
         dm_heartbeat_evidence := staged,
         dm_latest_heartbeat := omap_put (ev_entity e) (dm_next_evidence_id m) (dm_latest_heartbeat m)\<rparr>"
proof (cases "ecr_committed r")
  case False
  then have "m' = m"
    using assms unfolding commitHeartbeatEvidence_def Let_def
    by (auto split: if_splits option.splits)
  with False show ?thesis by (rule unchanged [rotated])
next
  case True
  let ?new = "e\<lparr>ev_evidence_id := dm_next_evidence_id m\<rparr>"
  have g: "validateFirmwareHeartbeatEvidence e = SUCCESS"
      "ev_catalog_generation e = dm_generation m" "ev_entity e \<in> set (cst_entities (dm_catalog m))"
      "dm_commit_epoch m \<noteq> u64_max" "dm_next_evidence_id m \<noteq> u64_max"
    using assms True unfolding commitHeartbeatEvidence_def Let_def
    by (auto simp: ok_def split: if_splits)
  obtain staged where staged: "evictEvidence (dm_limits m) (dm_health m) (dm_next_evidence_id m)
      (expireEvidence (dm_limits m) (dm_health m) ?new (dm_heartbeat_evidence m @ [?new])) = Some staged"
    using assms True unfolding commitHeartbeatEvidence_def Let_def
    by (auto split: if_splits option.splits)
  have r: "r = \<lparr>ecr_status = SUCCESS, ecr_evidence_id = dm_next_evidence_id m,
        ecr_commit_epoch = dm_commit_epoch m + 1, ecr_committed = True\<rparr>"
    and m': "m' = m\<lparr>dm_next_evidence_id := dm_next_evidence_id m + 1, dm_commit_epoch := dm_commit_epoch m + 1,
         dm_heartbeat_evidence := staged,
         dm_latest_heartbeat := omap_put (ev_entity e) (dm_next_evidence_id m) (dm_latest_heartbeat m)\<rparr>"
    using assms True staged unfolding commitHeartbeatEvidence_def Let_def
    by (auto split: if_splits)
  have token: "ev_sequence_or_token x < ev_sequence_or_token e"
    if "ev_status e = OS_Valid" "last_valid_evidence (ev_entity e) (dm_heartbeat_evidence m) = Some x" for x
    using assms True that unfolding commitHeartbeatEvidence_def Let_def last_valid_evidence_def
    by (auto simp: not_le split: if_splits)
  show ?thesis
    by (rule committed [of ?new staged]) (use r m' g staged token in auto)
qed

section \<open>Invariant\<close>

text \<open>The valid heartbeats of one entity, in the order they were committed.\<close>

definition valid_tokens :: "entity_ref \<Rightarrow> heartbeat_evidence list \<Rightarrow> u64 list" where
  "valid_tokens entity es =
     map ev_sequence_or_token (filter (\<lambda>c. ev_entity c = entity \<and> ev_status c = OS_Valid) es)"

definition refs_stored :: "heartbeat_evidence list \<Rightarrow> health_result \<Rightarrow> bool" where
  "refs_stored es r \<longleftrightarrow> (\<forall>ref \<in> set (hr_evidence r). \<exists>c \<in> set es. evidence_matches r ref c)"

definition evidence_inv :: "data_manager \<Rightarrow> bool" where
  "evidence_inv m \<longleftrightarrow>
     dm_next_evidence_id m \<noteq> 0 \<and>
     sorted_wrt (<) (map ev_evidence_id (dm_heartbeat_evidence m)) \<and>
     (\<forall>c \<in> set (dm_heartbeat_evidence m). ev_evidence_id c \<noteq> 0 \<and> ev_evidence_id c < dm_next_evidence_id m) \<and>
     (\<forall>entity. sorted_wrt (<) (valid_tokens entity (dm_heartbeat_evidence m))) \<and>
     length (dm_heartbeat_evidence m) \<le> dl_max_evidence_items (dm_limits m) \<and>
     evidence_bytes (dm_heartbeat_evidence m) \<le> dl_max_evidence_bytes (dm_limits m)"

definition health_inv :: "data_manager \<Rightarrow> bool" where
  "health_inv m \<longleftrightarrow>
     omap_ok (dm_health m) \<and> length (dm_health m) \<le> dl_max_health_entries (dm_limits m) \<and>
     sum_list (map (healthResultBytes \<circ> snd) (dm_health m)) \<le> dl_max_health_bytes (dm_limits m) \<and>
     (\<forall>entity r. map_of (dm_health m) entity = Some r \<longrightarrow>
        hr_entity r = entity \<and> validateHealthResult r = SUCCESS \<and>
        hr_catalog_generation r = dm_generation m \<and> refs_stored (dm_heartbeat_evidence m) r)"

lemma valid_tokens_subseq: "subseq es' es \<Longrightarrow> subseq (valid_tokens e es') (valid_tokens e es)"
  unfolding valid_tokens_def by (intro subseq_map subseq_filter)

lemma find_rev_last:
  assumes "find P (rev xs) = None \<or> (\<exists>x. find P (rev xs) = Some x \<and> f x < f y)"
    and "sorted_wrt (<) (map f (filter P xs))"
  shows "sorted_wrt (<) (map f (filter P xs) @ [f y :: 'k::linorder])"
proof -
  have last: "find P (rev xs) = (if filter P xs = [] then None else Some (last (filter P xs)))"
    by (induction xs rule: rev_induct) auto
  have le: "z \<in> set zs \<Longrightarrow> sorted_wrt (<) (map f zs) \<Longrightarrow> f z \<le> f (last zs)" for z zs
    by (induction zs rule: rev_induct) (auto simp: sorted_wrt_append)
  have "f z < f y" if z: "z \<in> set (filter P xs)" for z
  proof -
    have "filter P xs \<noteq> []" using z by (cases "filter P xs") auto
    then have "f (last (filter P xs)) < f y" using assms(1) last by simp
    with le [OF z assms(2)] show ?thesis by (rule le_less_trans)
  qed
  with assms(2) show ?thesis by (simp add: sorted_wrt_append)
qed

lemma expire_subseq: "subseq (expireEvidence l h e es) es"
  by (simp add: expireEvidence_def subseq_filter_left)

lemma evidence_inv_commit:
  assumes inv: "evidence_inv m" and "commitHeartbeatEvidence e m = (r, m')"
  shows "evidence_inv m'"
  using assms(2)
proof (cases rule: evidence_commit_elim)
  case unchanged
  then show ?thesis using inv by simp
next
  case (committed staged new)
  let ?es = "dm_heartbeat_evidence m" and ?n = "dm_next_evidence_id m"
  note ev = evictEvidence_spec [OF committed(11)]
  have sub: "subseq staged (?es @ [new])"
    by (rule subseq_order.trans [OF ev(1) expire_subseq])
  have ids: "sorted_wrt (<) (map ev_evidence_id (?es @ [new]))"
    using inv committed(4) by (auto simp: evidence_inv_def sorted_wrt_append)
  have bound: "c \<in> set (?es @ [new]) \<Longrightarrow> ev_evidence_id c \<noteq> 0 \<and> ev_evidence_id c < ?n + 1" for c
    using inv committed(4,9) by (auto simp: evidence_inv_def less_inc_iff less_imp_le)
  have tokens: "sorted_wrt (<) (valid_tokens entity (?es @ [new]))" for entity
  proof (cases "ev_entity e = entity \<and> ev_status e = OS_Valid")
    case True
    let ?P = "\<lambda>c. ev_entity c = entity \<and> ev_status c = OS_Valid"
    have "find ?P (rev ?es) = None \<or>
        (\<exists>x. find ?P (rev ?es) = Some x \<and> ev_sequence_or_token x < ev_sequence_or_token new)"
      using committed(4,10) True by (cases "find ?P (rev ?es)") (auto simp: last_valid_evidence_def)
    from find_rev_last [OF this] inv True show ?thesis
      by (simp add: evidence_inv_def valid_tokens_def committed(4))
  next
    case False
    then show ?thesis using inv by (auto simp: evidence_inv_def valid_tokens_def committed(4))
  qed
  have "set staged \<subseteq> set (?es @ [new])" using list_emb_set [OF sub] by blast
  then have "\<forall>c \<in> set staged. ev_evidence_id c \<noteq> 0 \<and> ev_evidence_id c < ?n + 1" using bound by blast
  then show ?thesis
    using ev(2,3) sorted_wrt_subseq [OF ids subseq_map [OF sub]]
      sorted_wrt_subseq [OF tokens valid_tokens_subseq [OF sub]]
    by (simp add: evidence_inv_def committed(12) inc_nonzero [OF committed(9)])
qed

lemma refs_stored_referenced:
  assumes "(entity, r) \<in> set (dm_health m)" "ref \<in> set (hr_evidence r)"
  shows "is_referenced (dm_health m) (rf_evidence_id ref)"
  using assms by (auto simp: is_referenced_def list_ex_iff)

lemma health_inv_evidence_commit:
  assumes inv: "health_inv m" and "commitHeartbeatEvidence e m = (r, m')"
  shows "health_inv m'"
  using assms(2)
proof (cases rule: evidence_commit_elim)
  case unchanged
  then show ?thesis using inv by simp
next
  case (committed staged new)
  have "refs_stored staged x"
    if x: "map_of (dm_health m) entity = Some x" "refs_stored (dm_heartbeat_evidence m) x" for entity x
    unfolding refs_stored_def
  proof
    fix ref assume ref: "ref \<in> set (hr_evidence x)"
    then obtain c where c: "c \<in> set (dm_heartbeat_evidence m)" "evidence_matches x ref c"
      using x(2) by (auto simp: refs_stored_def)
    have "is_referenced (dm_health m) (ev_evidence_id c)"
      using refs_stored_referenced [OF map_of_SomeD [OF x(1)] ref] c(2) by (simp add: evidence_matches_def)
    then have "c \<in> set staged"
      using c(1) by (intro evictEvidence_spec(4) [OF committed(11)] expireEvidence_keeps) auto
    with c(2) show "\<exists>c \<in> set staged. evidence_matches x ref c" by blast
  qed
  with inv show ?thesis
    by (auto simp: health_inv_def committed(12))
qed

section \<open>Committing health\<close>

lemma checkReferences_SUCCESS:
  "checkReferences r es seen refs = SUCCESS \<Longrightarrow> \<forall>ref \<in> set refs. \<exists>c \<in> set es. evidence_matches r ref c"
  by (induction r es seen refs rule: checkReferences.induct)
    (auto split: if_splits dest: find_Some_D)

lemma checkReferences_status: "checkReferences r es seen refs \<in> {SUCCESS, INVALID_ARGUMENT, NOT_FOUND}"
  by (induction r es seen refs rule: checkReferences.induct) auto

text \<open>Whether committing \<open>r\<close> changes the health of its entity, as \<open>commitHealth\<close> decides it.\<close>

definition health_changes :: "health_result \<Rightarrow> data_manager \<Rightarrow> bool" where
  "health_changes r m =
     (case map_of (dm_health m) (hr_entity r) of
        None \<Rightarrow> isDeterminateHealth (hr_state r)
      | Some x \<Rightarrow> \<not> sameHealthState x r)"

definition previous_health :: "health_result \<Rightarrow> data_manager \<Rightarrow> health_state \<times> stable_health_code" where
  "previous_health r m =
     (case map_of (dm_health m) (hr_entity r) of
        None \<Rightarrow> (HS_Unknown, HC_HeartbeatMissing) | Some x \<Rightarrow> (hr_state x, hr_code x))"

lemma health_commit_elim:
  assumes "commitHealth r m = (res, m')"
  obtains (failed) "m' = m" "hcr_status res \<noteq> SUCCESS"
  | (committed)
      "validateHealthResult r = SUCCESS" "hr_catalog_generation r = dm_generation m"
      "hr_entity r \<in> set (cst_entities (dm_catalog m))" "dm_generation m \<noteq> 0"
      "\<forall>ref \<in> set (hr_evidence r). \<exists>c \<in> set (dm_heartbeat_evidence m). evidence_matches r ref c"
      "map_of (dm_health m) (hr_entity r) = None \<Longrightarrow> length (dm_health m) < dl_max_health_entries (dm_limits m)"
      "healthResultBytes r + sum_list (map (\<lambda>(e, x). if e \<noteq> hr_entity r then healthResultBytes x else 0) (dm_health m))
         \<le> dl_max_health_bytes (dm_limits m)"
      "dm_commit_epoch m \<noteq> u64_max"
      "res = \<lparr>hcr_status = SUCCESS, hcr_commit_epoch = dm_commit_epoch m + 1, hcr_state_changed = health_changes r m\<rparr>"
      "m' = m\<lparr>dm_commit_epoch := dm_commit_epoch m + 1, dm_health := omap_put (hr_entity r) r (dm_health m),
        dm_event_store :=
          (if health_changes r m
           then snd (EventStore_publish
                  (health_draft (fst (previous_health r m)) (snd (previous_health r m)) r) (dm_event_store m))
           else dm_event_store m)\<rparr>"
proof (cases "hcr_status res = SUCCESS")
  case False
  moreover from this have "m' = m"
    using assms unfolding commitHealth_def Let_def by (auto split: if_splits)
  ultimately show ?thesis by (rule failed [rotated])
next
  case True
  let ?refs = "checkReferences r (dm_heartbeat_evidence m) {} (hr_evidence r)"
  have g: "validateHealthResult r = SUCCESS" "hr_catalog_generation r = dm_generation m"
      "hr_entity r \<in> set (cst_entities (dm_catalog m))" "dm_generation m \<noteq> 0" "?refs = SUCCESS"
      "map_of (dm_health m) (hr_entity r) = None \<Longrightarrow> length (dm_health m) < dl_max_health_entries (dm_limits m)"
      "healthResultBytes r + sum_list (map (\<lambda>(e, x). if e \<noteq> hr_entity r then healthResultBytes x else 0) (dm_health m))
         \<le> dl_max_health_bytes (dm_limits m)"
      "dm_commit_epoch m \<noteq> u64_max"
    and res: "res = \<lparr>hcr_status = SUCCESS, hcr_commit_epoch = dm_commit_epoch m + 1, hcr_state_changed = health_changes r m\<rparr>"
    and m': "m' = m\<lparr>dm_commit_epoch := dm_commit_epoch m + 1, dm_health := omap_put (hr_entity r) r (dm_health m),
        dm_event_store :=
          (if health_changes r m
           then snd (EventStore_publish
                  (health_draft (fst (previous_health r m)) (snd (previous_health r m)) r) (dm_event_store m))
           else dm_event_store m)\<rparr>"
    using assms True unfolding commitHealth_def Let_def health_changes_def previous_health_def
    by (auto simp: ok_def not_le not_less split: if_splits option.splits)
  show ?thesis
    by (rule committed) (use g res m' checkReferences_SUCCESS [OF g(5)] in auto)
qed

lemma sum_list_put_replaces:
  fixes f :: "'v \<Rightarrow> nat"
  assumes "omap_ok m"
  shows "sum_list (map (f \<circ> snd) (omap_put k v m)) =
    f v + sum_list (map (\<lambda>(k', x). if k' \<noteq> k then f x else 0) m)"
  using assms
proof (induction m)
  case (Cons p m)
  then have ok: "omap_ok m" and gt: "\<forall>x\<in>fst ` set m. fst p < x"
    by (auto simp: omap_ok_def)
  have "sum_list (map (\<lambda>(k', x). if k' \<noteq> k then f x else 0) m) = sum_list (map (f \<circ> snd) m)"
    if "k \<le> fst p"
    using gt that by (intro arg_cong [of _ _ sum_list] map_cong) (auto split: prod.splits)
  with Cons.IH [OF ok] show ?case by (cases p) (auto simp: comp_def)
qed simp

lemma health_inv_commit:
  assumes inv: "health_inv m" and "commitHealth r m = (res, m')"
  shows "health_inv m'"
  using assms(2)
proof (cases rule: health_commit_elim)
  case failed
  then show ?thesis using inv by simp
next
  case committed
  have ok: "omap_ok (dm_health m)" using inv by (simp add: health_inv_def)
  have "length (omap_put (hr_entity r) r (dm_health m)) \<le> dl_max_health_entries (dm_limits m)"
    using inv committed(6) by (auto simp: length_omap_put [OF ok] health_inv_def)
  moreover have "sum_list (map (healthResultBytes \<circ> snd) (omap_put (hr_entity r) r (dm_health m)))
      \<le> dl_max_health_bytes (dm_limits m)"
    using committed(7) by (simp add: sum_list_put_replaces [OF ok])
  ultimately show ?thesis
    using inv committed(1,2,5)
    by (auto simp: health_inv_def committed(10) map_of_omap_put refs_stored_def)
qed

section \<open>All operations\<close>

definition store_inv :: "data_manager \<Rightarrow> bool" where
  "store_inv m \<longleftrightarrow> evidence_inv m \<and> health_inv m \<and> es_inv (dm_event_store m)"

lemma es_inv_fold_publish: "es_inv s \<Longrightarrow> es_inv (fold (\<lambda>o' s. snd (EventStore_publish (f o') s)) os s)"
  by (induction os arbitrary: s) (simp_all add: es_inv_publish)

lemma store_inv_step:
  assumes d: "data_inv m" and inv: "store_inv m"
  shows "store_inv (dm_step op m)"
proof (cases op)
  case (DM_activateCatalog v tc)
  have "DataManager_activateCatalog v tc m = (fst (DataManager_activateCatalog v tc m), dm_step op m)"
    by (simp add: DM_activateCatalog)
  then show ?thesis
  proof (cases rule: activate_elim)
    case (activated w tombs)
    show ?thesis
      using inv
      by (simp add: activated(7) store_inv_def evidence_inv_def health_inv_def es_inv_publish
          valid_tokens_def evidence_bytes_def)
  qed (use inv in simp)
next
  case (DM_commit os)
  have "shards_ok (dm_shards m)" using d by (simp add: data_inv_def)
  moreover have "DataManager_commit os m = (fst (DataManager_commit os m), dm_step op m)"
    by (simp add: DM_commit)
  ultimately show ?thesis
  proof (cases rule: data_commit_elim)
    case (committed staged)
    have "store_inv (m\<lparr>dm_shards := s, dm_commit_epoch := n,
        dm_event_store := fold (\<lambda>o' s. snd (EventStore_publish (f o') s)) os (dm_event_store m)\<rparr>)" for s n f
      using inv by (simp add: store_inv_def evidence_inv_def health_inv_def es_inv_fold_publish)
    then show ?thesis by (subst committed(14))
  qed (use inv in simp)
next
  case (DM_commitHeartbeatEvidence e)
  have eq: "commitHeartbeatEvidence e m = (fst (commitHeartbeatEvidence e m), dm_step op m)"
    by (simp add: DM_commitHeartbeatEvidence)
  have "dm_event_store (dm_step op m) = dm_event_store m"
    by (simp add: DM_commitHeartbeatEvidence commitHeartbeatEvidence_frame)
  with inv show ?thesis
    using evidence_inv_commit [OF _ eq] health_inv_evidence_commit [OF _ eq] by (simp add: store_inv_def)
next
  case (DM_commitHealth r)
  have eq: "commitHealth r m = (fst (commitHealth r m), dm_step op m)"
    by (simp add: DM_commitHealth)
  moreover have "evidence_inv (dm_step op m) \<and> es_inv (dm_event_store (dm_step op m))"
    using eq
    by (cases rule: health_commit_elim) (use inv in \<open>auto simp: store_inv_def evidence_inv_def es_inv_publish\<close>)
  ultimately show ?thesis
    using inv health_inv_commit by (auto simp: store_inv_def)
next
  case (DM_publishEvent x)
  then show ?thesis
    using inv es_inv_publish [of "dm_event_store m" x]
    by (auto simp: store_inv_def evidence_inv_def health_inv_def publishEvent_def split: prod.splits)
qed

lemma store_inv_start:
  assumes "ok (DataStoreLimits_validate l)"
  shows "store_inv (data_manager_start l)"
proof -
  have "ok (EventStoreLimits_validate \<lparr>el_max_events = dl_max_events l, el_max_bytes = dl_max_event_bytes l\<rparr>)"
    using assms by (auto simp: DataStoreLimits_validate_def EventStoreLimits_validate_def ok_def split: if_splits)
  then show ?thesis
    by (simp add: store_inv_def data_manager_start_def evidence_inv_def health_inv_def es_inv_init
        valid_tokens_def evidence_bytes_def)
qed

interpretation dms: component "data_manager_start l" dm_step
  "\<lambda>m. ok (DataStoreLimits_validate l) \<longrightarrow> data_inv m \<and> store_inv m" for l
  by unfold_locales (auto simp: data_inv_step store_inv_step data_inv_start store_inv_start)

text \<open>A data manager is an event source for its subscribers.\<close>

interpretation dmsrc: event_source eventsSince dm_step "\<lambda>m. data_inv m \<and> store_inv m"
proof
  fix m op assume "data_inv m \<and> store_inv m"
  then show "data_inv (dm_step op m) \<and> store_inv (dm_step op m)"
    by (simp add: data_inv_step store_inv_step)
qed (auto simp: eventsSince_def store_inv_def store.since_sorted store.since_above store.since_latest)

section \<open>Lookups\<close>

lemma map_of_put_same: "map_of (omap_put k v m) k = Some v"
  by (induction m) auto

lemma find_evidence_unique:
  assumes "sorted_wrt (<) (map ev_evidence_id es)" "c \<in> set es"
  shows "find_evidence (ev_evidence_id c) es = Some c"
  using assms by (induction es) (auto simp: find_evidence_def)

lemma data_reachable_store_inv: "data_reachable l ops = Some m \<Longrightarrow> store_inv m"
  using dms.inv_reach [of l ops] by (auto simp: data_reachable_def DataManager_def split: if_splits)

text \<open>The guards of \<open>commitHeartbeatEvidence\<close> that only look at the evidence and the catalog.\<close>

definition evidence_admissible :: "heartbeat_evidence \<Rightarrow> catalog_state \<Rightarrow> bool" where
  "evidence_admissible e cat \<longleftrightarrow>
     ev_evidence_id e = 0 \<and> ok (validateFirmwareHeartbeatEvidence e) \<and> cst_generation cat \<noteq> 0 \<and>
     \<not> cst_topology_unsupported cat \<and> ev_catalog_generation e = cst_generation cat \<and>
     ev_entity e \<in> set (cst_entities cat) \<and> cst_heartbeat_supported cat \<and>
     (\<exists>h. cst_heartbeat cat = Some h \<and> hc_provider_data_id h = Some (ev_provider_data_id e))"

lemma commit_admissible:
  "ecr_committed (fst (commitHeartbeatEvidence e m)) \<Longrightarrow> evidence_admissible e (dm_catalog m)"
  unfolding commitHeartbeatEvidence_def Let_def evidence_admissible_def
  by (auto split: if_splits option.splits)

lemma commit_duplicate:
  assumes "evidence_admissible e (dm_catalog m)" "dm_commit_epoch m \<noteq> u64_max" "dm_next_evidence_id m \<noteq> u64_max"
    and "map_of (dm_latest_heartbeat m) (ev_entity e) = Some i" "find_evidence i (dm_heartbeat_evidence m) = Some c"
    and "sameHeartbeatEvidence c e"
  shows "commitHeartbeatEvidence e m =
    (\<lparr>ecr_status = SUCCESS, ecr_evidence_id = ev_evidence_id c, ecr_commit_epoch = dm_commit_epoch m,
      ecr_committed = False\<rparr>, m)"
  using assms unfolding commitHeartbeatEvidence_def Let_def evidence_admissible_def by auto

lemma health_bytes_sum:
  "sum_list (map (\<lambda>(_, r). sizeof_EntityRef + healthResultBytes r) hs) =
     length hs * sizeof_EntityRef + sum_list (map (healthResultBytes \<circ> snd) hs)"
  by (induction hs) auto

lemma storedBytes_le:
  assumes "store_inv m" and "data_inv m" and "dm_limits m = l"
  shows "storedBytes m \<le> dl_max_total_bytes l + dl_max_evidence_bytes l + dl_max_health_bytes l +
    dl_max_health_entries l * sizeof_EntityRef"
proof -
  have "length (dm_health m) * sizeof_EntityRef \<le> dl_max_health_entries l * sizeof_EntityRef"
    using assms(1,3) by (intro mult_right_mono) (auto simp: store_inv_def health_inv_def)
  moreover have "evidence_bytes (dm_heartbeat_evidence m) \<le> dl_max_evidence_bytes l"
    and "sum_list (map (healthResultBytes \<circ> snd) (dm_health m)) \<le> dl_max_health_bytes l"
    and "shards_bytes (dm_shards m) \<le> dl_max_total_bytes l"
    using assms by (auto simp: store_inv_def evidence_inv_def health_inv_def data_inv_def)
  ultimately show ?thesis
    unfolding storedBytes_def health_bytes_sum evidence_bytes_def by linarith
qed

section \<open>Properties\<close>

text \<open>
  C5: Evidence that a stored health result cites is never lost: for every health result that
  can be read, each cited evidence can be fetched by its identifier, and what is fetched is
  the cited item (same entity, catalog generation, token, times and source), whatever was
  committed, expired or evicted since.
\<close>

theorem cited_evidence_retained:
  assumes "data_reachable l ops = Some m"
    and "hrr_result (readHealth entity required m) = Some r" and "ref \<in> set (hr_evidence r)"
  shows "\<exists>c. heartbeatEvidence (rf_evidence_id ref) m =
      \<lparr>err_status = SUCCESS, err_observed_commit_epoch = dm_commit_epoch m, err_evidence = Some c\<rparr> \<and>
      evidence_matches r ref c"
proof -
  have inv: "evidence_inv m" "health_inv m"
    using data_reachable_store_inv [OF assms(1)] by (simp_all add: store_inv_def)
  have r: "map_of (dm_health m) entity = Some r" and g: "dm_generation m \<noteq> 0"
    using assms(2)
    by (auto simp: readHealth_def Let_def entity_query_status_def split: if_splits option.splits)
  then have "refs_stored (dm_heartbeat_evidence m) r" "validateHealthResult r = SUCCESS"
    using inv(2) by (auto simp: health_inv_def)
  then obtain c where c: "c \<in> set (dm_heartbeat_evidence m)" "evidence_matches r ref c"
    and "evidenceRefValid ref"
    using assms(3) validateHealthResult_SUCCESS_D(6) by (auto simp: refs_stored_def list_all_iff)
  then have "rf_evidence_id ref \<noteq> 0" "rf_evidence_id ref = ev_evidence_id c"
    by (auto simp: evidenceRefValid_def evidence_matches_def)
  with c g inv(1) show ?thesis
    by (auto simp: heartbeatEvidence_def Let_def evidence_inv_def find_evidence_unique)
qed

definition witness_evidence :: "u64 \<Rightarrow> i64 \<Rightarrow> heartbeat_evidence" where
  "witness_evidence token t =
     \<lparr>ev_evidence_id = 0, ev_entity = EntityRef EK_Device 0 1, ev_provider_data_id = 9,
      ev_native_class = HB_Normal, ev_status = OS_Valid, ev_sequence_or_token = token,
      ev_source_sample_time_ns = Some t, ev_observed_monotonic_time_ns = t, ev_source = witness_source,
      ev_error = default_error, ev_catalog_generation = 1\<rparr>"

lemma witness_health_read:
  "hrr_result (readHealth (EntityRef EK_Device 0 1) 0
     (witness_data [DM_commitHeartbeatEvidence (witness_evidence 1 4), DM_commitHealth witness_health_result,
        DM_commitHeartbeatEvidence (witness_evidence 2 200), DM_commitHeartbeatEvidence (witness_evidence 3 400)])) =
   Some witness_health_result"
  by code_simp

theorem cited_evidence_retained_witness:
  "\<exists>c. heartbeatEvidence 1
     (witness_data [DM_commitHeartbeatEvidence (witness_evidence 1 4), DM_commitHealth witness_health_result,
        DM_commitHeartbeatEvidence (witness_evidence 2 200), DM_commitHeartbeatEvidence (witness_evidence 3 400)])
     = c \<and> err_status c = SUCCESS"
  using cited_evidence_retained [OF witness_data_reachable witness_health_read,
      of "hd (hr_evidence witness_health_result)"]
  by (auto simp: witness_health_result_def)

text \<open>
  In every reachable state the evidence store holds at most the configured items and
  bytes, identifiers increase strictly in commit order, and the heartbeat tokens of the
  valid evidence of an entity increase strictly; the health store is within its entry and
  byte limits and every stored result is valid and of the active catalog generation.
\<close>

theorem evidence_health_bounded:
  assumes "data_reachable l ops = Some m"
  shows "length (dm_heartbeat_evidence m) \<le> dl_max_evidence_items l \<and>
    evidence_bytes (dm_heartbeat_evidence m) \<le> dl_max_evidence_bytes l \<and>
    sorted_wrt (<) (map ev_evidence_id (dm_heartbeat_evidence m)) \<and>
    sorted_wrt (<) (valid_tokens entity (dm_heartbeat_evidence m)) \<and>
    length (dm_health m) \<le> dl_max_health_entries l \<and>
    sum_list (map (healthResultBytes \<circ> snd) (dm_health m)) \<le> dl_max_health_bytes l \<and>
    (\<forall>e r. map_of (dm_health m) e = Some r \<longrightarrow>
       ok (validateHealthResult r) \<and> hr_entity r = e \<and> hr_catalog_generation r = dm_generation m)"
  using data_reachable_store_inv [OF assms] data_reachable_inv [OF assms]
  by (auto simp: store_inv_def evidence_inv_def health_inv_def ok_def)

text \<open>
  Committing the same heartbeat evidence again is idempotent: it succeeds with the
  identifier of the first commit and changes nothing, as long as the counters are not
  exhausted.
\<close>

theorem evidence_commit_idempotent:
  assumes "data_reachable l ops = Some m"
    and "commitHeartbeatEvidence e m = (r, m')" and "ecr_committed r"
    and "dm_commit_epoch m' \<noteq> u64_max" and "dm_next_evidence_id m' \<noteq> u64_max"
  shows "commitHeartbeatEvidence e m' =
    (\<lparr>ecr_status = SUCCESS, ecr_evidence_id = ecr_evidence_id r, ecr_commit_epoch = dm_commit_epoch m',
      ecr_committed = False\<rparr>, m')"
  using assms(2)
proof (cases rule: evidence_commit_elim)
  case unchanged
  then show ?thesis using assms(3) by simp
next
  case (committed staged new)
  have inv: "evidence_inv m"
    using data_reachable_store_inv [OF assms(1)] by (simp add: store_inv_def)
  have inv': "evidence_inv m'" by (rule evidence_inv_commit [OF inv assms(2)])
  have "new \<in> set staged"
    by (intro evictEvidence_spec(4) [OF committed(11)] expireEvidence_keeps) (auto simp: committed(4))
  moreover have "dm_heartbeat_evidence m' = staged" by (simp add: committed(12))
  ultimately have find: "find_evidence (dm_next_evidence_id m) (dm_heartbeat_evidence m') = Some new"
    using inv' find_evidence_unique [of staged new] by (simp add: evidence_inv_def committed(4))
  have latest: "map_of (dm_latest_heartbeat m') (ev_entity e) = Some (dm_next_evidence_id m)"
    by (simp add: committed(12) map_of_put_same)
  have adm: "evidence_admissible e (dm_catalog m')"
    using commit_admissible [of e m] assms(2,3) by (simp add: committed(12))
  from commit_duplicate [OF adm assms(4,5) latest find] show ?thesis
    by (simp add: committed(3,4) sameHeartbeatEvidence_def)
qed

text \<open>
  A successful health commit is what is read back for the device, and it publishes a
  change event exactly when the state, code or limitations differ from the previous result
  (or, for a first result, when the state is determinate); otherwise the event store is
  untouched.
\<close>

theorem health_commit_exact:
  assumes "data_reachable l ops = Some m" and "commitHealth r m = (res, m')"
    and "hcr_status res = SUCCESS" and "cst_entities (dm_catalog m) = [e]"
  shows "readHealth (hr_entity r) 0 m' =
      \<lparr>hrr_status = SUCCESS, hrr_observed_commit_epoch = hcr_commit_epoch res, hrr_result = Some r\<rparr> \<and>
    hcr_state_changed res = health_changes r m \<and>
    dm_event_store m' =
      (if health_changes r m
       then es_step (health_draft (fst (previous_health r m)) (snd (previous_health r m)) r) (dm_event_store m)
       else dm_event_store m)"
  using assms(2)
proof (cases rule: health_commit_elim)
  case failed
  then show ?thesis using assms(3) by simp
next
  case committed
  have "hr_entity r = e" using committed(3) assms(4) by simp
  then show ?thesis
    using committed(4) assms(4)
    by (simp add: committed(9,10) readHealth_def Let_def entity_query_status_def sameLogicalEntity_def
        map_of_put_same es_step_def)
qed

text \<open>
  C23: In every reachable state the store is within its limits: at most \<open>max_keys\<close> keys, stored
  observations (current value, last valid value and history of every key) of at most
  \<open>max_total_bytes\<close> bytes, and a history of every key of at most
  \<open>max_history_samples_per_key\<close> samples, all valid, in order of observation time, none older
  than \<open>max_history_duration_ns\<close> before the newest. \<open>storedBytes\<close> also counts heartbeat evidence
  and health results, which have limits of their own: it is at most \<open>max_total_bytes\<close> plus
  \<open>max_evidence_bytes\<close>, \<open>max_health_bytes\<close> and one entity reference per health entry, and may
  exceed \<open>max_total_bytes\<close> alone.
\<close>

theorem data_limits_kept:
  assumes "data_reachable l ops = Some m"
  shows "keyCount m \<le> dl_max_keys l \<and> shards_bytes (dm_shards m) \<le> dl_max_total_bytes l \<and>
    storedBytes m \<le> dl_max_total_bytes l + dl_max_evidence_bytes l + dl_max_health_bytes l +
      dl_max_health_entries l * sizeof_EntityRef \<and>
    (\<forall>key h. DataManager_history key m = (SUCCESS, h) \<longrightarrow>
       length h \<le> dl_max_history_samples_per_key l \<and>
       sorted_wrt (\<lambda>x y. obs_time x \<le> obs_time y) h \<and>
       (\<forall>x \<in> set h. obs_status x = OS_Valid \<and> obs_key x = key \<and>
          obs_time (last h) - obs_time x \<le> dl_max_history_duration_ns l))"
proof -
  have inv: "data_inv m" and l: "dm_limits m = l" using data_reachable_inv [OF assms] by auto
  have hist: "history_ok_for l (dt_last_valid e) (dt_history e) \<and> (\<forall>x \<in> set (dt_history e). obs_key x = key)"
    if "lookup_shards (dm_shards m) key = Some e" for key e
    using inv that l by (auto simp: data_inv_def entry_ok_def obs_stored_def)
  have dur: "obs_time (last h) - obs_time x \<le> dl_max_history_duration_ns l"
    if h: "history_ok_for l v h" and x: "x \<in> set h" for v h x
  proof -
    have "last h \<in> set h" using x by (cases h) auto
    then obtain w where "v = Some w" "obs_time (last h) \<le> obs_time w"
      using h unfolding history_ok_for_def by blast
    moreover from this have "obs_time w - obs_time x \<le> dl_max_history_duration_ns l"
      using h x unfolding history_ok_for_def by fastforce
    ultimately show ?thesis by linarith
  qed
  have "length h \<le> dl_max_history_samples_per_key l \<and> sorted_wrt (\<lambda>x y. obs_time x \<le> obs_time y) h \<and>
      (\<forall>x \<in> set h. obs_status x = OS_Valid \<and> obs_key x = key \<and>
         obs_time (last h) - obs_time x \<le> dl_max_history_duration_ns l)"
    if read: "DataManager_history key m = (SUCCESS, h)" for key h
  proof -
    obtain e where "lookup_shards (dm_shards m) key = Some e" "h = dt_history e"
      using read by (auto simp: DataManager_history_def split: if_splits option.splits)
    with hist have "history_ok_for l (dt_last_valid e) h" "\<forall>x \<in> set h. obs_key x = key" by auto
    then show ?thesis using dur by (auto simp: history_ok_for_def)
  qed
  moreover have "keyCount m \<le> dl_max_keys l \<and> shards_bytes (dm_shards m) \<le> dl_max_total_bytes l"
    using inv l by (simp add: data_inv_def keyCount_def)
  moreover have "storedBytes m \<le> dl_max_total_bytes l + dl_max_evidence_bytes l + dl_max_health_bytes l +
      dl_max_health_entries l * sizeof_EntityRef"
    using data_reachable_store_inv [OF assms] inv l by (auto intro: storedBytes_le)
  ultimately show ?thesis by blast
qed

definition witness_limit_ops :: "dm_op list" where
  "witness_limit_ops =
     [DM_commit [witness_obs 1], DM_commit [witness_obs 2],
      DM_commitHeartbeatEvidence (witness_evidence 1 4), DM_commit [witness_obs 3]]"

theorem data_limits_kept_witness:
  "DataManager_history (DataKey (EntityRef EK_Device 0 1) 7) (witness_data witness_limit_ops)
   = (SUCCESS, [(witness_obs 2)\<lparr>obs_commit_epoch := 2\<rparr>, (witness_obs 3)\<lparr>obs_commit_epoch := 4\<rparr>]) \<and>
   keyCount (witness_data witness_limit_ops) \<le> 4 \<and>
   shards_bytes (dm_shards (witness_data witness_limit_ops)) < storedBytes (witness_data witness_limit_ops) \<and>
   storedBytes (witness_data witness_limit_ops) \<le> 15000 + sizeof_EntityRef"
proof (intro conjI)
  show "DataManager_history (DataKey (EntityRef EK_Device 0 1) 7) (witness_data witness_limit_ops)
   = (SUCCESS, [(witness_obs 2)\<lparr>obs_commit_epoch := 2\<rparr>, (witness_obs 3)\<lparr>obs_commit_epoch := 4\<rparr>])"
    by code_simp
  show "shards_bytes (dm_shards (witness_data witness_limit_ops)) < storedBytes (witness_data witness_limit_ops)"
    by code_simp
  have reach: "data_reachable witness_limits_ds
      (DM_activateCatalog (Some witness_view) witness_target # witness_limit_ops) =
      Some (witness_data witness_limit_ops)"
    by (rule witness_data_reachable)
  show "keyCount (witness_data witness_limit_ops) \<le> 4"
    and "storedBytes (witness_data witness_limit_ops) \<le> 15000 + sizeof_EntityRef"
    using data_limits_kept [OF reach] by (simp_all add: witness_limits_ds_def)
qed

end
