(* ===== verification/Processor_Graph.thy ===== *)
theory Processor_Graph
  imports Catalog
begin

text \<open>
  \<open>src/product/src/metrics/processor.*\<close>, the dependency graph of derived metrics:
  \<open>ProcessorGraph::rebuild\<close> checks a set of processors against the catalog and orders them
  so that every processor runs after the ones whose outputs it reads. A \<open>MetricProcessor\<close> is
  an interface: a record of its five methods.
\<close>

section \<open>Processors\<close>

record processor_metric =
  pm_metric :: metric_id
  pm_semantic_version :: u32

record processor_context =
  pc_entity :: entity_ref
  pc_catalog_generation :: u64
  pc_evaluated_monotonic_time_ns :: i64
  pc_derivation_depth :: u8

record processor_evaluation =
  pe_status :: pdcm_status
  pe_outputs :: "observation list"

record metric_processor =
  mp_id :: string
  mp_version :: u32
  mp_inputs :: "processor_metric list"
  mp_outputs :: "processor_metric list"
  mp_evaluate :: "processor_context \<Rightarrow> observation list \<Rightarrow> processor_evaluation"

record processor_graph_node =
  pn_processor :: metric_processor
  pn_depth :: u8

record processor_graph_snapshot =
  gs_catalog_generation :: u64
  gs_nodes :: "processor_graph_node list"

definition ProcessorGraph :: processor_graph_snapshot where
  "ProcessorGraph = \<lparr>gs_catalog_generation = 0, gs_nodes = []\<rparr>"

section \<open>Checking processors against the catalog\<close>

definition graph_descriptors :: "target_catalog \<Rightarrow> (metric_id, metric_descriptor) omap" where
  "graph_descriptors tc = fold (\<lambda>d m. omap_emplace (md_id d) d m) (tc_metrics tc) []"

fun check_inputs ::
  "(metric_id, metric_descriptor) omap \<Rightarrow> metric_id set \<Rightarrow> processor_metric list \<Rightarrow> bool" where
  "check_inputs ds seen [] = True"
| "check_inputs ds seen (i # inputs) =
    (if pm_metric i = 0 \<or> pm_semantic_version i = 0 \<or> pm_metric i \<in> seen \<or>
        (case map_of ds (pm_metric i) of None \<Rightarrow> True
         | Some d \<Rightarrow> md_semantic_version d \<noteq> pm_semantic_version i)
     then False
     else check_inputs ds (insert (pm_metric i) seen) inputs)"

fun check_outputs ::
  "(metric_id, metric_descriptor) omap \<Rightarrow> processor_metric list \<Rightarrow> nat \<Rightarrow> metric_id set \<Rightarrow>
   (metric_id, nat) omap \<Rightarrow> processor_metric list \<Rightarrow> pdcm_status + (metric_id, nat) omap" where
  "check_outputs ds inputs index seen producers [] = Inr producers"
| "check_outputs ds inputs index seen producers (out # outs) =
    (case map_of ds (pm_metric out) of
       None \<Rightarrow> Inl UNSUPPORTED
     | Some d \<Rightarrow>
        if pm_metric out = 0 \<or> pm_semantic_version out = 0 \<or> pm_metric out \<in> seen \<or>
           md_collection_mode d \<noteq> CM_Derived \<or> md_semantic_version d \<noteq> pm_semantic_version out
        then Inl UNSUPPORTED
        else if map_of producers (pm_metric out) \<noteq> None then Inl INVALID_ARGUMENT
        else if sort (md_dependencies d) \<noteq> sort (map pm_metric inputs) then Inl UNSUPPORTED
        else check_outputs ds inputs index (insert (pm_metric out) seen)
               (omap_emplace (pm_metric out) index producers) outs)"

fun scan_processors ::
  "(metric_id, metric_descriptor) omap \<Rightarrow> string set \<Rightarrow> (metric_id, nat) omap \<Rightarrow> nat \<Rightarrow>
   metric_processor option list \<Rightarrow> pdcm_status + (metric_id, nat) omap" where
  "scan_processors ds ids producers index [] = Inr producers"
| "scan_processors ds ids producers index (None # ps) = Inl INVALID_ARGUMENT"
| "scan_processors ds ids producers index (Some p # ps) =
    (if mp_id p = [] \<or> mp_version p = 0 \<or> mp_id p \<in> ids then Inl INVALID_ARGUMENT
     else if mp_inputs p = [] \<or> mp_outputs p = [] then Inl INVALID_ARGUMENT
     else if \<not> check_inputs ds {} (mp_inputs p) then Inl UNSUPPORTED
     else case check_outputs ds (mp_inputs p) index {} producers (mp_outputs p) of
       Inl st \<Rightarrow> Inl st
     | Inr producers \<Rightarrow> scan_processors ds (insert (mp_id p) ids) producers (index + 1) ps)"

section \<open>Ordering\<close>

text \<open>
  The producers a consumer reads from: each once, in the order of the inputs. \<open>edges\<close> lists,
  for a producer, its consumers in index order.
\<close>

definition predecessors :: "(metric_id, nat) omap \<Rightarrow> metric_processor \<Rightarrow> nat list" where
  "predecessors producers p = remdups (List.map_filter (\<lambda>i. map_of producers (pm_metric i)) (mp_inputs p))"

definition graph_edges :: "(metric_id, nat) omap \<Rightarrow> metric_processor list \<Rightarrow> nat list list" where
  "graph_edges producers ps =
     map (\<lambda>index. filter (\<lambda>consumer. index \<in> set (predecessors producers (ps ! consumer))) [0..<length ps])
       [0..<length ps]"

definition graph_indegree :: "(metric_id, nat) omap \<Rightarrow> metric_processor list \<Rightarrow> size_t list" where
  "graph_indegree producers ps = map (\<lambda>p. length (predecessors producers p)) ps"

record graph_work =
  gw_ready :: "(string \<times> nat) list"
  gw_depth :: "u8 list"
  gw_indegree :: "size_t list"
  gw_nodes :: "(nat \<times> u8) list"

text \<open>\<open>ready\<close> is a \<open>std::set\<close> of pairs: the sorted list of its elements.\<close>

definition graph_work_start :: "string list \<Rightarrow> size_t list \<Rightarrow> graph_work" where
  "graph_work_start ids indegree =
     \<lparr>gw_ready = fold (\<lambda>index ready. if indegree ! index = 0 then insort_insert (ids ! index, index) ready else ready)
        [0..<length ids] [],
      gw_depth = replicate (length ids) 1, gw_indegree = indegree, gw_nodes = []\<rparr>"

text \<open>The inner loop: one consumer of the processor that was taken from \<open>ready\<close>.\<close>

definition relax :: "string list \<Rightarrow> nat \<Rightarrow> nat \<Rightarrow> graph_work \<Rightarrow> graph_work" where
  "relax ids index consumer w =
    (let depth = (gw_depth w)[consumer := max (gw_depth w ! consumer) (gw_depth w ! index + 1)];
         indegree = (gw_indegree w)[consumer := szsub (gw_indegree w ! consumer) 1]
     in w\<lparr>gw_depth := depth, gw_indegree := indegree,
          gw_ready := (if indegree ! consumer = 0 then insort_insert (ids ! consumer, consumer) (gw_ready w)
                       else gw_ready w)\<rparr>)"

text \<open>The outer loop, with fuel; \<open>None\<close> when the fuel runs out.\<close>

fun kahnLoop ::
  "nat \<Rightarrow> string list \<Rightarrow> nat list list \<Rightarrow> graph_work \<Rightarrow> (pdcm_status + (nat \<times> u8) list) option" where
  "kahnLoop 0 ids edges w = None"
| "kahnLoop (Suc fuel) ids edges w =
    (case gw_ready w of
       [] \<Rightarrow> Some (Inr (gw_nodes w))
     | (_, index) # ready \<Rightarrow>
        if gw_depth w ! index > 4 then Some (Inl UNSUPPORTED)
        else kahnLoop fuel ids edges
          (fold (relax ids index) (edges ! index)
            (w\<lparr>gw_ready := ready, gw_nodes := gw_nodes w @ [(index, gw_depth w ! index)]\<rparr>)))"

definition order_processors ::
  "(metric_id, nat) omap \<Rightarrow> metric_processor list \<Rightarrow> (pdcm_status + (nat \<times> u8) list) option" where
  "order_processors producers ps =
     kahnLoop (Suc (length ps)) (map mp_id ps) (graph_edges producers ps)
       (graph_work_start (map mp_id ps) (graph_indegree producers ps))"

text \<open>
  \<open>rebuild\<close>: the status and the published snapshot. The fuel never runs out (shown below), so
  the branch of \<open>None\<close> is not taken.
\<close>

definition ProcessorGraph_rebuild ::
  "target_catalog \<Rightarrow> u64 \<Rightarrow> metric_processor option list \<Rightarrow> processor_graph_snapshot \<Rightarrow>
   pdcm_status \<times> processor_graph_snapshot" where
  "ProcessorGraph_rebuild tc generation processors current =
    (if \<not> ok (TargetCatalog_validate tc) \<or> generation = 0 then (INVALID_ARGUMENT, current)
     else
      case scan_processors (graph_descriptors tc) {} [] 0 processors of
        Inl st \<Rightarrow> (st, current)
      | Inr producers \<Rightarrow>
         if list_ex (\<lambda>d. md_collection_mode d = CM_Derived \<and> map_of producers (md_id d) = None) (tc_metrics tc)
         then (UNSUPPORTED, current)
         else
          let ps = map the processors in
          case order_processors producers ps of
            None \<Rightarrow> (INTERNAL, current)
          | Some (Inl st) \<Rightarrow> (st, current)
          | Some (Inr nodes) \<Rightarrow>
             if length nodes \<noteq> length ps then (UNSUPPORTED, current)
             else if gs_catalog_generation current > generation then (STALE_GENERATION, current)
             else (SUCCESS, \<lparr>gs_catalog_generation = generation,
                      gs_nodes = map (\<lambda>(i, d). \<lparr>pn_processor = ps ! i, pn_depth = d\<rparr>) nodes\<rparr>))"

section \<open>The ordering loop\<close>

text \<open>Every processor below the bound is a node of the graph; an edge leads to a consumer.\<close>

definition preds :: "nat list list \<Rightarrow> nat \<Rightarrow> nat set" where
  "preds edges c = {p. p < length edges \<and> c \<in> set (edges ! p)}"

lemma finite_preds [simp]: "finite (preds edges c)"
  by (simp add: preds_def)

definition processed :: "graph_work \<Rightarrow> nat set" where
  "processed w = fst ` set (gw_nodes w)"

definition depth_ok :: "nat list list \<Rightarrow> nat set \<Rightarrow> u8 list \<Rightarrow> nat \<Rightarrow> bool" where
  "depth_ok edges P depth c \<longleftrightarrow>
     1 \<le> depth ! c \<and> (\<forall>p \<in> preds edges c \<inter> P. depth ! p < depth ! c) \<and>
     (depth ! c = 1 \<or> (\<exists>p \<in> preds edges c \<inter> P. depth ! c = depth ! p + 1))"

definition ready_set :: "string list \<Rightarrow> nat list list \<Rightarrow> nat set \<Rightarrow> (string \<times> nat) set" where
  "ready_set ids edges P =
     (\<lambda>i. (ids ! i, i)) ` {i. i < length ids \<and> i \<notin> P \<and> preds edges i \<subseteq> P}"

definition kahn_inv :: "string list \<Rightarrow> nat list list \<Rightarrow> graph_work \<Rightarrow> bool" where
  "kahn_inv ids edges w \<longleftrightarrow>
     distinct (map fst (gw_nodes w)) \<and> processed w \<subseteq> {..<length ids} \<and>
     length (gw_depth w) = length ids \<and> length (gw_indegree w) = length ids \<and>
     set (gw_ready w) = ready_set ids edges (processed w) \<and> distinct (gw_ready w) \<and>
     (\<forall>c < length ids. c \<notin> processed w \<longrightarrow> gw_indegree w ! c = card (preds edges c - processed w)) \<and>
     (\<forall>c < length ids. depth_ok edges (processed w) (gw_depth w) c) \<and>
     (\<forall>(i, d) \<in> set (gw_nodes w). d = gw_depth w ! i \<and> d \<le> 4) \<and>
     (\<forall>xs i zs. map fst (gw_nodes w) = xs @ i # zs \<longrightarrow> preds edges i \<subseteq> set xs)"

lemma distinct_insort_insert: "distinct xs \<Longrightarrow> distinct (insort_insert x xs)"
  by (simp add: insort_insert_key_def distinct_insort)

text \<open>What relaxing a list of consumers does to the work state, position by position.\<close>

definition relaxed :: "string list \<Rightarrow> nat \<Rightarrow> nat list \<Rightarrow> graph_work \<Rightarrow> graph_work \<Rightarrow> bool" where
  "relaxed ids index cs w w' \<longleftrightarrow>
     length (gw_depth w') = length (gw_depth w) \<and> length (gw_indegree w') = length (gw_indegree w) \<and>
     gw_nodes w' = gw_nodes w \<and> (distinct (gw_ready w) \<longrightarrow> distinct (gw_ready w')) \<and>
     (\<forall>c. gw_depth w' ! c =
        (if c \<in> set cs then max (gw_depth w ! c) (gw_depth w ! index + 1) else gw_depth w ! c)) \<and>
     (\<forall>c. gw_indegree w' ! c = (if c \<in> set cs then szsub (gw_indegree w ! c) 1 else gw_indegree w ! c)) \<and>
     set (gw_ready w') = set (gw_ready w) \<union> (\<lambda>c. (ids ! c, c)) ` {c \<in> set cs. szsub (gw_indegree w ! c) 1 = 0}"

lemma relaxed_one:
  "x < length (gw_depth w) \<Longrightarrow> length (gw_indegree w) = length (gw_depth w) \<Longrightarrow>
   relaxed ids index [x] w (relax ids index x w)"
  by (auto simp: relaxed_def relax_def Let_def distinct_insort_insert set_insort_insert nth_list_update)

lemma relaxed_Cons:
  assumes "relaxed ids index [x] w v" "relaxed ids index cs v w'" "x \<notin> set cs" "index \<noteq> x"
  shows "relaxed ids index (x # cs) w w'"
proof -
  have "{c \<in> set cs. szsub (gw_indegree v ! c) 1 = 0} = {c \<in> set cs. szsub (gw_indegree w ! c) 1 = 0}"
    using assms(1,3) by (auto simp: relaxed_def)
  with assms show ?thesis unfolding relaxed_def by auto
qed

lemma relax_fold:
  "distinct cs \<Longrightarrow> index \<notin> set cs \<Longrightarrow> set cs \<subseteq> {..<length (gw_depth w)} \<Longrightarrow>
   length (gw_indegree w) = length (gw_depth w) \<Longrightarrow> relaxed ids index cs w (fold (relax ids index) cs w)"
proof (induction cs arbitrary: w)
  case (Cons x cs)
  then have one: "relaxed ids index [x] w (relax ids index x w)" by (intro relaxed_one) auto
  have "relaxed ids index cs (relax ids index x w) (fold (relax ids index) cs (relax ids index x w))"
    using Cons one by (intro Cons.IH) (auto simp: relaxed_def)
  with relaxed_Cons [OF one] Cons.prems show ?case by simp
qed (simp add: relaxed_def)

text \<open>What the loop needs of the edges: in range and listed once per producer.\<close>

locale kahn_graph =
  fixes ids :: "string list" and edges :: "nat list list"
  assumes length_edges: "length edges = length ids"
    and edges_distinct: "p < length ids \<Longrightarrow> distinct (edges ! p)"
    and edges_bounded: "p < length ids \<Longrightarrow> set (edges ! p) \<subseteq> {..<length ids}"
begin

lemma preds_bounded: "preds edges c \<subseteq> {..<length ids}"
  by (auto simp: preds_def length_edges)

lemma ready_sets:
  assumes P: "index \<notin> P" "index < length ids" "preds edges index \<subseteq> P"
    and deg: "\<And>c. c < length ids \<Longrightarrow> c \<notin> P \<Longrightarrow> deg c = card (preds edges c - P)"
    and closed: "\<And>c. c \<in> P \<Longrightarrow> preds edges c \<subseteq> P"
  shows "ready_set ids edges (insert index P) =
    (ready_set ids edges P - {(ids ! index, index)}) \<union>
    (\<lambda>c. (ids ! c, c)) ` {c \<in> set (edges ! index). szsub (deg c) 1 = 0}"
proof -
  have edge: "c \<in> set (edges ! index) \<longleftrightarrow> index \<in> preds edges c" for c
    using P(2) by (simp add: preds_def length_edges)
  have new: "preds edges c \<subseteq> insert index P \<longleftrightarrow> szsub (deg c) 1 = 0"
    if c: "index \<in> preds edges c" "c < length ids" "c \<notin> P" for c
  proof -
    have "finite (preds edges c - P)" "index \<in> preds edges c - P" using c P(1) by auto
    then have "0 < card (preds edges c - P)" and
      "card (preds edges c - P) = 1 \<longleftrightarrow> preds edges c - P = {index}"
      by (auto simp: card_gt_0_iff card_1_singleton_iff) (metis Diff_iff singletonD singletonI)
    then have "szsub (deg c) 1 = 0 \<longleftrightarrow> preds edges c - P = {index}"
      using deg [OF c(2,3)] by (auto simp: szsub_def)
    then show ?thesis using c(1) P(1) by auto
  qed
  have cons: "c \<notin> P \<and> c \<noteq> index \<and> c < length ids" if "index \<in> preds edges c" for c
    using that closed [of c] P edge [of c] edges_bounded [OF P(2)] by auto
  have "c \<notin> insert index P \<and> preds edges c \<subseteq> insert index P \<longleftrightarrow>
      c \<noteq> index \<and> c \<notin> P \<and> preds edges c \<subseteq> P \<or> c \<in> set (edges ! index) \<and> szsub (deg c) 1 = 0"
    if "c < length ids" for c
  proof (cases "index \<in> preds edges c")
    case True
    then show ?thesis using cons [OF True] new [OF True] edge [of c] P(1) by auto
  next
    case False
    then show ?thesis using edge [of c] by auto
  qed
  moreover have "c \<in> set (edges ! index) \<Longrightarrow> c < length ids" for c using cons edge by blast
  ultimately have sets: "{i. i < length ids \<and> i \<notin> insert index P \<and> preds edges i \<subseteq> insert index P} =
      ({i. i < length ids \<and> i \<notin> P \<and> preds edges i \<subseteq> P} - {index}) \<union>
      {c \<in> set (edges ! index). szsub (deg c) 1 = 0}"
    by blast
  have inj: "inj (\<lambda>i. (ids ! i, i))" by (auto intro: injI)
  show ?thesis unfolding ready_set_def sets image_Un image_set_diff [OF inj] by simp
qed

lemma depth_step:
  assumes "\<And>c. c < length ids \<Longrightarrow> depth_ok edges P depth c" "c < length ids"
    and P: "index \<notin> P" "index < length ids" "depth ! index \<le> 4" "P \<subseteq> {..<length ids}"
    and closed: "\<And>c. c \<in> insert index P \<Longrightarrow> preds edges c \<subseteq> P"
    and depth': "\<And>c. depth' ! c = (if c \<in> set (edges ! index) then max (depth ! c) (depth ! index + 1) else depth ! c)"
  shows "depth_ok edges (insert index P) depth' c"
proof -
  have edge: "c \<in> set (edges ! index) \<longleftrightarrow> index \<in> preds edges c" for c
    using P(2) by (simp add: preds_def length_edges)
  have same: "depth' ! p = depth ! p" if "p \<in> insert index P" for p
    using closed [OF that] P(1) depth' [of p] edge [of p] by auto
  have "depth ! index \<noteq> - 1" using P(3) by (auto simp: word_order.extremum_unique)
  note inc = less_inc [OF this]
  have old: "depth_ok edges P depth c" by (rule assms(1) [OF assms(2)])
  show ?thesis
  proof (cases "index \<in> preds edges c")
    case False
    then show ?thesis
      using old same depth' [of c] edge [of c] by (auto simp: depth_ok_def)
  next
    case True
    then have d: "depth' ! c = max (depth ! c) (depth ! index + 1)" using depth' [of c] edge [of c] by simp
    show ?thesis
      using old same True d inc unfolding depth_ok_def max_def
      by (auto split: if_splits intro: less_le_trans order_trans less_imp_le)
  qed
qed

end

text \<open>One iteration of the outer loop.\<close>

definition take_next :: "string list \<Rightarrow> nat list list \<Rightarrow> graph_work \<Rightarrow> graph_work" where
  "take_next ids edges w = (let index = snd (hd (gw_ready w)) in
     fold (relax ids index) (edges ! index)
       (w\<lparr>gw_ready := tl (gw_ready w), gw_nodes := gw_nodes w @ [(index, gw_depth w ! index)]\<rparr>))"

context kahn_graph
begin

lemma edge_iff: "p < length ids \<Longrightarrow> c \<in> set (edges ! p) \<longleftrightarrow> p \<in> preds edges c"
  by (simp add: preds_def length_edges)

lemma kahn_inv_closed:
  assumes inv: "kahn_inv ids edges w" and "c \<in> processed w"
  shows "preds edges c \<subseteq> processed w"
proof -
  have "c \<in> set (map fst (gw_nodes w))" using assms(2) by (simp add: processed_def)
  then obtain xs zs where split: "map fst (gw_nodes w) = xs @ c # zs" by (meson split_list)
  then have "preds edges c \<subseteq> set xs" using inv unfolding kahn_inv_def by blast
  also have "set xs \<subseteq> set (map fst (gw_nodes w))" by (auto simp: split)
  finally show ?thesis by (simp add: processed_def)
qed

lemma next_index:
  assumes "kahn_inv ids edges w" "gw_ready w = (x, index) # ready"
  shows "x = ids ! index" "index < length ids" "index \<notin> processed w" "preds edges index \<subseteq> processed w"
proof -
  have "(x, index) \<in> ready_set ids edges (processed w)" using assms by (auto simp: kahn_inv_def)
  then show "x = ids ! index" "index < length ids" "index \<notin> processed w" "preds edges index \<subseteq> processed w"
    by (auto simp: ready_set_def)
qed

lemma next_relaxed:
  assumes inv: "kahn_inv ids edges w" and ready: "gw_ready w = (x, index) # ready"
  shows "relaxed ids index (edges ! index)
    (w\<lparr>gw_ready := ready, gw_nodes := gw_nodes w @ [(index, gw_depth w ! index)]\<rparr>) (take_next ids edges w)"
proof -
  note x = next_index [OF inv ready]
  have "index \<notin> set (edges ! index)" using edge_iff [OF x(2)] x(3,4) by auto
  moreover have "length (gw_depth w) = length ids" "length (gw_indegree w) = length ids"
    using inv by (auto simp: kahn_inv_def)
  ultimately show ?thesis
    unfolding take_next_def ready list.sel snd_conv Let_def
    using edges_distinct [OF x(2)] edges_bounded [OF x(2)] by (intro relax_fold) auto
qed

lemma next_indegree:
  assumes inv: "kahn_inv ids edges w" and ready: "gw_ready w = (x, index) # ready"
    and c: "c < length ids" "c \<notin> insert index (processed w)"
  shows "gw_indegree (take_next ids edges w) ! c = card (preds edges c - insert index (processed w))"
proof -
  note x = next_index [OF inv ready]
  have deg: "gw_indegree w ! c = card (preds edges c - processed w)" using inv c by (simp add: kahn_inv_def)
  have "preds edges c - insert index (processed w) = (preds edges c - processed w) - {index}" by auto
  then show ?thesis
    using next_relaxed [OF inv ready] deg edge_iff [OF x(2), of c] x(3)
    by (auto simp: relaxed_def szsub_def card_gt_0_iff Suc_le_eq)
qed

lemma kahn_inv_next:
  assumes inv: "kahn_inv ids edges w" and ready: "gw_ready w = (x, index) # ready"
    and shallow: "gw_depth w ! index \<le> 4"
  shows "kahn_inv ids edges (take_next ids edges w)"
proof -
  let ?P = "processed w" and ?w = "take_next ids edges w"
  note x = next_index [OF inv ready] and rel = next_relaxed [OF inv ready]
  have nodes: "gw_nodes ?w = gw_nodes w @ [(index, gw_depth w ! index)]" using rel by (simp add: relaxed_def)
  then have P': "processed ?w = insert index ?P" by (simp add: processed_def)
  have closed: "c \<in> insert index ?P \<Longrightarrow> preds edges c \<subseteq> ?P" for c
    using kahn_inv_closed [OF inv] x(4) by auto
  have depth': "gw_depth ?w ! c =
      (if c \<in> set (edges ! index) then max (gw_depth w ! c) (gw_depth w ! index + 1) else gw_depth w ! c)" for c
    using rel by (simp add: relaxed_def)
  have same: "gw_depth ?w ! c = gw_depth w ! c" if "c \<in> insert index ?P" for c
    using closed [OF that] x(3) depth' [of c] edge_iff [OF x(2), of c] by auto
  have "set ready = ready_set ids edges ?P - {(ids ! index, index)}" "distinct ready"
    using inv ready x(1) by (auto simp: kahn_inv_def)
  then have "distinct (gw_ready ?w) \<and> set (gw_ready ?w) = ready_set ids edges (insert index ?P)"
    using rel ready_sets [OF x(3,2,4), of "\<lambda>c. gw_indegree w ! c"] inv kahn_inv_closed [OF inv]
    by (simp add: relaxed_def kahn_inv_def)
  moreover have "depth_ok edges (insert index ?P) (gw_depth ?w) c" if "c < length ids" for c
    using inv that x shallow closed depth' by (intro depth_step [of ?P "gw_depth w"]) (auto simp: kahn_inv_def)
  moreover have "d = gw_depth ?w ! i \<and> d \<le> 4" if "(i, d) \<in> set (gw_nodes ?w)" for i d
  proof (cases "(i, d) \<in> set (gw_nodes w)")
    case True
    then have "i \<in> ?P" by (force simp: processed_def)
    with True inv same show ?thesis by (auto simp: kahn_inv_def)
  qed (use that same shallow in \<open>auto simp: nodes\<close>)
  moreover have "preds edges i \<subseteq> set xs" if "map fst (gw_nodes ?w) = xs @ i # zs" for xs i zs
  proof (cases zs rule: rev_cases)
    case Nil
    then show ?thesis using that x(4) by (auto simp: nodes processed_def)
  next
    case (snoc zs' z)
    then show ?thesis using that inv by (auto simp: nodes kahn_inv_def)
  qed
  ultimately show ?thesis
    unfolding kahn_inv_def P' using inv x rel next_indegree [OF inv ready]
    by (auto simp: nodes relaxed_def kahn_inv_def processed_def)
qed

end

context kahn_graph
begin

lemma kahnLoop_next:
  "gw_ready w = (x, index) # ready \<Longrightarrow>
   kahnLoop (Suc fuel) ids edges w =
     (if gw_depth w ! index > 4 then Some (Inl UNSUPPORTED) else kahnLoop fuel ids edges (take_next ids edges w))"
  by (simp add: take_next_def Let_def)

lemma kahnLoop_inv:
  "kahn_inv ids edges w \<Longrightarrow> kahnLoop fuel ids edges w = Some r \<Longrightarrow>
   \<exists>w'. kahn_inv ids edges w' \<and>
     (case r of Inr nodes \<Rightarrow> gw_ready w' = [] \<and> gw_nodes w' = nodes
      | Inl _ \<Rightarrow> \<exists>x index ready. gw_ready w' = (x, index) # ready \<and> 4 < gw_depth w' ! index)"
proof (induction fuel arbitrary: w)
  case (Suc fuel)
  show ?case
  proof (cases "gw_ready w")
    case Nil
    then show ?thesis using Suc.prems by auto
  next
    case (Cons xi ready)
    obtain x index where xi: "xi = (x, index)" by (cases xi)
    note ready = Cons [unfolded xi]
    show ?thesis
    proof (cases "4 < gw_depth w ! index")
      case True
      then show ?thesis using Suc.prems ready by (auto simp: kahnLoop_next [OF ready] simp del: kahnLoop.simps)
    next
      case False
      then have "kahn_inv ids edges (take_next ids edges w)"
        by (intro kahn_inv_next [OF Suc.prems(1) ready]) simp
      from Suc.IH [OF this] Suc.prems(2) False show ?thesis
        by (simp add: kahnLoop_next [OF ready] del: kahnLoop.simps)
    qed
  qed
qed simp

lemma nodes_bound: "kahn_inv ids edges w \<Longrightarrow> length (gw_nodes w) \<le> length ids"
proof -
  assume inv: "kahn_inv ids edges w"
  then have "card (set (map fst (gw_nodes w))) \<le> card {..<length ids}"
    by (intro card_mono) (auto simp: kahn_inv_def processed_def)
  then show ?thesis
    using inv distinct_card [of "map fst (gw_nodes w)"] by (simp add: kahn_inv_def)
qed

lemma kahnLoop_fuel:
  "kahn_inv ids edges w \<Longrightarrow> length ids < fuel + length (gw_nodes w) \<Longrightarrow> kahnLoop fuel ids edges w \<noteq> None"
proof (induction fuel arbitrary: w)
  case 0
  then show ?case using nodes_bound by fastforce
next
  case (Suc fuel)
  show ?case
  proof (cases "gw_ready w")
    case (Cons xi ready)
    obtain x index where xi: "xi = (x, index)" by (cases xi)
    have "gw_nodes (take_next ids edges w) = gw_nodes w @ [(index, gw_depth w ! index)]"
      using next_relaxed [OF Suc.prems(1) Cons [unfolded xi]] by (simp add: relaxed_def)
    then show ?thesis
      using Suc Cons xi kahn_inv_next [OF Suc.prems(1) Cons [unfolded xi]]
      by (auto simp: kahnLoop_next simp del: kahnLoop.simps)
  qed simp
qed

text \<open>A ranking of the nodes along the edges bounds the depths and rules out cycles.\<close>

lemma depth_le_rank:
  assumes inv: "kahn_inv ids edges w"
    and rank: "\<And>c p. c < length ids \<Longrightarrow> p \<in> preds edges c \<Longrightarrow> rank p < rank c" "\<And>c. c < length ids \<Longrightarrow> 1 \<le> rank c"
  shows "c < length ids \<Longrightarrow> unat (gw_depth w ! c) \<le> rank c"
proof (induction "rank c" arbitrary: c rule: less_induct)
  case less
  have "depth_ok edges (processed w) (gw_depth w) c" using inv less.prems by (simp add: kahn_inv_def)
  then consider "gw_depth w ! c = 1" | p where "p \<in> preds edges c" "p \<in> processed w" "gw_depth w ! c = gw_depth w ! p + 1"
    by (auto simp: depth_ok_def)
  then show ?case
  proof cases
    case 1
    then show ?thesis using rank(2) [OF less.prems] by simp
  next
    case (2 p)
    have "unat (gw_depth w ! p) \<le> rank p"
      using less.hyps rank(1) [OF less.prems 2(1)] preds_bounded 2(1) by blast
    moreover have "gw_depth w ! p \<noteq> - 1"
      using inv 2(2) by (force simp: kahn_inv_def processed_def word_order.extremum_unique)
    ultimately show ?thesis using rank(1) [OF less.prems 2(1)] 2(3) by (simp add: unat_inc)
  qed
qed

lemma ranked_complete:
  assumes inv: "kahn_inv ids edges w" and "gw_ready w = []"
    and rank: "\<And>c p. c < length ids \<Longrightarrow> p \<in> preds edges c \<Longrightarrow> rank p < (rank c :: nat)"
  shows "processed w = {..<length ids}"
proof (rule ccontr)
  assume "processed w \<noteq> {..<length ids}"
  then obtain k where "k < length ids \<and> k \<notin> processed w" using inv by (auto simp: kahn_inv_def)
  then obtain c where c: "c < length ids \<and> c \<notin> processed w"
    and least: "\<And>d. d < length ids \<and> d \<notin> processed w \<Longrightarrow> rank c \<le> rank d"
    using ex_has_least_nat [of "\<lambda>c. c < length ids \<and> c \<notin> processed w" k rank] by blast
  have "preds edges c \<subseteq> processed w"
  proof
    fix p assume p: "p \<in> preds edges c"
    then have "rank p < rank c" "p < length ids" using c rank preds_bounded by auto
    then show "p \<in> processed w" using least [of p] by (auto simp: not_le)
  qed
  then have "(ids ! c, c) \<in> ready_set ids edges (processed w)" using c by (auto simp: ready_set_def)
  then show False using inv assms(2) by (auto simp: kahn_inv_def)
qed

end

section \<open>The graph of a set of processors\<close>

interpretation graph: kahn_graph "map mp_id ps" "graph_edges producers ps" for ps producers
  by unfold_locales (auto simp: graph_edges_def)

definition producers_bounded :: "(metric_id, nat) omap \<Rightarrow> metric_processor list \<Rightarrow> bool" where
  "producers_bounded producers ps \<longleftrightarrow> (\<forall>m j. map_of producers m = Some j \<longrightarrow> j < length ps)"

lemma set_predecessors:
  "set (predecessors producers p) = {j. \<exists>i \<in> set (mp_inputs p). map_of producers (pm_metric i) = Some j}"
  by (force simp: predecessors_def map_filter_def)

lemma preds_graph_edges:
  "producers_bounded producers ps \<Longrightarrow> c < length ps \<Longrightarrow>
   preds (graph_edges producers ps) c = set (predecessors producers (ps ! c))"
  by (auto simp: preds_def graph_edges_def producers_bounded_def set_predecessors)

lemma ready_start:
  "set (fold (\<lambda>index ready. if f index then insort_insert (ids ! index, index) ready else ready) is r) =
     set r \<union> (\<lambda>i. (ids ! i, i)) ` {i \<in> set is. f i} \<and>
   (distinct r \<longrightarrow> distinct (fold (\<lambda>index ready. if f index then insort_insert (ids ! index, index) ready else ready) is r))"
  by (induction "is" arbitrary: r) (auto simp: set_insort_insert distinct_insort_insert)

lemma kahn_inv_start:
  assumes "producers_bounded producers ps"
  shows "kahn_inv (map mp_id ps) (graph_edges producers ps)
    (graph_work_start (map mp_id ps) (graph_indegree producers ps))"
proof -
  let ?E = "graph_edges producers ps"
  have deg: "graph_indegree producers ps ! c = card (preds ?E c)" if "c < length ps" for c
  proof -
    have "card (set (predecessors producers (ps ! c))) = length (predecessors producers (ps ! c))"
      by (rule distinct_card) (simp add: predecessors_def)
    then show ?thesis using that preds_graph_edges [OF assms that] by (simp add: graph_indegree_def)
  qed
  then have "{i \<in> {0..<length ps}. graph_indegree producers ps ! i = 0} = {i. i < length ps \<and> preds ?E i \<subseteq> {}}"
    by auto
  then show ?thesis
    using deg
    by (simp add: kahn_inv_def graph_work_start_def processed_def ready_set_def ready_start depth_ok_def graph_indegree_def)
qed

text \<open>What the checks of \<open>rebuild\<close> establish: \<open>producers\<close> maps every output to its processor.\<close>

lemma check_outputs_Inr:
  assumes "check_outputs ds inputs index seen producers outs = Inr producers'" "omap_ok producers"
  shows "omap_ok producers' \<and> (\<forall>m \<in> pm_metric ` set outs. map_of producers m = None) \<and>
    (\<forall>m. map_of producers' m = (if m \<in> pm_metric ` set outs then Some index else map_of producers m))"
  using assms
proof (induction outs arbitrary: seen producers)
  case (Cons out outs)
  then have new: "map_of producers (pm_metric out) = None"
    and rec: "check_outputs ds inputs index (insert (pm_metric out) seen)
      (omap_emplace (pm_metric out) index producers) outs = Inr producers'"
    by (auto split: option.splits if_splits)
  from Cons.IH [OF rec] Cons.prems(2) new show ?case
    by (auto simp: map_of_omap_emplace split: if_splits)
qed simp

definition produces :: "metric_processor option list \<Rightarrow> nat \<Rightarrow> metric_id \<Rightarrow> bool" where
  "produces ps i m \<longleftrightarrow> i < length ps \<and> m \<in> pm_metric ` set (mp_outputs (the (ps ! i)))"

lemma produces_Cons:
  "produces (p # ps) i m \<longleftrightarrow>
     (case i of 0 \<Rightarrow> m \<in> pm_metric ` set (mp_outputs (the p)) | Suc i \<Rightarrow> produces ps i m)"
  by (cases i) (auto simp: produces_def)

lemma scan_processors_Inr:
  assumes "scan_processors ds ids producers k ps = Inr producers'" "omap_ok producers"
  shows "None \<notin> set ps \<and>
    (\<forall>m j. map_of producers' m = Some j \<longleftrightarrow> map_of producers m = Some j \<or> (\<exists>i. j = k + i \<and> produces ps i m))"
  using assms
proof (induction ds ids producers k ps rule: scan_processors.induct)
  case (1 ds ids producers index)
  then show ?case by (simp add: produces_def)
next
  case (3 ds ids producers index p ps)
  then obtain mid where mid: "check_outputs ds (mp_inputs p) index {} producers (mp_outputs p) = Inr mid"
    and rec: "scan_processors ds (insert (mp_id p) ids) mid (index + 1) ps = Inr producers'"
    by (auto split: if_splits sum.splits)
  note out = check_outputs_Inr [OF mid 3(3)]
  have guards: "\<not> (mp_id p = [] \<or> mp_version p = 0 \<or> mp_id p \<in> ids)" "\<not> (mp_inputs p = [] \<or> mp_outputs p = [])"
    "\<not> \<not> check_inputs ds {} (mp_inputs p)"
    using 3(2) by (auto split: if_splits)
  have IH: "None \<notin> set ps \<and> (\<forall>m j. map_of producers' m = Some j \<longleftrightarrow>
      map_of mid m = Some j \<or> (\<exists>i. j = (index + 1) + i \<and> produces ps i m))"
    using 3(1) [OF guards mid rec] out by blast
  have ex: "(\<exists>i. Q i) \<longleftrightarrow> Q 0 \<or> (\<exists>i. Q (Suc i))" for Q :: "nat \<Rightarrow> bool"
    by (metis not0_implies_Suc)
  have "(\<exists>i. j = index + i \<and> produces (Some p # ps) i m) \<longleftrightarrow>
      (j = index \<and> m \<in> pm_metric ` set (mp_outputs p)) \<or> (\<exists>i. j = (index + 1) + i \<and> produces ps i m)" for j m
    by (subst ex) (simp add: produces_Cons)
  then show ?case using IH out by (auto split: if_splits)
qed simp

lemma scan_producers:
  assumes "scan_processors ds {} [] 0 processors = Inr producers"
  shows "None \<notin> set processors" "map_of producers m = Some j \<longleftrightarrow> produces processors j m"
    "producers_bounded producers (map the processors)"
  using scan_processors_Inr [OF assms] by (auto simp: producers_bounded_def produces_def)

lemma order_total:
  "producers_bounded producers ps \<Longrightarrow> order_processors producers ps \<noteq> None"
  unfolding order_processors_def
  by (rule graph.kahnLoop_fuel [OF kahn_inv_start]) (simp_all add: graph_work_start_def)

lemma order_inv:
  assumes "producers_bounded producers ps" "order_processors producers ps = Some r"
  shows "\<exists>w. kahn_inv (map mp_id ps) (graph_edges producers ps) w \<and>
     (case r of Inr nodes \<Rightarrow> gw_ready w = [] \<and> gw_nodes w = nodes
      | Inl _ \<Rightarrow> \<exists>x index ready. gw_ready w = (x, index) # ready \<and> 4 < gw_depth w ! index)"
  by (rule graph.kahnLoop_inv [OF kahn_inv_start [OF assms(1)] assms(2) [unfolded order_processors_def]])

text \<open>The published order, in terms of the positions of the nodes.\<close>

lemma ordered_nodes:
  assumes inv: "kahn_inv (map mp_id ps) (graph_edges producers ps) w" and b: "producers_bounded producers ps"
    and len: "length (gw_nodes w) = length ps"
  shows "mset (map fst (gw_nodes w)) = mset [0..<length ps]"
    and "\<And>a b. a < length ps \<Longrightarrow> b < length ps \<Longrightarrow>
      fst (gw_nodes w ! b) \<in> set (predecessors producers (ps ! fst (gw_nodes w ! a))) \<Longrightarrow>
      b < a \<and> snd (gw_nodes w ! b) < snd (gw_nodes w ! a)"
    and "\<And>a. a < length ps \<Longrightarrow> 1 \<le> snd (gw_nodes w ! a) \<and> snd (gw_nodes w ! a) \<le> 4"
proof -
  let ?N = "map fst (gw_nodes w)" and ?E = "graph_edges producers ps"
  have d: "distinct ?N" and sub: "set ?N \<subseteq> {..<length ps}"
    using inv by (auto simp: kahn_inv_def processed_def)
  have "set ?N = {..<length ps}"
    by (rule card_subset_eq) (use d sub len distinct_card [OF d] in auto)
  then show "mset ?N = mset [0..<length ps]"
    using d by (subst set_eq_iff_mset_eq_distinct [symmetric]) auto
  have node: "fst (gw_nodes w ! a) < length ps" "fst (gw_nodes w ! a) \<in> processed w"
      "snd (gw_nodes w ! a) = gw_depth w ! fst (gw_nodes w ! a)" "snd (gw_nodes w ! a) \<le> 4" if "a < length ps" for a
  proof -
    have "gw_nodes w ! a \<in> set (gw_nodes w)" using that len by simp
    then show "fst (gw_nodes w ! a) < length ps" "fst (gw_nodes w ! a) \<in> processed w"
      "snd (gw_nodes w ! a) = gw_depth w ! fst (gw_nodes w ! a)" "snd (gw_nodes w ! a) \<le> 4"
      using inv by (auto simp: kahn_inv_def processed_def)
  qed
  have dok: "depth_ok ?E (processed w) (gw_depth w) c" if "c < length ps" for c
    using inv that by (simp add: kahn_inv_def)
  show "1 \<le> snd (gw_nodes w ! a) \<and> snd (gw_nodes w ! a) \<le> 4" if "a < length ps" for a
    using node [OF that] dok by (auto simp: depth_ok_def)
  fix a b assume a: "a < length ps" and b': "b < length ps"
    and "fst (gw_nodes w ! b) \<in> set (predecessors producers (ps ! fst (gw_nodes w ! a)))"
  then have p: "fst (gw_nodes w ! b) \<in> preds ?E (fst (gw_nodes w ! a))"
    using preds_graph_edges [OF b node(1) [OF a]] by simp
  have "?N = take a ?N @ ?N ! a # drop (Suc a) ?N" using a len by (intro id_take_nth_drop) simp
  then have before: "preds ?E (?N ! a) \<subseteq> set (take a ?N)" using inv unfolding kahn_inv_def by blast
  have nth: "?N ! a = fst (gw_nodes w ! a)" "?N ! b = fst (gw_nodes w ! b)" using a b' len by simp_all
  have "?N ! b \<in> set (take a ?N)" using p subsetD [OF before] by (simp only: nth)
  then obtain k where "k < a" "?N ! k = ?N ! b" using a len by (auto simp: in_set_conv_nth)
  then have "b < a" using nth_eq_iff_index_eq [OF d, of k b] a b' len by simp
  moreover have "snd (gw_nodes w ! b) < snd (gw_nodes w ! a)"
    using p dok [OF node(1) [OF a]] node(2) [OF b'] node(3) [OF a] node(3) [OF b'] by (auto simp: depth_ok_def)
  ultimately show "b < a \<and> snd (gw_nodes w ! b) < snd (gw_nodes w ! a)" by simp
qed

text \<open>A ranking of the processors: what the depth limit of four asks for.\<close>

definition ranking :: "(metric_id, nat) omap \<Rightarrow> metric_processor list \<Rightarrow> (nat \<Rightarrow> nat) \<Rightarrow> bool" where
  "ranking producers ps rank \<longleftrightarrow>
    (\<forall>c < length ps. 1 \<le> rank c \<and> rank c \<le> 4 \<and> (\<forall>p \<in> set (predecessors producers (ps ! c)). rank p < rank c))"

lemma ranked_ordered:
  assumes b: "producers_bounded producers ps" and "ranking producers ps rank"
  shows "\<exists>nodes. order_processors producers ps = Some (Inr nodes) \<and> length nodes = length ps"
proof -
  obtain r where r: "order_processors producers ps = Some r" using order_total [OF b] by blast
  obtain w where inv: "kahn_inv (map mp_id ps) (graph_edges producers ps) w"
    and w: "case r of Inr nodes \<Rightarrow> gw_ready w = [] \<and> gw_nodes w = nodes
      | Inl _ \<Rightarrow> \<exists>x index ready. gw_ready w = (x, index) # ready \<and> 4 < gw_depth w ! index"
    using order_inv [OF b r] by blast
  have rank: "p \<in> preds (graph_edges producers ps) c \<Longrightarrow> rank p < rank c" "1 \<le> rank c" "rank c \<le> 4"
    if "c < length (map mp_id ps)" for c p
    using that assms preds_graph_edges [OF b] by (auto simp: ranking_def)
  show ?thesis
  proof (cases r)
    case (Inl st)
    with w obtain x index ready where i: "gw_ready w = (x, index) # ready" "4 < gw_depth w ! index" by auto
    then have "index < length (map mp_id ps)" using graph.next_index(2) [OF inv] by blast
    with graph.depth_le_rank [OF inv, of rank] rank have "unat (gw_depth w ! index) \<le> 4"
      by (meson order_trans)
    then show ?thesis using i(2) by (simp add: word_less_nat_alt)
  next
    case (Inr nodes)
    then have "processed w = {..<length (map mp_id ps)}"
      using w rank by (intro graph.ranked_complete [OF inv, of rank]) auto
    then have "length (gw_nodes w) = length ps"
      using inv distinct_card [of "map fst (gw_nodes w)"] by (simp add: kahn_inv_def processed_def)
    then show ?thesis using r Inr w by auto
  qed
qed

lemma ordered_ranked:
  assumes b: "producers_bounded producers ps"
    and "order_processors producers ps = Some (Inr nodes)" "length nodes = length ps"
  shows "\<exists>rank. ranking producers ps rank"
proof -
  obtain w where inv: "kahn_inv (map mp_id ps) (graph_edges producers ps) w" and w: "gw_nodes w = nodes"
    using order_inv [OF assms(1,2)] by auto
  have all: "processed w = {..<length ps}"
    by (rule card_subset_eq)
      (use inv w assms(3) distinct_card [of "map fst nodes"] in \<open>auto simp: kahn_inv_def processed_def\<close>)
  have "ranking producers ps (\<lambda>c. unat (gw_depth w ! c))"
    unfolding ranking_def
  proof (intro allI impI)
    fix c assume c: "c < length ps"
    have "depth_ok (graph_edges producers ps) (processed w) (gw_depth w) c" using inv c by (simp add: kahn_inv_def)
    moreover have "gw_depth w ! c \<le> 4"
    proof -
      have "c \<in> fst ` set (gw_nodes w)" using all c by (simp add: processed_def)
      then show ?thesis using inv by (auto simp: kahn_inv_def)
    qed
    moreover have "set (predecessors producers (ps ! c)) \<subseteq> processed w"
      using preds_graph_edges [OF b c] graph.preds_bounded [of producers ps c] all by auto
    ultimately show "1 \<le> unat (gw_depth w ! c) \<and> unat (gw_depth w ! c) \<le> 4 \<and>
        (\<forall>p \<in> set (predecessors producers (ps ! c)). unat (gw_depth w ! p) < unat (gw_depth w ! c))"
      using preds_graph_edges [OF b c] by (auto simp: depth_ok_def word_le_nat_alt word_less_nat_alt)
  qed
  then show ?thesis by blast
qed

lemma kahnLoop_Inl: "kahnLoop fuel ids edges w = Some (Inl st) \<Longrightarrow> st = UNSUPPORTED"
  by (induction fuel arbitrary: w) (auto split: list.splits prod.splits if_splits)

section \<open>Properties\<close>

definition feeds :: "processor_graph_node \<Rightarrow> processor_graph_node \<Rightarrow> bool" where
  "feeds a b \<longleftrightarrow>
     (\<exists>out \<in> set (mp_outputs (pn_processor a)). \<exists>i \<in> set (mp_inputs (pn_processor b)). pm_metric out = pm_metric i)"

lemma check_outputs_Inl: "check_outputs ds inputs index seen producers outs = Inl st \<Longrightarrow> st \<noteq> SUCCESS"
  by (induction outs arbitrary: seen producers) (auto simp: Let_def split: option.splits if_splits)

lemma scan_processors_Inl: "scan_processors ds ids producers index ps = Inl st \<Longrightarrow> st \<noteq> SUCCESS"
proof (induction ps arbitrary: ids producers index)
  case (Cons p ps)
  then show ?case by (cases p) (auto split: if_splits sum.splits dest: check_outputs_Inl)
qed simp

lemma order_processors_Inl: "order_processors producers ps = Some (Inl st) \<Longrightarrow> st = UNSUPPORTED"
  unfolding order_processors_def by (rule kahnLoop_Inl)

lemma rebuild_success:
  assumes "ProcessorGraph_rebuild tc g processors current = (SUCCESS, snap)"
  obtains producers nodes where "scan_processors (graph_descriptors tc) {} [] 0 processors = Inr producers"
    "order_processors producers (map the processors) = Some (Inr nodes)" "length nodes = length processors"
    "gs_nodes snap = map (\<lambda>(i, d). \<lparr>pn_processor = map the processors ! i, pn_depth = d\<rparr>) nodes"
    "gs_catalog_generation snap = g"
  using assms
  by (auto simp: ProcessorGraph_rebuild_def Let_def split: if_splits sum.splits option.splits
      dest: scan_processors_Inl order_processors_Inl)

text \<open>The concrete input of the witnesses: two derived metrics, the second listed first.\<close>

definition graph_metric :: "metric_id \<Rightarrow> string \<Rightarrow> metric_id list \<Rightarrow> metric_descriptor" where
  "graph_metric m name deps =
     \<lparr>md_id = m, md_name = name, md_value_type = MK_Uint64, md_unit = ''count'',
      md_temporality = MT_CumulativeCounter, md_scope = EK_Device,
      md_collection_mode = (if deps = [] then CM_Poll else CM_Derived),
      md_default_period_ns = 1, md_min_period_ns = 1, md_freshness_ns = 1, md_supports_fpga = True,
      md_supports_emu = True, md_requirement = RL_Required, md_semantic_version = 1,
      md_provider_mapping_approved = True, md_dependencies = deps\<rparr>"

definition graph_catalog :: target_catalog where
  "graph_catalog = (TargetCatalog_blocked TK_Fpga)
     \<lparr>tc_metrics_status := MC_Ready,
      tc_metrics := [graph_metric 1 ''a'' [], graph_metric 2 ''b'' [1], graph_metric 3 ''c'' [2]]\<rparr>"

definition witness_processor :: "string \<Rightarrow> metric_id \<Rightarrow> metric_id \<Rightarrow> metric_processor" where
  "witness_processor name i out =
     \<lparr>mp_id = name, mp_version = 1, mp_inputs = [\<lparr>pm_metric = i, pm_semantic_version = 1\<rparr>],
      mp_outputs = [\<lparr>pm_metric = out, pm_semantic_version = 1\<rparr>],
      mp_evaluate = (\<lambda>context items. \<lparr>pe_status = UNAVAILABLE, pe_outputs = []\<rparr>)\<rparr>"

definition witness_processors :: "metric_processor option list" where
  "witness_processors = [Some (witness_processor ''p'' 2 3), Some (witness_processor ''q'' 1 2)]"

lemma witness_rebuild: "fst (ProcessorGraph_rebuild graph_catalog 1 witness_processors ProcessorGraph) = SUCCESS"
  by code_simp

lemma witness_nodes:
  "map pn_depth (gs_nodes (snd (ProcessorGraph_rebuild graph_catalog 1 witness_processors ProcessorGraph))) = [1, 2]"
  by code_simp

text \<open>
  C21: A processor graph that is accepted is a valid evaluation order: the nodes are exactly the
  given processors, each once; a processor that produces an input of another comes earlier
  and has a smaller depth; and every depth is between one and four.
\<close>

theorem processor_graph_ordered:
  assumes "ProcessorGraph_rebuild tc g processors current = (SUCCESS, snap)"
  shows "mset (map pn_processor (gs_nodes snap)) = mset (map the processors) \<and>
    (\<forall>a < length (gs_nodes snap). 1 \<le> pn_depth (gs_nodes snap ! a) \<and> pn_depth (gs_nodes snap ! a) \<le> 4 \<and>
      (\<forall>b < length (gs_nodes snap). feeds (gs_nodes snap ! b) (gs_nodes snap ! a) \<longrightarrow>
        b < a \<and> pn_depth (gs_nodes snap ! b) < pn_depth (gs_nodes snap ! a)))"
proof -
  let ?ps = "map the processors"
  obtain producers nodes where scan: "scan_processors (graph_descriptors tc) {} [] 0 processors = Inr producers"
    and ord: "order_processors producers ?ps = Some (Inr nodes)" and len: "length nodes = length processors"
    and nodes: "gs_nodes snap = map (\<lambda>(i, d). \<lparr>pn_processor = ?ps ! i, pn_depth = d\<rparr>) nodes"
    by (rule rebuild_success [OF assms])
  note bounded = scan_producers(3) [OF scan]
  obtain w where inv: "kahn_inv (map mp_id ?ps) (graph_edges producers ?ps) w" and w: "gw_nodes w = nodes"
    using order_inv [OF bounded ord] by auto
  have "length (gw_nodes w) = length ?ps" by (simp add: w len)
  note facts = ordered_nodes [OF inv bounded this, unfolded w length_map]
  have "map pn_processor (gs_nodes snap) = map (\<lambda>i. ?ps ! i) (map fst nodes)"
    by (simp add: nodes case_prod_beta)
  then have "mset (map pn_processor (gs_nodes snap)) = mset (map (\<lambda>i. ?ps ! i) [0..<length ?ps])"
    using arg_cong [OF facts(1), of "image_mset (\<lambda>i. ?ps ! i)"] by (simp only: mset_map length_map)
  then have "mset (map pn_processor (gs_nodes snap)) = mset ?ps" by (simp only: map_nth)
  moreover have "fst (nodes ! b) \<in> set (predecessors producers (?ps ! fst (nodes ! a)))"
    if "feeds (gs_nodes snap ! b) (gs_nodes snap ! a)" "a < length nodes" "b < length nodes" for a b
  proof -
    have "set (map fst nodes) = {0..<length processors}"
      using mset_eq_setD [OF facts(1)] by (simp only: set_upt)
    then have "fst (nodes ! b) < length processors" using that(3) by auto
    then show ?thesis
      using that
      by (simp add: feeds_def nodes case_prod_beta set_predecessors scan_producers(2) [OF scan] produces_def image_iff)
        metis
  qed
  ultimately show ?thesis
    using facts(2,3) len by (intro conjI) (simp, auto simp: nodes case_prod_beta)
qed

theorem processor_graph_ordered_witness:
  "let snap = snd (ProcessorGraph_rebuild graph_catalog 1 witness_processors ProcessorGraph) in
   ProcessorGraph_rebuild graph_catalog 1 witness_processors ProcessorGraph = (SUCCESS, snap) \<and>
   mset (map pn_processor (gs_nodes snap)) = mset (map the witness_processors) \<and>
   map pn_depth (gs_nodes snap) = [1, 2]"
proof -
  have "ProcessorGraph_rebuild graph_catalog 1 witness_processors ProcessorGraph =
      (SUCCESS, snd (ProcessorGraph_rebuild graph_catalog 1 witness_processors ProcessorGraph))"
    by (simp only: witness_rebuild [symmetric] prod.collapse)
  from this processor_graph_ordered [OF this] witness_nodes show ?thesis by (simp only: Let_def simp_thms)
qed

text \<open>
  C22: Exactly the graphs without cycles and with chains of at most four processors are
  accepted. When the processors pass the checks against the catalog, rebuilding succeeds if
  and only if the processors can be ranked from one to four with every producer ranked below
  its consumers; otherwise it fails as unsupported and the published graph stays.
\<close>

theorem processor_graph_acceptance_exact:
  assumes "ok (TargetCatalog_validate tc)" and "g \<noteq> 0" and "gs_catalog_generation current \<le> g"
    and scan: "scan_processors (graph_descriptors tc) {} [] 0 processors = Inr producers"
    and "\<forall>d \<in> set (tc_metrics tc). md_collection_mode d = CM_Derived \<longrightarrow> map_of producers (md_id d) \<noteq> None"
  shows "if \<exists>rank. ranking producers (map the processors) rank
    then fst (ProcessorGraph_rebuild tc g processors current) = SUCCESS
    else ProcessorGraph_rebuild tc g processors current = (UNSUPPORTED, current)"
proof -
  let ?ps = "map the processors"
  have "\<not> list_ex (\<lambda>d. md_collection_mode d = CM_Derived \<and> map_of producers (md_id d) = None) (tc_metrics tc)"
    using assms(5) by (auto simp: list_ex_iff)
  then have eq: "ProcessorGraph_rebuild tc g processors current =
      (case order_processors producers ?ps of
         None \<Rightarrow> (INTERNAL, current)
       | Some (Inl st) \<Rightarrow> (st, current)
       | Some (Inr nodes) \<Rightarrow>
          if length nodes \<noteq> length ?ps then (UNSUPPORTED, current)
          else (SUCCESS, \<lparr>gs_catalog_generation = g,
                 gs_nodes = map (\<lambda>(i, d). \<lparr>pn_processor = ?ps ! i, pn_depth = d\<rparr>) nodes\<rparr>))"
    using assms(1-4) by (auto simp: ProcessorGraph_rebuild_def Let_def not_less split: option.splits sum.splits)
  note b = scan_producers(3) [OF scan]
  show ?thesis
  proof (cases "\<exists>rank. ranking producers ?ps rank")
    case True
    then obtain nodes where "order_processors producers ?ps = Some (Inr nodes)" "length nodes = length ?ps"
      using ranked_ordered [OF b] by blast
    then show ?thesis using True eq by simp
  next
    case False
    obtain r where r: "order_processors producers ?ps = Some r" using order_total [OF b] by blast
    have "\<And>st. r = Inl st \<Longrightarrow> st = UNSUPPORTED"
      using r order_processors_Inl by blast
    then show ?thesis using False eq r ordered_ranked [OF b] by (cases r) auto
  qed
qed

theorem processor_graph_acceptance_exact_witness:
  "ok (TargetCatalog_validate graph_catalog) \<and>
   scan_processors (graph_descriptors graph_catalog) {} [] 0 witness_processors = Inr [(2, 1), (3, 0)] \<and>
   (\<exists>rank. ranking [(2, 1), (3, 0)] (map the witness_processors) rank)"
proof -
  have "ok (TargetCatalog_validate graph_catalog)" by code_simp
  moreover have "scan_processors (graph_descriptors graph_catalog) {} [] 0 witness_processors = Inr [(2, 1), (3, 0)]"
    by code_simp
  moreover have "\<forall>d \<in> set (tc_metrics graph_catalog). md_collection_mode d = CM_Derived \<longrightarrow>
      map_of [(2, 1), (3, 0::nat)] (md_id d) \<noteq> None"
    by (simp add: graph_catalog_def graph_metric_def)
  moreover have "gs_catalog_generation ProcessorGraph \<le> 1" by (simp add: ProcessorGraph_def)
  ultimately show ?thesis
    using processor_graph_acceptance_exact [of graph_catalog 1 ProcessorGraph witness_processors "[(2, 1), (3, 0)]"]
      witness_rebuild by (auto split: if_splits)
qed

end
