(* ===== verification/Metrics_Manager.thy ===== *)
theory Metrics_Manager
  imports DataStore_Health Processor_Graph
begin

text \<open>
  \<open>src/product/src/metrics/metrics_manager.*\<close>: the manager that turns heartbeat evidence into
  health results. It keeps the device and the health entry of the active catalog; every result
  goes through the data manager, which checks it again. The clock is the argument \<open>now\<close>; the
  calls that one method makes to the data manager follow each other directly.
\<close>

section \<open>Requests and state\<close>

record health_request =
  hq_entity :: entity_ref
  hq_subsystem_id :: u32
  hq_catalog_generation :: u64
  hq_max_age_ns :: u64

record health_query_result =
  hqr_status :: pdcm_status
  hqr_item :: "health_result option"
  hqr_aggregate :: "health_result option"

record metrics_runtime =
  mr_catalog_generation :: u64
  mr_entity :: "entity_ref option"
  mr_heartbeat :: health_catalog_entry
  mr_heartbeat_supported :: bool

definition default_metrics_runtime :: metrics_runtime where
  "default_metrics_runtime =
     \<lparr>mr_catalog_generation = 0, mr_entity = None, mr_heartbeat = default_health_entry,
      mr_heartbeat_supported = False\<rparr>"

record metrics_manager =
  mm_runtime :: metrics_runtime
  mm_processors :: "metric_processor option list"
  mm_graph :: processor_graph_snapshot

definition MetricsManager :: "metric_processor option list \<Rightarrow> metrics_manager" where
  "MetricsManager processors =
     \<lparr>mm_runtime = default_metrics_runtime, mm_processors = processors, mm_graph = ProcessorGraph\<rparr>"

section \<open>Evaluation\<close>

definition evidenceReference :: "heartbeat_evidence \<Rightarrow> evidence_ref" where
  "evidenceReference e =
     \<lparr>rf_evidence_id = ev_evidence_id e, rf_sequence_or_token = ev_sequence_or_token e,
      rf_source_sample_time_ns = ev_source_sample_time_ns e,
      rf_observed_monotonic_time_ns = ev_observed_monotonic_time_ns e, rf_source = ev_source e\<rparr>"

definition effectiveFreshness :: "u64 \<Rightarrow> u64 \<Rightarrow> u64" where
  "effectiveFreshness catalog_freshness requested_max_age =
     (if requested_max_age = 0 then catalog_freshness else min catalog_freshness requested_max_age)"

definition default_health_result :: health_result where
  "default_health_result =
     \<lparr>hr_entity = EntityRef EK_Unknown 0 0, hr_subsystem_id = 0, hr_state = HS_Unknown,
      hr_item_status = OS_NotAvailable, hr_catalog_generation = 0, hr_evaluated_monotonic_time_ns = 0,
      hr_evidence_age_ns = 0, hr_evidence = [], hr_limitations = [], hr_code = HC_HeartbeatMissing\<rparr>"

definition health_evaluate :: "metrics_runtime \<Rightarrow> heartbeat_evidence \<Rightarrow> i64 \<Rightarrow> u64 \<Rightarrow> health_result" where
  "health_evaluate rt e now freshness =
    (let r = default_health_result
           \<lparr>hr_entity := ev_entity e, hr_subsystem_id := kFirmwareHeartbeatHealthId,
            hr_catalog_generation := mr_catalog_generation rt, hr_evaluated_monotonic_time_ns := now,
            hr_evidence_age_ns := now - ev_observed_monotonic_time_ns e, hr_evidence := [evidenceReference e]\<rparr>;
         limited = (\<lambda>code l detail. r
           \<lparr>hr_state := HS_Unknown, hr_item_status := ev_status e, hr_code := code,
            hr_limitations := [\<lparr>hl_code = l, hl_detail = detail\<rparr>]\<rparr>);
         native_unknown =
          (if ev_status e = OS_Unsupported
           then limited HC_HeartbeatUnsupported HL_NativeMappingPending (hc_limitation (mr_heartbeat rt))
           else if ev_status e = OS_NotAvailable
           then limited HC_HeartbeatMissing HL_EvidenceMissing ''firmware heartbeat evidence is unavailable''
           else if status_code (em_status (ev_error e)) = TIMEOUT
           then limited HC_HeartbeatTimeout HL_ReadFailure ''firmware heartbeat read timed out''
           else if status_code (em_status (ev_error e)) = UNAVAILABLE
           then limited HC_ProviderUnavailable HL_ProviderUnavailable ''provider is unavailable''
           else limited HC_HeartbeatReadError HL_ReadFailure ''firmware heartbeat read failed'')
     in if ev_status e = OS_Valid \<and> to_u64 (hr_evidence_age_ns r) > freshness
        then r\<lparr>hr_state := HS_Unknown, hr_item_status := OS_Stale, hr_code := HC_HeartbeatStale,
               hr_limitations := [\<lparr>hl_code = HL_EvidenceStale,
                 hl_detail = ''firmware heartbeat evidence exceeded freshness''\<rparr>]\<rparr>
        else if ev_status e = OS_Valid
        then (let r = r\<lparr>hr_item_status := OS_Valid\<rparr>
              in case ev_native_class e of
                   HB_Normal \<Rightarrow> r\<lparr>hr_state := HS_Healthy, hr_code := HC_HeartbeatOk\<rparr>
                 | HB_Warning \<Rightarrow> r\<lparr>hr_state := HS_Warning, hr_code := HC_HeartbeatWarning\<rparr>
                 | HB_Fault \<Rightarrow> r\<lparr>hr_state := HS_Error, hr_code := HC_HeartbeatFault\<rparr>
                 | HB_UnknownNative \<Rightarrow> native_unknown)
        else native_unknown)"

definition health_unknown ::
  "metrics_runtime \<Rightarrow> entity_ref \<Rightarrow> stable_health_code \<Rightarrow> observation_status \<Rightarrow> i64 \<Rightarrow> health_limitation \<Rightarrow> health_result" where
  "health_unknown rt entity code item_status now limitation =
     default_health_result
       \<lparr>hr_entity := entity, hr_subsystem_id := kFirmwareHeartbeatHealthId, hr_state := HS_Unknown,
        hr_item_status := item_status, hr_catalog_generation := mr_catalog_generation rt,
        hr_evaluated_monotonic_time_ns := now, hr_limitations := [limitation], hr_code := code\<rparr>"

definition heartbeatAt :: "metrics_runtime \<Rightarrow> entity_ref \<Rightarrow> i64 \<Rightarrow> u64 \<Rightarrow> data_manager \<Rightarrow> health_result" where
  "heartbeatAt rt entity now freshness m =
    (if \<not> mr_heartbeat_supported rt
     then health_unknown rt entity HC_HeartbeatUnsupported OS_Unsupported now
            \<lparr>hl_code = HL_NativeMappingPending, hl_detail = hc_limitation (mr_heartbeat rt)\<rparr>
     else
      let latest = latestHeartbeatEvidence entity (mr_catalog_generation rt) m
      in case (err_status latest, err_evidence latest) of
           (SUCCESS, Some e) \<Rightarrow>
            if now < ev_observed_monotonic_time_ns e
            then health_unknown rt entity HC_HeartbeatReadError OS_Error now
                   \<lparr>hl_code = HL_ReadFailure, hl_detail = ''health query time moved backward''\<rparr>
            else health_evaluate rt e now freshness
         | _ \<Rightarrow> health_unknown rt entity HC_HeartbeatMissing OS_NotAvailable now
                  \<lparr>hl_code = HL_EvidenceMissing, hl_detail = ''firmware heartbeat has not been sampled''\<rparr>)"

section \<open>Operations\<close>

text \<open>
  The part of \<open>activateCatalog\<close> after the graph was rebuilt and a supported topology was
  found: the next runtime, or the status of an early return.
\<close>

definition next_runtime :: "catalog_view \<Rightarrow> target_catalog \<Rightarrow> pdcm_status + metrics_runtime" where
  "next_runtime v tc =
    (let next = default_metrics_runtime\<lparr>mr_catalog_generation := cv_generation v, mr_heartbeat := hd (tc_health tc)\<rparr>
     in case cv_entities v of
          [] \<Rightarrow> Inr next
        | [entity] \<Rightarrow>
           (case CatalogView_capabilities (en_ref entity) v of
              (SUCCESS, Some s) \<Rightarrow>
               Inr (next\<lparr>mr_entity := Some (en_ref entity),
                 mr_heartbeat_supported :=
                   (case find (\<lambda>item. ci_kind item = CP_Health \<and> ci_id item = kFirmwareHeartbeatHealthId) (cs_items s) of
                      None \<Rightarrow> False | Some item \<Rightarrow> ci_supported item)\<rparr>)
            | (st, _) \<Rightarrow> Inl st)
        | _ \<Rightarrow> Inl UNSUPPORTED)"

definition initial_health :: "metrics_runtime \<Rightarrow> entity_ref \<Rightarrow> i64 \<Rightarrow> health_result" where
  "initial_health rt entity now =
    (if mr_heartbeat_supported rt
     then health_unknown rt entity HC_HeartbeatMissing OS_NotAvailable now
            \<lparr>hl_code = HL_EvidenceMissing, hl_detail = ''firmware heartbeat has not been sampled''\<rparr>
     else health_unknown rt entity HC_HeartbeatUnsupported OS_Unsupported now
            \<lparr>hl_code = HL_NativeMappingPending, hl_detail = hc_limitation (mr_heartbeat rt)\<rparr>)"

definition metrics_activateCatalog ::
  "catalog_view option \<Rightarrow> target_catalog \<Rightarrow> i64 \<Rightarrow> metrics_manager \<times> data_manager \<Rightarrow>
   pdcm_status \<times> metrics_manager \<times> data_manager" where
  "metrics_activateCatalog catalog tc now s =
    (let (mm, m) = s
     in case catalog of
          None \<Rightarrow> (INVALID_ARGUMENT, s)
        | Some v \<Rightarrow>
           if cv_generation v = 0 \<or> cst_generation (dm_catalog m) \<noteq> cv_generation v then (INVALID_ARGUMENT, s)
           else if \<not> ok (TargetCatalog_validate tc) then (TargetCatalog_validate tc, s)
           else
            let (st, graph) = ProcessorGraph_rebuild tc (cv_generation v) (mm_processors mm) (mm_graph mm);
                mm = mm\<lparr>mm_graph := graph\<rparr>
            in if \<not> ok st then (st, mm, m)
               else if cv_topology_unsupported v
               then (UNSUPPORTED,
                     mm\<lparr>mm_runtime := default_metrics_runtime
                          \<lparr>mr_catalog_generation := cv_generation v, mr_heartbeat := hd (tc_health tc)\<rparr>\<rparr>, m)
               else
                case next_runtime v tc of
                  Inl st \<Rightarrow> (st, mm, m)
                | Inr next \<Rightarrow>
                   if mr_catalog_generation (mm_runtime mm) > mr_catalog_generation next
                   then (STALE_GENERATION, mm, m)
                   else
                    let mm = mm\<lparr>mm_runtime := next\<rparr>
                    in case mr_entity next of
                         None \<Rightarrow> (SUCCESS, mm, m)
                       | Some entity \<Rightarrow>
                          (let (r, m) = commitHealth (initial_health next entity now) m
                           in (hcr_status r, mm, m)))"

definition onHeartbeatEvidenceCommitted ::
  "u64 \<Rightarrow> i64 \<Rightarrow> metrics_manager \<Rightarrow> data_manager \<Rightarrow> pdcm_status \<times> data_manager" where
  "onHeartbeatEvidenceCommitted evidence_id now mm m =
    (let rt = mm_runtime mm
     in case mr_entity rt of
          None \<Rightarrow> (NOT_INITIALIZED, m)
        | Some entity \<Rightarrow>
           if mr_catalog_generation rt = 0 then (NOT_INITIALIZED, m)
           else
            let read = heartbeatEvidence evidence_id m
            in case err_evidence read of
                 None \<Rightarrow> (err_status read, m)
               | Some e \<Rightarrow>
                  if \<not> ok (err_status read) then (err_status read, m)
                  else if ev_catalog_generation e \<noteq> mr_catalog_generation rt \<or> ev_entity e \<noteq> entity
                  then (STALE_GENERATION, m)
                  else if now < ev_observed_monotonic_time_ns e then (INVALID_ARGUMENT, m)
                  else
                   let (r, m) = commitHealth (health_evaluate rt e now (hc_freshness_ns (mr_heartbeat rt))) m
                   in (hcr_status r, m))"

definition onProviderStateChanged ::
  "provider_state \<Rightarrow> i64 \<Rightarrow> metrics_manager \<Rightarrow> data_manager \<Rightarrow> pdcm_status \<times> data_manager" where
  "onProviderStateChanged state now mm m =
    (if state = PS_Ready then (SUCCESS, m)
     else
      let rt = mm_runtime mm
      in case mr_entity rt of
           None \<Rightarrow> (NOT_INITIALIZED, m)
         | Some entity \<Rightarrow>
            if mr_catalog_generation rt = 0 then (NOT_INITIALIZED, m)
            else
             let result = health_unknown rt entity HC_ProviderUnavailable OS_Error now
                   \<lparr>hl_code = HL_ProviderUnavailable, hl_detail = ''provider is unavailable''\<rparr>;
                 latest = latestHeartbeatEvidence entity (mr_catalog_generation rt) m;
                 result =
                  (case (err_status latest, err_evidence latest) of
                     (SUCCESS, Some e) \<Rightarrow>
                      if now \<ge> ev_observed_monotonic_time_ns e
                      then result\<lparr>hr_evidence := [evidenceReference e],
                                  hr_evidence_age_ns := now - ev_observed_monotonic_time_ns e\<rparr>
                      else result
                   | _ \<Rightarrow> result);
                 (r, m) = commitHealth result m
             in (hcr_status r, m))"

definition runFreshnessOnce :: "i64 \<Rightarrow> metrics_manager \<Rightarrow> data_manager \<Rightarrow> pdcm_status \<times> data_manager" where
  "runFreshnessOnce now mm m =
    (let rt = mm_runtime mm
     in case mr_entity rt of
          None \<Rightarrow> (NOT_INITIALIZED, m)
        | Some entity \<Rightarrow>
           if mr_catalog_generation rt = 0 then (NOT_INITIALIZED, m)
           else if now < 0 then (INVALID_ARGUMENT, m)
           else
            let current = readHealth entity (mr_catalog_generation rt) m
            in case hrr_result current of
                 None \<Rightarrow> (hrr_status current, m)
               | Some c \<Rightarrow>
                  if \<not> ok (hrr_status current) then (hrr_status current, m)
                  else if \<not> isDeterminateHealth (hr_state c) then (SUCCESS, m)
                  else
                   let latest = latestHeartbeatEvidence entity (mr_catalog_generation rt) m
                   in case err_evidence latest of
                        None \<Rightarrow> (err_status latest, m)
                      | Some e \<Rightarrow>
                         if \<not> ok (err_status latest) then (err_status latest, m)
                         else if now < ev_observed_monotonic_time_ns e then (INVALID_ARGUMENT, m)
                         else if to_u64 (now - ev_observed_monotonic_time_ns e) \<le> hc_freshness_ns (mr_heartbeat rt)
                         then (SUCCESS, m)
                         else
                          let (r, m) = commitHealth (health_evaluate rt e now (hc_freshness_ns (mr_heartbeat rt))) m
                          in (hcr_status r, m))"

definition queryHealth :: "health_request \<Rightarrow> i64 \<Rightarrow> metrics_manager \<Rightarrow> data_manager \<Rightarrow> health_query_result" where
  "queryHealth q now mm m =
    (let rt = mm_runtime mm;
         fail = (\<lambda>st. \<lparr>hqr_status = st, hqr_item = None, hqr_aggregate = None\<rparr>)
     in case mr_entity rt of
          None \<Rightarrow> fail NOT_INITIALIZED
        | Some entity \<Rightarrow>
           if mr_catalog_generation rt = 0 then fail NOT_INITIALIZED
           else if hq_catalog_generation q \<noteq> 0 \<and> hq_catalog_generation q \<noteq> mr_catalog_generation rt
           then fail STALE_GENERATION
           else if er_kind (hq_entity q) \<noteq> er_kind entity \<or> er_id (hq_entity q) \<noteq> er_id entity then fail NOT_FOUND
           else if hq_entity q \<noteq> entity then fail STALE_GENERATION
           else if now < 0 then fail INVALID_ARGUMENT
           else
            let freshness = effectiveFreshness (hc_freshness_ns (mr_heartbeat rt)) (hq_max_age_ns q);
                aggregate = heartbeatAt rt entity now freshness m;
                item =
                 (if hq_subsystem_id q = kFirmwareHeartbeatHealthId then aggregate
                  else (health_unknown rt entity HC_HeartbeatUnsupported OS_Unsupported now
                          \<lparr>hl_code = HL_CatalogGap, hl_detail = ''health subsystem is not supported in P0''\<rparr>)
                         \<lparr>hr_subsystem_id := hq_subsystem_id q\<rparr>)
            in \<lparr>hqr_status =
                  (if hq_subsystem_id q = kFirmwareHeartbeatHealthId \<and> isDeterminateHealth (hr_state item)
                   then SUCCESS else PARTIAL_RESULT),
                hqr_item = Some item, hqr_aggregate = Some aggregate\<rparr>)"

section \<open>Stored evidence is sound\<close>

text \<open>
  Every stored evidence passed its validation for the active generation, and the latest
  identifier of an entity names evidence of that entity, if it is still stored.
\<close>

definition evidence_sound :: "data_manager \<Rightarrow> bool" where
  "evidence_sound m \<longleftrightarrow>
     (\<forall>c \<in> set (dm_heartbeat_evidence m). validateFirmwareHeartbeatEvidence c = SUCCESS \<and>
        ev_catalog_generation c = dm_generation m \<and> ev_entity c \<in> set (cst_entities (dm_catalog m))) \<and>
     omap_ok (dm_latest_heartbeat m) \<and>
     (\<forall>entity i. map_of (dm_latest_heartbeat m) entity = Some i \<longrightarrow> i < dm_next_evidence_id m \<and>
        (\<forall>c \<in> set (dm_heartbeat_evidence m). ev_evidence_id c = i \<longrightarrow> ev_entity c = entity))"

lemma validate_evidence_id [simp]:
  "validateFirmwareHeartbeatEvidence (e\<lparr>ev_evidence_id := i\<rparr>) = validateFirmwareHeartbeatEvidence e"
  by (simp add: validateFirmwareHeartbeatEvidence_def)

lemma evidence_sound_commit:
  assumes sound: "evidence_sound m" and "evidence_inv m" "commitHeartbeatEvidence e m = (r, m')"
  shows "evidence_sound m'"
  using assms(3)
proof (cases rule: evidence_commit_elim)
  case (committed staged new)
  let ?es = "dm_heartbeat_evidence m" and ?n = "dm_next_evidence_id m"
  have sub: "set staged \<subseteq> insert new (set ?es)"
    using list_emb_set [OF subseq_order.trans [OF evictEvidence_spec(1) [OF committed(11)] expire_subseq]] by auto
  have old: "ev_evidence_id c < ?n" if "c \<in> set ?es" for c using that assms(2) by (simp add: evidence_inv_def)
  have inc: "?n < ?n + 1" using committed(9) by (rule less_inc)
  have latest: "i < ?n + 1 \<and> (\<forall>c \<in> set staged. ev_evidence_id c = i \<longrightarrow> ev_entity c = entity)"
    if "map_of (omap_put (ev_entity e) ?n (dm_latest_heartbeat m)) entity = Some i" for entity i
  proof (cases "entity = ev_entity e")
    case True
    then have "i = ?n" using that by (simp add: map_of_put_same)
    then show ?thesis using True inc sub old committed(4) by fastforce
  next
    case False
    then have "map_of (dm_latest_heartbeat m) entity = Some i"
      using that sound by (simp add: map_of_omap_put evidence_sound_def)
    with sound have "i < ?n" "\<forall>c \<in> set ?es. ev_evidence_id c = i \<longrightarrow> ev_entity c = entity"
      by (auto simp: evidence_sound_def)
    then show ?thesis using sub committed(4) inc by fastforce
  qed
  have "validateFirmwareHeartbeatEvidence c = SUCCESS \<and> ev_catalog_generation c = dm_generation m \<and>
      ev_entity c \<in> set (cst_entities (dm_catalog m))" if "c \<in> set staged" for c
  proof (cases "c = new")
    case False
    then have "c \<in> set ?es" using that sub by blast
    then show ?thesis using sound unfolding evidence_sound_def by blast
  qed (use committed(4-7) in simp)
  then have "\<forall>c \<in> set staged. validateFirmwareHeartbeatEvidence c = SUCCESS \<and> ev_catalog_generation c = dm_generation m \<and>
      ev_entity c \<in> set (cst_entities (dm_catalog m))" by blast
  moreover have "omap_ok (omap_put (ev_entity e) ?n (dm_latest_heartbeat m))"
    using sound by (simp add: evidence_sound_def)
  moreover have "\<forall>entity i. map_of (omap_put (ev_entity e) ?n (dm_latest_heartbeat m)) entity = Some i \<longrightarrow> i < ?n + 1 \<and>
      (\<forall>c \<in> set staged. ev_evidence_id c = i \<longrightarrow> ev_entity c = entity)" using latest by blast
  moreover have m': "dm_heartbeat_evidence m' = staged" "dm_catalog m' = dm_catalog m" "dm_next_evidence_id m' = ?n + 1"
      "dm_latest_heartbeat m' = omap_put (ev_entity e) ?n (dm_latest_heartbeat m)"
    by (simp_all add: committed(12))
  ultimately show ?thesis unfolding evidence_sound_def m' by blast
qed (use sound in simp)

lemma evidence_sound_step:
  assumes "evidence_sound m" "data_inv m" "store_inv m"
  shows "evidence_sound (dm_step op m)"
proof (cases op)
  case (DM_activateCatalog v tc)
  have "DataManager_activateCatalog v tc m = (fst (DataManager_activateCatalog v tc m), dm_step op m)"
    by (simp add: DM_activateCatalog)
  then show ?thesis by (cases rule: activate_elim) (use assms in \<open>auto simp: evidence_sound_def\<close>)
next
  case (DM_commit os)
  have "shards_ok (dm_shards m)" using assms(2) by (simp add: data_inv_def)
  moreover have "DataManager_commit os m = (fst (DataManager_commit os m), dm_step op m)" by (simp add: DM_commit)
  ultimately show ?thesis
  proof (cases rule: data_commit_elim)
    case (committed staged)
    show ?thesis using assms(1) by (subst committed(14)) (simp add: evidence_sound_def)
  qed (use assms in simp)
next
  case (DM_commitHeartbeatEvidence e)
  have "commitHeartbeatEvidence e m = (fst (commitHeartbeatEvidence e m), dm_step op m)"
    by (simp add: DM_commitHeartbeatEvidence)
  with assms show ?thesis using evidence_sound_commit by (auto simp: store_inv_def)
next
  case (DM_commitHealth r)
  have "commitHealth r m = (fst (commitHealth r m), dm_step op m)" by (simp add: DM_commitHealth)
  then show ?thesis by (cases rule: health_commit_elim) (use assms in \<open>auto simp: evidence_sound_def\<close>)
next
  case (DM_publishEvent x)
  then show ?thesis using assms(1) by (auto simp: evidence_sound_def publishEvent_def split: prod.splits)
qed

section \<open>What an evaluation says\<close>

definition class_state :: "heartbeat_class \<Rightarrow> health_state" where
  "class_state c = (case c of HB_Normal \<Rightarrow> HS_Healthy | HB_Warning \<Rightarrow> HS_Warning | HB_Fault \<Rightarrow> HS_Error
     | HB_UnknownNative \<Rightarrow> HS_Unknown)"

text \<open>Valid evidence that is not older than a bound.\<close>

definition fresh_evidence :: "heartbeat_evidence \<Rightarrow> i64 \<Rightarrow> u64 \<Rightarrow> bool" where
  "fresh_evidence e now freshness \<longleftrightarrow>
     ev_status e = OS_Valid \<and> now - ev_observed_monotonic_time_ns e \<le> uint freshness"

lemma evaluate_fields [simp]:
  "hr_entity (health_evaluate rt e now f) = ev_entity e"
  "hr_evidence (health_evaluate rt e now f) = [evidenceReference e]"
  "hr_evidence_age_ns (health_evaluate rt e now f) = now - ev_observed_monotonic_time_ns e"
  "hr_catalog_generation (health_evaluate rt e now f) = mr_catalog_generation rt"
  by (simp_all add: health_evaluate_def default_health_result_def Let_def split: heartbeat_class.split)

lemma validate_evidence_D:
  assumes "validateFirmwareHeartbeatEvidence e = SUCCESS"
  shows "er_kind (ev_entity e) = EK_Device" "er_generation (ev_entity e) \<noteq> 0" "ev_catalog_generation e \<noteq> 0"
    and "0 \<le> ev_observed_monotonic_time_ns e" "\<And>t. ev_source_sample_time_ns e = Some t \<Longrightarrow> 0 \<le> t"
    and "src_provider (ev_source e) \<noteq> []" "ev_status e \<noteq> OS_Stale"
    and "ev_status e = OS_Valid \<longleftrightarrow> ev_native_class e \<noteq> HB_UnknownNative"
  using assms by (auto simp: validateFirmwareHeartbeatEvidence_def not_less split: if_splits option.splits)

lemma evaluate_state:
  assumes "validateFirmwareHeartbeatEvidence e = SUCCESS" "ev_observed_monotonic_time_ns e \<le> now" "now \<le> i64_max"
  shows "hr_state (health_evaluate rt e now f) =
    (if fresh_evidence e now f then class_state (ev_native_class e) else HS_Unknown)"
  using assms validate_evidence_D(4,8) [OF assms(1)]
    to_u64_le_iff [of "now - ev_observed_monotonic_time_ns e" f]
  by (auto simp: health_evaluate_def Let_def fresh_evidence_def class_state_def default_health_result_def not_le
      split: heartbeat_class.split)

lemma class_state_determinate [simp]: "isDeterminateHealth (class_state c) \<longleftrightarrow> c \<noteq> HB_UnknownNative"
  by (cases c) (simp_all add: class_state_def isDeterminateHealth_def)

lemma evidenceReference_valid:
  assumes "validateFirmwareHeartbeatEvidence e = SUCCESS" "ev_evidence_id e \<noteq> 0"
  shows "evidenceRefValid (evidenceReference e)"
  using assms(2) validate_evidence_D(4-6) [OF assms(1)]
  by (auto simp: evidenceRefValid_def evidenceReference_def split: option.split)

lemma evaluate_valid:
  assumes "validateFirmwareHeartbeatEvidence e = SUCCESS" "ev_evidence_id e \<noteq> 0"
    and "ev_observed_monotonic_time_ns e \<le> now" "mr_catalog_generation rt \<noteq> 0" "hc_limitation (mr_heartbeat rt) \<noteq> []"
  shows "validateHealthResult (health_evaluate rt e now f) = SUCCESS"
proof -
  let ?r = "health_evaluate rt e now f"
  note d = validate_evidence_D [OF assms(1)]
  have shape: "hr_subsystem_id ?r = kFirmwareHeartbeatHealthId" "hr_evaluated_monotonic_time_ns ?r = now"
      "list_all (\<lambda>l. hl_detail l \<noteq> []) (hr_limitations ?r)"
    using assms(5)
    by (auto simp: health_evaluate_def default_health_result_def Let_def split: heartbeat_class.split)
  have "codeMatchesState (hr_state ?r) (hr_code ?r) \<and> (isDeterminateHealth (hr_state ?r) \<longleftrightarrow> hr_item_status ?r = OS_Valid)"
    using d(7,8)
    by (auto simp: health_evaluate_def default_health_result_def Let_def isDeterminateHealth_def
        split: heartbeat_class.split)
  then show ?thesis
    using shape assms(3,4) d(1,2,4) evidenceReference_valid [OF assms(1,2)]
    by (auto simp: validateHealthResult_def list_ex_iff list_all_iff)
qed

section \<open>Executions\<close>

text \<open>A metrics manager beside the data manager it writes to, which others change as well.\<close>

datatype metrics_op =
    MM_data dm_op
  | MM_activateCatalog "catalog_view option" target_catalog i64
  | MM_evidenceCommitted u64 i64
  | MM_providerStateChanged provider_state i64
  | MM_runFreshness i64

primrec metrics_step :: "metrics_op \<Rightarrow> metrics_manager \<times> data_manager \<Rightarrow> metrics_manager \<times> data_manager" where
  "metrics_step (MM_data op) s = (fst s, dm_step op (snd s))"
| "metrics_step (MM_activateCatalog v tc now) s = snd (metrics_activateCatalog v tc now s)"
| "metrics_step (MM_evidenceCommitted i now) s = (fst s, snd (onHeartbeatEvidenceCommitted i now (fst s) (snd s)))"
| "metrics_step (MM_providerStateChanged st now) s = (fst s, snd (onProviderStateChanged st now (fst s) (snd s)))"
| "metrics_step (MM_runFreshness now) s = (fst s, snd (runFreshnessOnce now (fst s) (snd s)))"

text \<open>The manager touches the data manager only by committing a health result.\<close>

lemma snd_returned [simp]: "snd (case x of (r, m) \<Rightarrow> (f r, m)) = snd x"
  by (cases x) simp

lemma evidence_committed_step:
  "\<exists>ops. snd (onHeartbeatEvidenceCommitted i now mm m) = fold dm_step ops m"
proof -
  have "snd (onHeartbeatEvidenceCommitted i now mm m) = m \<or>
      (\<exists>r. snd (onHeartbeatEvidenceCommitted i now mm m) = dm_step (DM_commitHealth r) m)"
    by (simp add: onHeartbeatEvidenceCommitted_def Let_def split: option.split) blast
  then show ?thesis by (metis fold_simps)
qed

lemma provider_changed_step: "\<exists>ops. snd (onProviderStateChanged st now mm m) = fold dm_step ops m"
proof -
  have "snd (onProviderStateChanged st now mm m) = m \<or>
      (\<exists>r. snd (onProviderStateChanged st now mm m) = dm_step (DM_commitHealth r) m)"
    by (cases "mr_entity (mm_runtime mm)") (simp_all add: onProviderStateChanged_def Let_def, blast)
  then show ?thesis by (metis fold_simps)
qed

lemma freshness_step: "\<exists>ops. snd (runFreshnessOnce now mm m) = fold dm_step ops m"
proof -
  have "snd (runFreshnessOnce now mm m) = m \<or> (\<exists>r. snd (runFreshnessOnce now mm m) = dm_step (DM_commitHealth r) m)"
    by (simp add: runFreshnessOnce_def Let_def split: option.split) blast
  then show ?thesis by (metis fold_simps)
qed

lemma next_runtime_heartbeat: "next_runtime v tc = Inr rt \<Longrightarrow> mr_heartbeat rt = hd (tc_health tc)"
  by (auto simp: next_runtime_def Let_def split: list.splits prod.splits pdcm_status.splits option.splits)

lemma metrics_activate_elim:
  assumes "metrics_activateCatalog v tc now (mm, m) = (st, mm', m')"
  obtains (same) "m' = m" "mm_runtime mm' = mm_runtime mm"
  | (unsupported) w where "m' = m" "TargetCatalog_validate tc = SUCCESS" "st = UNSUPPORTED"
      "v = Some w" "mm_runtime mm' = default_metrics_runtime
         \<lparr>mr_catalog_generation := cv_generation w, mr_heartbeat := hd (tc_health tc)\<rparr>"
  | (activated) w rt where "v = Some w" "TargetCatalog_validate tc = SUCCESS"
      "cv_generation w \<noteq> 0" "cst_generation (dm_catalog m) = cv_generation w"
      "\<not> cv_topology_unsupported w" "next_runtime w tc = Inr rt" "mm_runtime mm' = rt"
      "(st, m') = (case mr_entity rt of None \<Rightarrow> (SUCCESS, m)
         | Some entity \<Rightarrow> (hcr_status (fst (commitHealth (initial_health rt entity now) m)),
                           snd (commitHealth (initial_health rt entity now) m)))"
  using assms
  by (auto simp: metrics_activateCatalog_def Let_def ok_def split: option.splits if_splits prod.splits sum.splits)

definition metrics_inv :: "metrics_manager \<times> data_manager \<Rightarrow> bool" where
  "metrics_inv s \<longleftrightarrow>
     data_inv (snd s) \<and> store_inv (snd s) \<and> evidence_sound (snd s) \<and>
     hc_limitation (mr_heartbeat (mm_runtime (fst s))) \<noteq> []"

lemma metrics_inv_data:
  "metrics_inv (mm, m) \<Longrightarrow> metrics_inv (mm, fold dm_step ops m)"
  by (induction ops arbitrary: m)
    (auto simp: metrics_inv_def data_inv_step store_inv_step evidence_sound_step simp del: dm_step.simps)

lemma health_limitation: "TargetCatalog_validate tc = SUCCESS \<Longrightarrow> hc_limitation (hd (tc_health tc)) \<noteq> []"
  by (auto simp: TargetCatalog_validate_def split: if_splits list.splits)

lemma metrics_inv_activate:
  assumes "metrics_inv (mm, m)" shows "metrics_inv (snd (metrics_activateCatalog v tc now (mm, m)))"
proof -
  obtain st mm' m' where eq: "metrics_activateCatalog v tc now (mm, m) = (st, mm', m')" by (metis surj_pair)
  then have "metrics_inv (mm', m')"
  proof (cases rule: metrics_activate_elim)
    case (activated w rt)
    have rt: "hc_limitation (mr_heartbeat rt) \<noteq> []"
      using next_runtime_heartbeat [OF activated(6)] health_limitation [OF activated(2)] by simp
    have "\<exists>ops. m' = fold dm_step ops m"
    proof (cases "mr_entity rt")
      case None
      then show ?thesis using activated(8) by (intro exI [of _ "[]"]) simp
    next
      case (Some entity)
      then show ?thesis using activated(8)
        by (intro exI [of _ "[DM_commitHealth (initial_health rt entity now)]"]) simp
    qed
    then show ?thesis
      using metrics_inv_data [OF assms] rt by (auto simp: metrics_inv_def activated(7))
  qed (use assms health_limitation in \<open>auto simp: metrics_inv_def\<close>)
  then show ?thesis by (simp add: eq)
qed

lemma metrics_inv_step: "metrics_inv s \<Longrightarrow> metrics_inv (metrics_step op s)"
proof (cases op)
  case (MM_data d)
  assume "metrics_inv s"
  then show ?thesis using metrics_inv_data [of "fst s" "snd s" "[d]"] by (simp add: MM_data)
next
  case (MM_evidenceCommitted i now)
  assume "metrics_inv s"
  then show ?thesis using evidence_committed_step [of i now "fst s" "snd s"] metrics_inv_data [of "fst s" "snd s"]
    by (auto simp: MM_evidenceCommitted)
next
  case (MM_providerStateChanged st now)
  assume "metrics_inv s"
  then show ?thesis using provider_changed_step [of st now "fst s" "snd s"] metrics_inv_data [of "fst s" "snd s"]
    by (auto simp: MM_providerStateChanged)
next
  case (MM_runFreshness now)
  assume "metrics_inv s"
  then show ?thesis using freshness_step [of now "fst s" "snd s"] metrics_inv_data [of "fst s" "snd s"]
    by (auto simp: MM_runFreshness)
next
  case (MM_activateCatalog v tc now)
  assume "metrics_inv s"
  then show ?thesis using metrics_inv_activate [of "fst s" "snd s"] by (simp add: MM_activateCatalog)
qed

lemma metrics_inv_start:
  "ok (DataStoreLimits_validate l) \<Longrightarrow> metrics_inv (MetricsManager ps, data_manager_start l)"
  using data_inv_start [of l] store_inv_start [of l]
  by (simp add: metrics_inv_def MetricsManager_def default_metrics_runtime_def default_health_entry_def
      evidence_sound_def) (simp add: data_manager_start_def)

interpretation mm: component "(MetricsManager ps, data_manager_start l)" metrics_step
  "\<lambda>s. ok (DataStoreLimits_validate l) \<longrightarrow> metrics_inv s" for ps l
  by unfold_locales (auto simp: metrics_inv_start metrics_inv_step)

definition metrics_reachable ::
  "metric_processor option list \<Rightarrow> data_store_limits \<Rightarrow> metrics_op list \<Rightarrow> (metrics_manager \<times> data_manager) option" where
  "metrics_reachable ps l ops = map_option (\<lambda>m. fold metrics_step ops (MetricsManager ps, m)) (DataManager l)"

lemma metrics_reachable_inv: "metrics_reachable ps l ops = Some s \<Longrightarrow> metrics_inv s"
  using mm.inv_reach [of l ops ps] by (auto simp: metrics_reachable_def DataManager_def split: if_splits)

lemma latest_stored:
  assumes "err_evidence (latestHeartbeatEvidence entity required m) = Some e"
  shows "err_status (latestHeartbeatEvidence entity required m) = SUCCESS" "e \<in> set (dm_heartbeat_evidence m)"
    and "find_evidence (the (map_of (dm_latest_heartbeat m) entity)) (dm_heartbeat_evidence m) = Some e"
    and "map_of (dm_latest_heartbeat m) entity \<noteq> None" "entity_query_status entity required m = SUCCESS"
  using assms
  by (auto simp: latestHeartbeatEvidence_def Let_def find_evidence_def split: if_splits option.splits dest: find_Some_D)

lemma latest_sound:
  assumes "evidence_sound m" "err_evidence (latestHeartbeatEvidence entity required m) = Some e"
  shows "validateFirmwareHeartbeatEvidence e = SUCCESS" "ev_entity e = entity" "ev_catalog_generation e = dm_generation m"
proof -
  note l = latest_stored [OF assms(2)]
  then obtain i where "map_of (dm_latest_heartbeat m) entity = Some i" "ev_evidence_id e = i"
    by (auto simp: find_evidence_def dest: find_Some_D)
  then show "validateFirmwareHeartbeatEvidence e = SUCCESS" "ev_entity e = entity" "ev_catalog_generation e = dm_generation m"
    using assms(1) l(2) by (auto simp: evidence_sound_def)
qed

lemma heartbeatAt_cases:
  "heartbeatAt rt entity now freshness m =
    (case (if mr_heartbeat_supported rt then err_evidence (latestHeartbeatEvidence entity (mr_catalog_generation rt) m) else None) of
       Some e \<Rightarrow> if ev_observed_monotonic_time_ns e \<le> now then health_evaluate rt e now freshness
         else heartbeatAt rt entity now freshness m
     | None \<Rightarrow> heartbeatAt rt entity now freshness m)"
  using latest_stored(1) [of entity "mr_catalog_generation rt" m]
  by (auto simp: heartbeatAt_def Let_def split: option.split)

lemma heartbeatAt_unknown:
  assumes "\<not> (mr_heartbeat_supported rt \<and> (\<exists>e. err_evidence (latestHeartbeatEvidence entity (mr_catalog_generation rt) m) = Some e \<and>
      ev_observed_monotonic_time_ns e \<le> now))"
  shows "hr_state (heartbeatAt rt entity now freshness m) = HS_Unknown"
  using assms
  by (auto simp: heartbeatAt_def Let_def health_unknown_def default_health_result_def
      split: option.split pdcm_status.split)

lemma aggregate_heartbeatAt:
  assumes "hqr_aggregate (queryHealth q now mm m) = Some a" "mr_entity (mm_runtime mm) = Some entity"
  shows "a = heartbeatAt (mm_runtime mm) entity now
      (effectiveFreshness (hc_freshness_ns (mr_heartbeat (mm_runtime mm))) (hq_max_age_ns q)) m"
    and "hqr_status (queryHealth q now mm m) = SUCCESS \<longleftrightarrow>
      hq_subsystem_id q = kFirmwareHeartbeatHealthId \<and> isDeterminateHealth (hr_state a)"
  using assms by (auto simp: queryHealth_def Let_def split: if_splits)

lemma determinate_iff: "isDeterminateHealth s \<longleftrightarrow> s \<noteq> HS_Unknown"
  by (cases s) (simp_all add: isDeterminateHealth_def)

text \<open>Committing an evaluation of stored evidence fails only for lack of room.\<close>

lemma evaluate_matches: "evidence_matches (health_evaluate rt e now f) (evidenceReference e) e"
  if "ev_catalog_generation e = mr_catalog_generation rt"
  using that by (simp add: evidence_matches_def evidenceReference_def)

lemma evaluate_commit:
  assumes inv: "metrics_inv (mm, m)" and e: "e \<in> set (dm_heartbeat_evidence m)"
    and "mr_catalog_generation (mm_runtime mm) = dm_generation m" "ev_observed_monotonic_time_ns e \<le> now"
    and "cst_heartbeat (dm_catalog m) \<noteq> None"
    and "commitHealth (health_evaluate (mm_runtime mm) e now f) m = (r, m')"
  shows "hcr_status r \<in> {SUCCESS, RESOURCE_EXHAUSTED, INTERNAL}"
proof -
  let ?r = "health_evaluate (mm_runtime mm) e now f"
  have v: "validateFirmwareHeartbeatEvidence e = SUCCESS" "ev_catalog_generation e = dm_generation m"
      "ev_entity e \<in> set (cst_entities (dm_catalog m))"
    using inv e by (auto simp: metrics_inv_def evidence_sound_def)
  have "ev_evidence_id e \<noteq> 0" using inv e by (auto simp: metrics_inv_def store_inv_def evidence_inv_def)
  then have valid: "validateHealthResult ?r = SUCCESS"
    using evaluate_valid [OF v(1) _ assms(4)] inv assms(3) v(2) validate_evidence_D(3) [OF v(1)]
    by (simp add: metrics_inv_def)
  have "find (evidence_matches ?r (evidenceReference e)) (dm_heartbeat_evidence m) \<noteq> None"
    using e evaluate_matches [of e "mm_runtime mm" now f] v(2) assms(3) by (auto simp: find_None_iff)
  then have refs: "checkReferences ?r (dm_heartbeat_evidence m) {} (hr_evidence ?r) = SUCCESS" by simp
  have "dm_generation m \<noteq> 0" using v(2) validate_evidence_D(3) [OF v(1)] by simp
  then show ?thesis
    using assms(5,6) valid refs v(3) assms(3) by (auto simp: commitHealth_def Let_def split: if_splits)
qed

text \<open>A health commit changes neither the catalog nor the evidence, so it changes no answer of a query.\<close>

lemma commitHealth_evidence:
  assumes "commitHealth r m = (res, m')"
  shows "err_status (latestHeartbeatEvidence entity g m') = err_status (latestHeartbeatEvidence entity g m)"
    and "err_evidence (latestHeartbeatEvidence entity g m') = err_evidence (latestHeartbeatEvidence entity g m)"
  using assms
  by (cases rule: health_commit_elim;
      auto simp: latestHeartbeatEvidence_def Let_def entity_query_status_def split: option.splits)+

lemma queryHealth_cong:
  assumes "\<And>entity g. err_status (latestHeartbeatEvidence entity g m') = err_status (latestHeartbeatEvidence entity g m)"
    and "\<And>entity g. err_evidence (latestHeartbeatEvidence entity g m') = err_evidence (latestHeartbeatEvidence entity g m)"
  shows "queryHealth q now mm m' = queryHealth q now mm m"
proof -
  have "heartbeatAt rt entity t freshness m' = heartbeatAt rt entity t freshness m" for rt entity t freshness
    unfolding heartbeatAt_def Let_def assms ..
  then show ?thesis unfolding queryHealth_def by (simp only:)
qed

lemma provider_state_elim:
  assumes "onProviderStateChanged state t mm m = (st, m')"
  obtains (same) "m' = m" "state = PS_Ready \<or> st \<noteq> SUCCESS"
  | (stored) entity r res where "mr_entity (mm_runtime mm) = Some entity" "commitHealth r m = (res, m')"
      "st = hcr_status res" "hr_entity r = entity" "hr_state r = HS_Unknown" "hr_code r = HC_ProviderUnavailable"
proof (cases "mr_entity (mm_runtime mm)")
  case None
  then show ?thesis using assms same by (simp add: onProviderStateChanged_def Let_def split: if_splits)
next
  case (Some entity)
  show ?thesis
  proof (cases "state = PS_Ready \<or> mr_catalog_generation (mm_runtime mm) = 0")
    case True
    then show ?thesis using assms same Some by (auto simp: onProviderStateChanged_def Let_def split: if_splits)
  next
    case False
    define r where "r = (let latest = latestHeartbeatEvidence entity (mr_catalog_generation (mm_runtime mm)) m;
        result = health_unknown (mm_runtime mm) entity HC_ProviderUnavailable OS_Error t
          \<lparr>hl_code = HL_ProviderUnavailable, hl_detail = ''provider is unavailable''\<rparr>
      in case (err_status latest, err_evidence latest) of
           (SUCCESS, Some e) \<Rightarrow>
             if t \<ge> ev_observed_monotonic_time_ns e
             then result\<lparr>hr_evidence := [evidenceReference e],
                         hr_evidence_age_ns := t - ev_observed_monotonic_time_ns e\<rparr>
             else result
         | _ \<Rightarrow> result)"
    have "hr_entity r = entity" "hr_state r = HS_Unknown" "hr_code r = HC_ProviderUnavailable"
      unfolding r_def
      by (auto simp: Let_def health_unknown_def split: pdcm_status.splits option.splits)
    moreover have "(case commitHealth r m of (c, m1) \<Rightarrow> (hcr_status c, m1)) = (st, m')"
      using assms Some False unfolding onProviderStateChanged_def r_def Let_def by simp
    ultimately show ?thesis using stored Some by (auto split: prod.splits)
  qed
qed

lemma provider_state_keeps_query:
  assumes "onProviderStateChanged state t mm m = (st, m')"
  shows "queryHealth q now mm m' = queryHealth q now mm m"
  using assms by (cases rule: provider_state_elim) (auto intro: queryHealth_cong commitHealth_evidence)

lemma provider_loss_stored:
  assumes "onProviderStateChanged state t mm m = (SUCCESS, m')" "state \<noteq> PS_Ready"
    and "mr_entity (mm_runtime mm) = Some entity"
  shows "map_option (\<lambda>r. (hr_state r, hr_code r)) (map_of (dm_health m') entity) =
    Some (HS_Unknown, HC_ProviderUnavailable)"
  using assms(1)
proof (cases rule: provider_state_elim)
  case same
  then show ?thesis using assms(2) by simp
next
  case (stored e r res)
  from stored(2) show ?thesis
    by (cases rule: health_commit_elim) (use stored assms(3) in \<open>auto simp: map_of_put_same\<close>)
qed

section \<open>Properties\<close>

text \<open>
  The concrete input of the witnesses, written out: one device whose heartbeat was committed at
  time 4 and evaluated at time 5.
\<close>

definition witness_device :: entity_ref where
  "witness_device = EntityRef EK_Device 0 1"

definition witness_metrics :: metrics_manager where
  "witness_metrics =
     \<lparr>mm_runtime = \<lparr>mr_catalog_generation = 1, mr_entity = Some witness_device,
        mr_heartbeat = default_health_entry\<lparr>hc_freshness_ns := 10, hc_provider_data_id := Some 9\<rparr>,
        mr_heartbeat_supported = True\<rparr>,
      mm_processors = [], mm_graph = \<lparr>gs_catalog_generation = 1, gs_nodes = []\<rparr>\<rparr>"

definition health_base :: data_manager where
  "health_base = witness_base
     \<lparr>dm_commit_epoch := 1,
      dm_health := [(witness_device, initial_health (mm_runtime witness_metrics) witness_device 1)]\<rparr>"

definition heartbeat_base :: data_manager where
  "heartbeat_base = health_base
     \<lparr>dm_commit_epoch := 2, dm_heartbeat_evidence := [(witness_evidence 1 4)\<lparr>ev_evidence_id := 1\<rparr>],
      dm_latest_heartbeat := [(witness_device, 1)], dm_next_evidence_id := 2\<rparr>"

definition evaluated_base :: data_manager where
  "evaluated_base =
    (let h = health_evaluate (mm_runtime witness_metrics) ((witness_evidence 1 4)\<lparr>ev_evidence_id := 1\<rparr>) 5 10
     in heartbeat_base\<lparr>dm_commit_epoch := 3, dm_health := [(witness_device, h)],
          dm_event_store := snd (EventStore_publish (health_draft HS_Unknown HC_HeartbeatMissing h) (dm_event_store witness_base))\<rparr>)"

lemma health_base_parts:
  "TargetCatalog_validate witness_target = SUCCESS"
  "order_processors [] [] = Some (Inr [])"
  "next_runtime witness_view witness_target = Inr (mm_runtime witness_metrics)"
  "commitHealth (initial_health (mm_runtime witness_metrics) witness_device 1) witness_base =
     (\<lparr>hcr_status = SUCCESS, hcr_commit_epoch = 1, hcr_state_changed = False\<rparr>, health_base)"
  by code_simp+

lemma health_graph:
  "ProcessorGraph_rebuild witness_target 1 [] ProcessorGraph = (SUCCESS, \<lparr>gs_catalog_generation = 1, gs_nodes = []\<rparr>)"
  by (simp add: ProcessorGraph_rebuild_def health_base_parts(1,2) ok_def ProcessorGraph_def)
    (simp add: witness_target_def witness_metric_def)

lemma health_base_eq:
  "metrics_step (MM_activateCatalog (Some witness_view) witness_target 1) (MetricsManager [], witness_base) =
     (witness_metrics, health_base)"
proof -
  have "cv_generation witness_view = 1" "\<not> cv_topology_unsupported witness_view" "dm_generation witness_base = 1"
    "mr_entity (mm_runtime witness_metrics) = Some witness_device" "mr_catalog_generation (mm_runtime witness_metrics) = 1"
    by (simp_all add: witness_view_def witness_base_def witness_metrics_def)
  then show ?thesis
    by (simp add: metrics_activateCatalog_def health_base_parts health_graph ok_def MetricsManager_def
        default_metrics_runtime_def Let_def) (simp add: witness_metrics_def)
qed

lemma heartbeat_base_eq:
  "commitHeartbeatEvidence (witness_evidence 1 4) health_base =
     (\<lparr>ecr_status = SUCCESS, ecr_evidence_id = 1, ecr_commit_epoch = 2, ecr_committed = True\<rparr>, heartbeat_base)"
  by code_simp

lemma evaluated_base_eq: "onHeartbeatEvidenceCommitted 1 5 witness_metrics heartbeat_base = (SUCCESS, evaluated_base)"
  by code_simp

lemma health_reachable:
  "metrics_reachable [] witness_limits_ds
     (MM_data (DM_activateCatalog (Some witness_view) witness_target) #
      MM_activateCatalog (Some witness_view) witness_target 1 # ops) =
   Some (fold metrics_step ops (witness_metrics, health_base))"
  by (simp only: metrics_reachable_def DataManager_def fold_simps metrics_step.simps(1) fst_conv snd_conv
      witness_limits_ds_ok not_True_eq_False if_False option.map witness_base_eq health_base_eq)

lemma health_start_reachable:
  "\<exists>ops. metrics_reachable [] witness_limits_ds ops = Some (witness_metrics, health_base)"
  using health_reachable [of "[]"] by auto

lemma evaluated_reachable:
  "\<exists>ops. metrics_reachable [] witness_limits_ds ops = Some (witness_metrics, evaluated_base)"
  using health_reachable [of "[MM_data (DM_commitHeartbeatEvidence (witness_evidence 1 4)), MM_evidenceCommitted 1 5]"]
  by (auto simp: heartbeat_base_eq evaluated_base_eq)

lemmas witness_simps = witness_metrics_def witness_device_def

text \<open>
  C14: Health follows the evidence. In every reachable state, what a health query answers about
  the device is determinate exactly when the heartbeat is supported and the latest evidence is
  valid, not from the future and not older than the smaller of the catalog's and the caller's
  bound; then the state is the one of the native class, it cites that evidence and its exact
  age. In every other case the state is unknown; the query succeeds only on a determinate
  answer about the heartbeat, so no device is called healthy on missing, stale or failed evidence.
  The stored health plays no part: a change of the provider's state changes no answer of a query,
  although a successful change to a state other than ready stores the health of the device as
  unknown with the code provider unavailable.  So until the evidence is too old, a query still
  calls the device healthy (warning, error) after the provider was lost.
\<close>

theorem health_query_follows_evidence:
  assumes "metrics_reachable ps l ops = Some (mm, m)" "mr_entity (mm_runtime mm) = Some entity" "now \<le> i64_max"
    and "hqr_aggregate (queryHealth q now mm m) = Some a"
  shows "let rt = mm_runtime mm; freshness = effectiveFreshness (hc_freshness_ns (mr_heartbeat rt)) (hq_max_age_ns q);
      latest = err_evidence (latestHeartbeatEvidence entity (mr_catalog_generation rt) m) in
    (hr_state a \<noteq> HS_Unknown \<longleftrightarrow> mr_heartbeat_supported rt \<and>
       (\<exists>e. latest = Some e \<and> ev_observed_monotonic_time_ns e \<le> now \<and> fresh_evidence e now freshness)) \<and>
    (\<forall>e. latest = Some e \<and> hr_state a \<noteq> HS_Unknown \<longrightarrow> hr_state a = class_state (ev_native_class e) \<and>
       hr_evidence a = [evidenceReference e] \<and> hr_evidence_age_ns a = now - ev_observed_monotonic_time_ns e) \<and>
    (hqr_status (queryHealth q now mm m) = SUCCESS \<longleftrightarrow>
       hr_state a \<noteq> HS_Unknown \<and> hq_subsystem_id q = kFirmwareHeartbeatHealthId) \<and>
    (\<forall>state t st m'. onProviderStateChanged state t mm m = (st, m') \<longrightarrow>
       queryHealth q now mm m' = queryHealth q now mm m \<and>
       (state \<noteq> PS_Ready \<and> st = SUCCESS \<longrightarrow>
          map_option (\<lambda>r. (hr_state r, hr_code r)) (map_of (dm_health m') entity) =
            Some (HS_Unknown, HC_ProviderUnavailable)))"
proof -
  let ?rt = "mm_runtime mm"
  let ?f = "effectiveFreshness (hc_freshness_ns (mr_heartbeat ?rt)) (hq_max_age_ns q)"
  let ?latest = "err_evidence (latestHeartbeatEvidence entity (mr_catalog_generation ?rt) m)"
  note a = aggregate_heartbeatAt [OF assms(4,2)]
  have sound: "evidence_sound m" using metrics_reachable_inv [OF assms(1)] by (simp add: metrics_inv_def)
  have loss: "onProviderStateChanged state t mm m = (st, m') \<longrightarrow>
      queryHealth q now mm m' = queryHealth q now mm m \<and>
      (state \<noteq> PS_Ready \<and> st = SUCCESS \<longrightarrow>
         map_option (\<lambda>r. (hr_state r, hr_code r)) (map_of (dm_health m') entity) =
           Some (HS_Unknown, HC_ProviderUnavailable))" for state t st m'
    using provider_state_keeps_query provider_loss_stored [OF _ _ assms(2)] by blast
  show ?thesis
  proof (cases "mr_heartbeat_supported ?rt \<and> (\<exists>e. ?latest = Some e \<and> ev_observed_monotonic_time_ns e \<le> now)")
    case True
    then obtain e where e: "?latest = Some e" "ev_observed_monotonic_time_ns e \<le> now" by blast
    note v = latest_sound(1) [OF sound e(1)]
    have eq: "a = health_evaluate ?rt e now ?f" using a(1) heartbeatAt_cases [of ?rt entity now ?f m] True e by simp
    have "fresh_evidence e now ?f \<Longrightarrow> class_state (ev_native_class e) \<noteq> HS_Unknown"
      using validate_evidence_D(8) [OF v] by (auto simp: fresh_evidence_def determinate_iff [symmetric])
    then show ?thesis
      using evaluate_state [OF v e(2) assms(3), of ?rt ?f] True e a(2)
      by (auto simp: Let_def eq determinate_iff loss)
  next
    case False
    then show ?thesis using heartbeatAt_unknown [OF False, of ?f] a by (auto simp: Let_def determinate_iff loss)
  qed
qed

definition lost_base :: data_manager where
  "lost_base = snd (onProviderStateChanged PS_Unavailable 12 witness_metrics evaluated_base)"

theorem health_query_follows_evidence_witness:
  "let q = \<lparr>hq_entity = witness_device, hq_subsystem_id = 1, hq_catalog_generation = 1, hq_max_age_ns = 0\<rparr>;
       ask = (\<lambda>now. queryHealth q now witness_metrics evaluated_base)
   in map_option hr_state (hqr_aggregate (ask 14)) = Some HS_Healthy \<and> hqr_status (ask 14) = SUCCESS \<and>
      map_option hr_state (hqr_aggregate (ask 15)) = Some HS_Unknown \<and>
      map_option hr_state (map_of (dm_health lost_base) witness_device) = Some HS_Unknown \<and>
      queryHealth q 14 witness_metrics lost_base = ask 14"
proof -
  let ?q = "\<lparr>hq_entity = witness_device, hq_subsystem_id = 1, hq_catalog_generation = 1, hq_max_age_ns = 0\<rparr>"
  let ?ask = "\<lambda>now. queryHealth ?q now witness_metrics evaluated_base"
  have run: "map_option hr_state (hqr_aggregate (?ask 14)) = Some HS_Healthy"
    "map_option hr_state (hqr_aggregate (?ask 15)) = Some HS_Unknown"
    by code_simp+
  have "fst (onProviderStateChanged PS_Unavailable 12 witness_metrics evaluated_base) = SUCCESS" by code_simp
  then have lost: "onProviderStateChanged PS_Unavailable 12 witness_metrics evaluated_base = (SUCCESS, lost_base)"
    by (simp add: lost_base_def prod_eq_iff)
  obtain a where a: "hqr_aggregate (?ask 14) = Some a" "hr_state a = HS_Healthy" using run by auto
  obtain ops where reach: "metrics_reachable [] witness_limits_ds ops = Some (witness_metrics, evaluated_base)"
    using evaluated_reachable by blast
  have dev: "mr_entity (mm_runtime witness_metrics) = Some witness_device" by (simp add: witness_simps)
  note fact = health_query_follows_evidence [OF reach dev _ a(1), unfolded Let_def]
  have "hqr_status (?ask 14) = SUCCESS"
    using fact a(2) by (simp add: i64_max_def kFirmwareHeartbeatHealthId_def)
  moreover have "queryHealth ?q 14 witness_metrics lost_base = ?ask 14 \<and>
      map_option (\<lambda>r. (hr_state r, hr_code r)) (map_of (dm_health lost_base) witness_device) =
        Some (HS_Unknown, HC_ProviderUnavailable)"
    using fact lost by (fastforce simp: i64_max_def)
  ultimately show ?thesis using run by (auto simp: Let_def)
qed

text \<open>
  C19: A committed heartbeat becomes the health of the device. After the data manager has
  committed evidence of the device the metrics manager follows, the notification can fail only
  for lack of room in the health store or of commit epochs; on success the stored health of the
  device is the evaluation of exactly that evidence: the state of its native class if it is
  valid and fresh, unknown otherwise, citing it.
\<close>

theorem heartbeat_updates_health:
  assumes "metrics_reachable ps l ops = Some (mm, m)"
    and "mr_entity (mm_runtime mm) = Some (ev_entity e)" "mr_catalog_generation (mm_runtime mm) = dm_generation m"
    and "commitHeartbeatEvidence e m = (c, m1)" "ecr_committed c"
    and "ev_observed_monotonic_time_ns e \<le> now" "now \<le> i64_max"
    and "onHeartbeatEvidenceCommitted (ecr_evidence_id c) now mm m1 = (st, m2)"
  shows "st \<in> {SUCCESS, RESOURCE_EXHAUSTED, INTERNAL} \<and>
    (st = SUCCESS \<longrightarrow> (\<exists>r. map_of (dm_health m2) (ev_entity e) = Some r \<and>
       hr_state r = (if fresh_evidence e now (hc_freshness_ns (mr_heartbeat (mm_runtime mm)))
                     then class_state (ev_native_class e) else HS_Unknown) \<and>
       map rf_evidence_id (hr_evidence r) = [ecr_evidence_id c]))"
  using assms(4)
proof (cases rule: evidence_commit_elim)
  case (committed staged new)
  let ?rt = "mm_runtime mm" and ?f = "hc_freshness_ns (mr_heartbeat (mm_runtime mm))"
  have inv: "metrics_inv (mm, m1)"
    using metrics_inv_data [OF metrics_reachable_inv [OF assms(1)], of "[DM_commitHeartbeatEvidence e]"] assms(4) by simp
  have m1: "dm_catalog m1 = dm_catalog m" "dm_heartbeat_evidence m1 = staged" by (simp_all add: committed(12))
  have new: "new \<in> set staged"
    using committed(4) by (intro evictEvidence_spec(4) [OF committed(11)] expireEvidence_keeps) simp_all
  have sorted: "sorted_wrt (<) (map ev_evidence_id staged)"
    using inv m1(2) by (simp add: metrics_inv_def store_inv_def evidence_inv_def)
  have nz: "dm_next_evidence_id m \<noteq> 0"
    using metrics_reachable_inv [OF assms(1)] by (simp add: metrics_inv_def store_inv_def evidence_inv_def)
  have gen: "dm_generation m \<noteq> 0" using committed(5,6) validate_evidence_D(3) by metis
  have hb: "cst_heartbeat (dm_catalog m1) \<noteq> None"
    using assms(4,5) m1(1) unfolding commitHeartbeatEvidence_def Let_def by (auto split: if_splits option.splits)
  have "find_evidence (dm_next_evidence_id m) staged = Some new"
    using find_evidence_unique [OF sorted new] committed(4) by simp
  then have read: "heartbeatEvidence (ecr_evidence_id c) m1 =
      \<lparr>err_status = SUCCESS, err_observed_commit_epoch = dm_commit_epoch m1, err_evidence = Some new\<rparr>"
    using gen nz by (simp add: heartbeatEvidence_def Let_def committed(3) m1)
  let ?h = "health_evaluate ?rt new now ?f"
  obtain r where com: "commitHealth ?h m1 = (r, m2)" and st: "st = hcr_status r"
    using assms(2,3,6,8) gen read committed(4,6)
    by (cases "commitHealth ?h m1") (auto simp: onHeartbeatEvidenceCommitted_def Let_def ok_def)
  have range: "st \<in> {SUCCESS, RESOURCE_EXHAUSTED, INTERNAL}"
    using evaluate_commit [OF inv _ _ _ hb com] new m1 assms(3,6) committed(4) st by simp
  have "map_of (dm_health m2) (ev_entity e) = Some ?h" if "st = SUCCESS"
    using com
  proof (cases rule: health_commit_elim)
    case committed
    then show ?thesis using \<open>new = _\<close> by (simp add: map_of_put_same)
  qed (use that st in simp)
  moreover have "hr_state ?h = (if fresh_evidence e now ?f then class_state (ev_native_class e) else HS_Unknown)"
    using evaluate_state [of new now ?rt ?f] assms(6,7) committed(4,5) by (simp add: fresh_evidence_def)
  ultimately show ?thesis using range committed(3,4) by (auto simp: evidenceReference_def)
qed (use assms(5) in simp)

theorem heartbeat_updates_health_witness:
  "ecr_committed (fst (commitHeartbeatEvidence (witness_evidence 1 4) health_base)) \<and>
   onHeartbeatEvidenceCommitted 1 5 witness_metrics heartbeat_base = (SUCCESS, evaluated_base) \<and>
   map_option hr_state (map_of (dm_health evaluated_base) witness_device) = Some HS_Healthy"
proof -
  obtain ops where reach: "metrics_reachable [] witness_limits_ds ops = Some (witness_metrics, health_base)"
    using health_start_reachable by blast
  have e: "ev_entity (witness_evidence 1 4) = witness_device" "ev_observed_monotonic_time_ns (witness_evidence 1 4) = 4"
    "ev_native_class (witness_evidence 1 4) = HB_Normal" "ev_status (witness_evidence 1 4) = OS_Valid"
    "mr_entity (mm_runtime witness_metrics) = Some witness_device" "mr_catalog_generation (mm_runtime witness_metrics) = 1"
    "dm_generation health_base = 1" "hc_freshness_ns (mr_heartbeat (mm_runtime witness_metrics)) = 10"
    by (simp_all add: witness_evidence_def witness_simps health_base_def witness_base_def)
  from heartbeat_updates_health [OF reach _ _ heartbeat_base_eq, of 5 SUCCESS evaluated_base] evaluated_base_eq
  have "\<exists>r. map_of (dm_health evaluated_base) witness_device = Some r \<and> hr_state r = HS_Healthy"
    by (auto simp: e fresh_evidence_def class_state_def i64_max_def)
  then show ?thesis using evaluated_base_eq heartbeat_base_eq by auto
qed

text \<open>
  The freshness pass demotes. When \<open>runFreshnessOnce\<close> succeeds at a time, a stored
  determinate health of the device is backed by latest evidence that is not older at that time
  than the catalog allows; a health backed by older evidence has been replaced by unknown.
\<close>

theorem freshness_pass_demotes:
  assumes "metrics_reachable ps l ops = Some (mm, m)" "mr_entity (mm_runtime mm) = Some entity" "now \<le> i64_max"
    and "runFreshnessOnce now mm m = (SUCCESS, m')"
    and "hrr_result (readHealth entity (mr_catalog_generation (mm_runtime mm)) m') = Some x" "isDeterminateHealth (hr_state x)"
  shows "\<exists>e. err_evidence (latestHeartbeatEvidence entity (mr_catalog_generation (mm_runtime mm)) m') = Some e \<and>
    ev_observed_monotonic_time_ns e \<le> now \<and>
    now - ev_observed_monotonic_time_ns e \<le> uint (hc_freshness_ns (mr_heartbeat (mm_runtime mm)))"
proof -
  let ?rt = "mm_runtime mm"
  let ?g = "mr_catalog_generation ?rt" and ?f = "hc_freshness_ns (mr_heartbeat ?rt)"
  let ?latest = "latestHeartbeatEvidence entity ?g m"
  have sound: "evidence_sound m" using metrics_reachable_inv [OF assms(1)] by (simp add: metrics_inv_def)
  consider (kept) "m' = m" "\<exists>c. hrr_result (readHealth entity ?g m) = Some c \<and> \<not> isDeterminateHealth (hr_state c)"
    | (none) "m' = m" "err_evidence ?latest = None" "err_status ?latest = SUCCESS"
    | (fresh) e where "m' = m" "err_evidence ?latest = Some e" "ev_observed_monotonic_time_ns e \<le> now"
        "to_u64 (now - ev_observed_monotonic_time_ns e) \<le> ?f"
    | (stale) e r where "err_evidence ?latest = Some e" "ev_observed_monotonic_time_ns e \<le> now"
        "\<not> to_u64 (now - ev_observed_monotonic_time_ns e) \<le> ?f"
        "commitHealth (health_evaluate ?rt e now ?f) m = (r, m')" "hcr_status r = SUCCESS"
    | (missing) "m' = m" "hrr_result (readHealth entity ?g m) = None"
    using assms(2,4)
    by (auto simp: runFreshnessOnce_def Let_def ok_def not_less split: option.splits if_splits prod.splits)
  then show ?thesis
  proof cases
    case none
    then show ?thesis by (auto simp: latestHeartbeatEvidence_def Let_def split: if_splits option.splits)
  next
    case (fresh e)
    have "0 \<le> ev_observed_monotonic_time_ns e" using validate_evidence_D(4) [OF latest_sound(1) [OF sound fresh(2)]] .
    then show ?thesis using fresh assms(3) to_u64_le_iff [of "now - ev_observed_monotonic_time_ns e" ?f] by auto
  next
    case (stale e r)
    note v = latest_sound [OF sound stale(1)]
    from stale(4) have "map_of (dm_health m') entity = Some (health_evaluate ?rt e now ?f)"
      by (cases rule: health_commit_elim) (use stale(5) v(2) in \<open>auto simp: map_of_put_same\<close>)
    then have x: "x = health_evaluate ?rt e now ?f"
      using assms(5) by (auto simp: readHealth_def Let_def split: if_splits)
    have "\<not> fresh_evidence e now ?f"
      using stale(3) validate_evidence_D(4) [OF v(1)] to_u64_le_iff [of "now - ev_observed_monotonic_time_ns e" ?f] assms(3) stale(2)
      by (auto simp: fresh_evidence_def)
    then have "hr_state x = HS_Unknown" using evaluate_state [OF v(1) stale(2) assms(3), of ?rt ?f] by (simp add: x)
    then show ?thesis using assms(6) by (simp add: determinate_iff)
  qed (use assms(5,6) in auto)
qed

end
