(* ===== verification/Watches.thy ===== *)
theory Watches
  imports Catalog
begin

text \<open>
  \<open>src/product/src/collection/watch_manager.*\<close>: the registry of what clients want to be
  collected. Each logical watch belongs to an owner; the published snapshot merges them into
  effective watches, one per provider item, that the collector schedules. Every method runs
  under the manager's lock; times and periods are nanosecond counts.
\<close>

section \<open>Watches\<close>

type_synonym watch_id = u64

datatype watch_owner_kind = WO_Session | WO_FirmwareHeartbeat | WO_SystemBaseline

datatype watch_owner = WatchOwner (wo_kind: watch_owner_kind) (wo_id: u64)

datatype watch_priority = WP_Low | WP_Normal | WP_High | WP_Heartbeat

primrec watch_priority_num :: "watch_priority \<Rightarrow> nat" where
  "watch_priority_num WP_Low = 0"
| "watch_priority_num WP_Normal = 1"
| "watch_priority_num WP_High = 2"
| "watch_priority_num WP_Heartbeat = 3"

lemma watch_priority_num_inject [simp]: "watch_priority_num a = watch_priority_num b \<longleftrightarrow> a = b"
  by (cases a; cases b) auto

instantiation watch_priority :: linorder
begin

definition less_eq_watch_priority :: "watch_priority \<Rightarrow> watch_priority \<Rightarrow> bool" where
  "less_eq_watch_priority a b = (watch_priority_num a \<le> watch_priority_num b)"

definition less_watch_priority :: "watch_priority \<Rightarrow> watch_priority \<Rightarrow> bool" where
  "less_watch_priority a b = (watch_priority_num a < watch_priority_num b)"

instance
  by intro_classes (auto simp: less_eq_watch_priority_def less_watch_priority_def)

end

datatype watch_delivery_mode = WD_CacheOnly | WD_Event

record watch_requirement =
  wr_catalog_generation :: u64
  wr_entity :: entity_ref
  wr_metrics :: "metric_id list"
  wr_period :: i64
  wr_freshness :: i64
  wr_retention :: i64
  wr_sample_limit :: u64
  wr_priority :: watch_priority
  wr_delivery :: watch_delivery_mode
  wr_allow_partial :: bool

record logical_watch =
  lw_id :: watch_id
  lw_owner :: watch_owner
  lw_requirement :: watch_requirement

datatype effective_watch_key = EffectiveWatchKey
  (wk_provider_id: string) (wk_entity: entity_ref) (wk_kind: provider_data_kind) (wk_data_id: u32)
  (wk_isolation_class: u32)

text \<open>The tuple that \<open>operator<\<close> of \<open>EffectiveWatchKey\<close> compares.\<close>

definition watch_key_tuple ::
  "effective_watch_key \<Rightarrow> string \<times> entity_ref \<times> provider_data_kind \<times> u32 \<times> u32" where
  "watch_key_tuple k = (wk_provider_id k, wk_entity k, wk_kind k, wk_data_id k, wk_isolation_class k)"

lemma watch_key_tuple_inject [simp]: "watch_key_tuple a = watch_key_tuple b \<longleftrightarrow> a = b"
  by (cases a; cases b) (simp add: watch_key_tuple_def)

instantiation effective_watch_key :: linorder
begin

definition less_eq_effective_watch_key :: "effective_watch_key \<Rightarrow> effective_watch_key \<Rightarrow> bool" where
  "less_eq_effective_watch_key a b = (watch_key_tuple a \<le> watch_key_tuple b)"

definition less_effective_watch_key :: "effective_watch_key \<Rightarrow> effective_watch_key \<Rightarrow> bool" where
  "less_effective_watch_key a b = (watch_key_tuple a < watch_key_tuple b)"

instance
  by intro_classes (auto simp: less_eq_effective_watch_key_def less_effective_watch_key_def order_less_le)

end

record effective_watch =
  ew_key :: effective_watch_key
  ew_period :: i64
  ew_freshness :: i64
  ew_retention :: i64
  ew_priority :: watch_priority
  ew_logical_watches :: "watch_id list"

definition default_effective_watch :: effective_watch where
  "default_effective_watch =
     \<lparr>ew_key = EffectiveWatchKey [] (EntityRef EK_Unknown 0 0) PD_Metric 0 0, ew_period = 0,
      ew_freshness = 0, ew_retention = 0, ew_priority = WP_Low, ew_logical_watches = []\<rparr>"

record watch_snapshot =
  ws_version :: u64
  ws_catalog_generation :: u64
  ws_logical_watches :: "logical_watch list"
  ws_effective_watches :: "effective_watch list"

definition default_watch_snapshot :: watch_snapshot where
  "default_watch_snapshot =
     \<lparr>ws_version = 0, ws_catalog_generation = 0, ws_logical_watches = [], ws_effective_watches = []\<rparr>"

record watch_limits =
  wl_max_logical_watches :: size_t
  wl_max_effective_watches :: size_t
  wl_max_metrics_per_watch :: size_t

definition WatchLimits_validate :: "watch_limits \<Rightarrow> pdcm_status" where
  "WatchLimits_validate l =
    (if wl_max_logical_watches l = 0 \<or> wl_max_effective_watches l = 0 \<or> wl_max_metrics_per_watch l = 0
     then INVALID_ARGUMENT else SUCCESS)"

record watch_create_result =
  wcr_status :: pdcm_status
  wcr_watch_id :: watch_id
  wcr_unsupported_metrics :: "metric_id list"

section \<open>State\<close>

record watch_catalog =
  wc_view :: "catalog_view option"
  wc_descriptors :: "(metric_id, metric_descriptor) omap"
  wc_supported :: "(metric_id, bool) omap"
  wc_heartbeat :: "health_catalog_entry option"
  wc_heartbeat_supported :: bool
  wc_provider_id :: string
  wc_entity :: "entity_ref option"
  wc_topology_unsupported :: bool

definition default_watch_catalog :: watch_catalog where
  "default_watch_catalog =
     \<lparr>wc_view = None, wc_descriptors = [], wc_supported = [], wc_heartbeat = None,
      wc_heartbeat_supported = False, wc_provider_id = [], wc_entity = None, wc_topology_unsupported = False\<rparr>"

record watch_manager =
  wm_limits :: watch_limits
  wm_catalog :: watch_catalog
  wm_logical :: "(watch_id, logical_watch) omap"
  wm_snapshot :: watch_snapshot
  wm_sample_counts :: "(watch_id, u64) omap"
  wm_last_sample_times :: "(watch_id, i64) omap"
  wm_heartbeat_baseline :: "effective_watch option"
  wm_next_watch_id :: watch_id

definition watch_manager_start :: "watch_limits \<Rightarrow> watch_manager" where
  "watch_manager_start l =
     \<lparr>wm_limits = l, wm_catalog = default_watch_catalog, wm_logical = [], wm_snapshot = default_watch_snapshot,
      wm_sample_counts = [], wm_last_sample_times = [], wm_heartbeat_baseline = None, wm_next_watch_id = 1\<rparr>"

text \<open>The constructor throws on invalid limits.\<close>

definition WatchManager :: "watch_limits \<Rightarrow> watch_manager option" where
  "WatchManager l = (if \<not> ok (WatchLimits_validate l) then None else Some (watch_manager_start l))"

section \<open>Building and publishing a snapshot\<close>

definition metric_watch_key :: "string \<Rightarrow> entity_ref \<Rightarrow> metric_id \<Rightarrow> effective_watch_key" where
  "metric_watch_key pid entity metric = EffectiveWatchKey pid entity PD_Metric metric 0"

text \<open>The body of the inner loop of \<open>buildSnapshot\<close>; \<open>effective[key]\<close> default-constructs.\<close>

definition merge_watch ::
  "string \<Rightarrow> watch_id \<Rightarrow> watch_requirement \<Rightarrow> metric_id \<Rightarrow>
   (effective_watch_key, effective_watch) omap \<Rightarrow> (effective_watch_key, effective_watch) omap" where
  "merge_watch pid i r metric effective =
    (let key = metric_watch_key pid (wr_entity r) metric;
         merged = (case map_of effective key of None \<Rightarrow> default_effective_watch | Some e \<Rightarrow> e);
         merged =
          (if ew_logical_watches merged = []
           then merged\<lparr>ew_key := key, ew_period := wr_period r, ew_freshness := wr_freshness r,
                  ew_retention := wr_retention r, ew_priority := wr_priority r\<rparr>
           else merged\<lparr>ew_period := min (ew_period merged) (wr_period r),
                  ew_freshness := min (ew_freshness merged) (wr_freshness r),
                  ew_retention := max (ew_retention merged) (wr_retention r),
                  ew_priority := max (ew_priority merged) (wr_priority r)\<rparr>)
     in omap_put key (merged\<lparr>ew_logical_watches := ew_logical_watches merged @ [i]\<rparr>) effective)"

definition merge_logical ::
  "string \<Rightarrow> (watch_id, logical_watch) omap \<Rightarrow> (effective_watch_key, effective_watch) omap \<Rightarrow>
   (effective_watch_key, effective_watch) omap" where
  "merge_logical pid logical effective =
     fold (\<lambda>(i, w). fold (merge_watch pid i (lw_requirement w)) (wr_metrics (lw_requirement w))) logical effective"

definition buildSnapshot ::
  "watch_catalog \<Rightarrow> effective_watch option \<Rightarrow> (watch_id, logical_watch) omap \<Rightarrow> u64 \<Rightarrow> watch_snapshot" where
  "buildSnapshot cat baseline logical version =
    (let effective = (case baseline of None \<Rightarrow> [] | Some b \<Rightarrow> [(ew_key b, b)])
     in \<lparr>ws_version = version,
         ws_catalog_generation = (case wc_view cat of None \<Rightarrow> 0 | Some v \<Rightarrow> cv_generation v),
         ws_logical_watches = map snd logical,
         ws_effective_watches = map snd (merge_logical (wc_provider_id cat) logical effective)\<rparr>)"

definition watch_publish ::
  "(watch_id, logical_watch) omap \<Rightarrow> watch_manager \<Rightarrow> pdcm_status \<times> watch_manager" where
  "watch_publish logical m =
    (if length logical > wl_max_logical_watches (wm_limits m) then (RESOURCE_EXHAUSTED, m)
     else if ws_version (wm_snapshot m) = u64_max then (INTERNAL, m)
     else
      let snapshot = buildSnapshot (wm_catalog m) (wm_heartbeat_baseline m) logical (ws_version (wm_snapshot m) + 1);
          active = (\<lambda>i. map_of logical i \<noteq> None)
      in if length (ws_effective_watches snapshot) > wl_max_effective_watches (wm_limits m)
         then (RESOURCE_EXHAUSTED, m)
         else (SUCCESS, m\<lparr>wm_logical := logical, wm_sample_counts := filter (\<lambda>(i, _). active i) (wm_sample_counts m),
                 wm_last_sample_times := filter (\<lambda>(i, _). active i) (wm_last_sample_times m), wm_snapshot := snapshot\<rparr>))"

section \<open>Operations\<close>

definition next_watch_catalog :: "catalog_view \<Rightarrow> target_catalog \<Rightarrow> watch_catalog" where
  "next_watch_catalog v tc =
    (let cat = default_watch_catalog\<lparr>wc_view := Some v, wc_topology_unsupported := cv_topology_unsupported v,
           wc_descriptors := fold (\<lambda>d m. omap_emplace (md_id d) d m) (tc_metrics tc) [],
           wc_heartbeat := Some (hd (tc_health tc))\<rparr>
     in case cv_entities v of
          [entity] \<Rightarrow>
           if cv_topology_unsupported v then cat
           else
            let cat = cat\<lparr>wc_entity := Some (en_ref entity), wc_provider_id := en_provider_version entity\<rparr>
            in (case CatalogView_capabilities (en_ref entity) v of
                  (SUCCESS, Some s) \<Rightarrow>
                   fold (\<lambda>item cat.
                     if ci_kind item = CP_Metric
                     then cat\<lparr>wc_supported := omap_put (ci_id item) (ci_supported item) (wc_supported cat)\<rparr>
                     else if ci_kind item = CP_Health \<and> ci_id item = kFirmwareHeartbeatHealthId
                     then cat\<lparr>wc_heartbeat_supported := ci_supported item\<rparr> else cat) (cs_items s) cat
                | _ \<Rightarrow> cat)
        | _ \<Rightarrow> cat)"

definition activate_watches :: "catalog_view \<Rightarrow> target_catalog \<Rightarrow> watch_manager \<Rightarrow> pdcm_status \<times> watch_manager" where
  "activate_watches v tc m =
    (let cat = next_watch_catalog v tc;
         m = m\<lparr>wm_catalog := cat, wm_heartbeat_baseline := None\<rparr>
     in watch_publish
          (filter (\<lambda>(_, w). wc_entity cat \<noteq> None \<and>
             wr_catalog_generation (lw_requirement w) = cv_generation v \<and>
             wc_entity cat = Some (wr_entity (lw_requirement w))) (wm_logical m)) m)"

definition watch_activateCatalog ::
  "catalog_view option \<Rightarrow> target_catalog \<Rightarrow> watch_manager \<Rightarrow> pdcm_status \<times> watch_manager" where
  "watch_activateCatalog catalog tc m =
    (case catalog of
       None \<Rightarrow> (INVALID_ARGUMENT, m)
     | Some v \<Rightarrow>
        if cv_generation v = 0 then (INVALID_ARGUMENT, m)
        else if \<not> ok (TargetCatalog_validate tc) then (TargetCatalog_validate tc, m)
        else
         case wc_view (wm_catalog m) of
           Some current \<Rightarrow>
            if cv_generation v < cv_generation current then (STALE_GENERATION, m)
            else if cv_generation v = cv_generation current then (SUCCESS, m)
            else activate_watches v tc m
         | None \<Rightarrow> activate_watches v tc m)"

definition setFirmwareHeartbeatBaseline :: "i64 \<Rightarrow> i64 \<Rightarrow> watch_manager \<Rightarrow> pdcm_status \<times> watch_manager" where
  "setFirmwareHeartbeatBaseline period retention m =
    (let cat = wm_catalog m
     in if wc_view cat = None then (NOT_INITIALIZED, m)
        else
         case (wc_entity cat, wc_heartbeat cat) of
           (Some entity, Some h) \<Rightarrow>
            (case hc_provider_data_id h of
               None \<Rightarrow> (UNSUPPORTED, m)
             | Some data_id \<Rightarrow>
                if wc_topology_unsupported cat \<or> \<not> wc_heartbeat_supported cat then (UNSUPPORTED, m)
                else if hc_freshness_ns h > to_u64 i64_max \<or> period \<le> 0 \<or>
                   to_u64 period > hc_freshness_ns h \<or> retention < to_i64 (hc_freshness_ns h)
                then (INVALID_ARGUMENT, m)
                else
                 let baseline = default_effective_watch
                       \<lparr>ew_key := EffectiveWatchKey (wc_provider_id cat) entity PD_HeartbeatEvidence data_id 0,
                        ew_period := period, ew_freshness := to_i64 (hc_freshness_ns h),
                        ew_retention := retention, ew_priority := WP_Heartbeat\<rparr>;
                     (st, m') = watch_publish (wm_logical m) (m\<lparr>wm_heartbeat_baseline := Some baseline\<rparr>)
                 in (st, if ok st then m' else m'\<lparr>wm_heartbeat_baseline := wm_heartbeat_baseline m\<rparr>))
         | _ \<Rightarrow> (UNSUPPORTED, m))"

definition clearFirmwareHeartbeatBaseline :: "watch_manager \<Rightarrow> pdcm_status \<times> watch_manager" where
  "clearFirmwareHeartbeatBaseline m =
    (if wm_heartbeat_baseline m = None then (SUCCESS, m)
     else
      let (st, m') = watch_publish (wm_logical m) (m\<lparr>wm_heartbeat_baseline := None\<rparr>)
      in (st, if ok st then m' else m'\<lparr>wm_heartbeat_baseline := wm_heartbeat_baseline m\<rparr>))"

text \<open>
  The loop over the metrics, with the two output vectors: on an error they keep what was
  appended so far.
\<close>

fun select_metrics ::
  "watch_catalog \<Rightarrow> i64 \<Rightarrow> metric_id set \<Rightarrow> metric_id list \<Rightarrow> metric_id list \<Rightarrow> metric_id list \<Rightarrow>
   pdcm_status \<times> metric_id list \<times> metric_id list" where
  "select_metrics cat period seen supported unsupported [] = (SUCCESS, supported, unsupported)"
| "select_metrics cat period seen supported unsupported (metric # metrics) =
    (if metric = 0 \<or> metric \<in> seen then (INVALID_ARGUMENT, supported, unsupported)
     else
      let seen = insert metric seen
      in case map_of (wc_descriptors cat) metric of
           Some d \<Rightarrow>
            if md_collection_mode d = CM_Poll \<and> map_of (wc_supported cat) metric = Some True
            then
             (if period < to_i64 (md_min_period_ns d) then (INVALID_ARGUMENT, supported, unsupported)
              else select_metrics cat period seen (supported @ [metric]) unsupported metrics)
            else select_metrics cat period seen supported (unsupported @ [metric]) metrics
         | None \<Rightarrow> select_metrics cat period seen supported (unsupported @ [metric]) metrics)"

definition validateRequirement ::
  "watch_requirement \<Rightarrow> watch_manager \<Rightarrow> pdcm_status \<times> metric_id list \<times> metric_id list" where
  "validateRequirement r m =
    (let cat = wm_catalog m
     in case wc_view cat of
          None \<Rightarrow> (NOT_INITIALIZED, [], [])
        | Some v \<Rightarrow>
           if wc_topology_unsupported cat \<or> wc_entity cat = None then (UNSUPPORTED, [], [])
           else if wr_catalog_generation r \<noteq> cv_generation v \<or> wc_entity cat \<noteq> Some (wr_entity r)
           then (STALE_GENERATION, [], [])
           else if wr_metrics r = [] \<or> length (wr_metrics r) > wl_max_metrics_per_watch (wm_limits m) \<or>
              wr_period r \<le> 0 \<or> wr_freshness r < wr_period r \<or> wr_retention r < wr_freshness r
           then (INVALID_ARGUMENT, [], [])
           else select_metrics cat (wr_period r) {} [] [] (wr_metrics r))"

definition watch_create ::
  "watch_owner \<Rightarrow> watch_requirement \<Rightarrow> watch_manager \<Rightarrow> watch_create_result \<times> watch_manager" where
  "watch_create owner r m =
    (let fail = (\<lambda>st unsupported. (\<lparr>wcr_status = st, wcr_watch_id = 0, wcr_unsupported_metrics = unsupported\<rparr>, m))
     in if wo_kind owner = WO_Session \<and> wo_id owner = 0 then fail INVALID_ARGUMENT []
        else if wm_next_watch_id m = u64_max then fail RESOURCE_EXHAUSTED []
        else
         let (st, supported, unsupported) = validateRequirement r m
         in if \<not> ok st then fail st unsupported
            else if unsupported \<noteq> [] \<and> \<not> wr_allow_partial r then fail UNSUPPORTED unsupported
            else if supported = [] then fail UNSUPPORTED unsupported
            else
             let i = wm_next_watch_id m;
                 w = \<lparr>lw_id = i, lw_owner = owner, lw_requirement = r\<lparr>wr_metrics := sort supported\<rparr>\<rparr>;
                 (published, m') = watch_publish (omap_emplace i w (wm_logical m)) m
             in if \<not> ok published then fail published unsupported
                else
                 (\<lparr>wcr_status = (if unsupported = [] then SUCCESS else PARTIAL_RESULT), wcr_watch_id = i,
                   wcr_unsupported_metrics = unsupported\<rparr>, m'\<lparr>wm_next_watch_id := i + 1\<rparr>))"

definition watch_destroy :: "watch_owner \<Rightarrow> watch_id \<Rightarrow> watch_manager \<Rightarrow> pdcm_status \<times> watch_manager" where
  "watch_destroy owner i m =
    (case map_of (wm_logical m) i of
       None \<Rightarrow> (NOT_FOUND, m)
     | Some w \<Rightarrow>
        if lw_owner w \<noteq> owner then (PERMISSION_DENIED, m)
        else watch_publish (omap_erase i (wm_logical m)) m)"

definition removeOwner :: "watch_owner \<Rightarrow> watch_manager \<Rightarrow> pdcm_status \<times> watch_manager" where
  "removeOwner owner m =
    (let logical = filter (\<lambda>(_, w). lw_owner w \<noteq> owner) (wm_logical m)
     in if length logical = length (wm_logical m) then (NOT_FOUND, m) else watch_publish logical m)"

section \<open>Counting samples\<close>

record sample_work =
  sw_logical :: "(watch_id, logical_watch) omap"
  sw_counts :: "(watch_id, u64) omap"
  sw_times :: "(watch_id, i64) omap"
  sw_found_any :: bool
  sw_changed :: bool
  sw_removed :: bool

text \<open>The body of the loop of \<open>recordSamples\<close> for one watch.\<close>

definition record_watch :: "i64 \<Rightarrow> i64 \<Rightarrow> u64 \<Rightarrow> i64 \<Rightarrow> watch_id \<Rightarrow> sample_work \<Rightarrow> sample_work" where
  "record_watch first period n until i s =
    (case map_of (sw_logical s) i of
       None \<Rightarrow> s
     | Some w \<Rightarrow>
        let s = s\<lparr>sw_found_any := True\<rparr>;
            skipped =
             (case map_of (sw_times s) i of
                Some previous \<Rightarrow> if previous \<ge> first then to_u64 ((previous - first) div period) + 1 else 0
              | None \<Rightarrow> 0)
        in if skipped \<ge> n then s
           else
            let added = n - skipped;
                current = (case map_of (sw_counts s) i of None \<Rightarrow> 0 | Some c \<Rightarrow> c);
                updated = (if added > u64_max - current then u64_max else current + added);
                limit = wr_sample_limit (lw_requirement w)
            in if limit \<noteq> 0 \<and> updated \<ge> limit
               then s\<lparr>sw_changed := True, sw_removed := True, sw_logical := omap_erase i (sw_logical s),
                      sw_counts := omap_erase i (sw_counts s), sw_times := omap_erase i (sw_times s)\<rparr>
               else s\<lparr>sw_changed := True, sw_counts := omap_put i updated (sw_counts s),
                      sw_times := omap_put i until (sw_times s)\<rparr>)"

definition recordSamples ::
  "watch_id list \<Rightarrow> i64 \<Rightarrow> i64 \<Rightarrow> u64 \<Rightarrow> watch_manager \<Rightarrow> pdcm_status \<times> watch_manager" where
  "recordSamples ids first period n m =
    (if ids = [] \<or> first < 0 \<or> period \<le> 0 \<or> n = 0 then (INVALID_ARGUMENT, m)
     else if adjacent_find (sort ids) then (INVALID_ARGUMENT, m)
     else if n - 1 > to_u64 (i64_max div period) then (INVALID_ARGUMENT, m)
     else
      let delta = period * to_i64 (n - 1)
      in if first > i64_max - delta then (INVALID_ARGUMENT, m)
         else
          let s = fold (record_watch first period n (first + delta)) (sort ids)
                \<lparr>sw_logical = wm_logical m, sw_counts = wm_sample_counts m, sw_times = wm_last_sample_times m,
                 sw_found_any = False, sw_changed = False, sw_removed = False\<rparr>;
              store = (\<lambda>m. m\<lparr>wm_sample_counts := sw_counts s, wm_last_sample_times := sw_times s\<rparr>)
          in if \<not> sw_found_any s then (NOT_FOUND, m)
             else if \<not> sw_changed s then (SUCCESS, m)
             else if sw_removed s
             then (let (st, m') = watch_publish (sw_logical s) m in if \<not> ok st then (st, m') else (SUCCESS, store m'))
             else (SUCCESS, store m))"

section \<open>What a snapshot holds\<close>

text \<open>The logical watches that want a key, and the effective watch that combines them.\<close>

definition wanting ::
  "string \<Rightarrow> effective_watch_key \<Rightarrow> (watch_id, logical_watch) omap \<Rightarrow> (watch_id, logical_watch) omap" where
  "wanting pid k logical =
     filter (\<lambda>(_, w). k \<in> metric_watch_key pid (wr_entity (lw_requirement w)) ` set (wr_metrics (lw_requirement w))) logical"

definition combined :: "effective_watch_key \<Rightarrow> (watch_id, logical_watch) omap \<Rightarrow> effective_watch" where
  "combined k ws =
    (let rs = set (map (lw_requirement \<circ> snd) ws)
     in \<lparr>ew_key = k, ew_period = Min (wr_period ` rs), ew_freshness = Min (wr_freshness ` rs),
         ew_retention = Max (wr_retention ` rs), ew_priority = Max (wr_priority ` rs),
         ew_logical_watches = map fst ws\<rparr>)"

lemma metric_watch_key_inject [simp]:
  "metric_watch_key p e a = metric_watch_key p' e' b \<longleftrightarrow> p = p' \<and> e = e' \<and> a = b"
  by (simp add: metric_watch_key_def)

definition joined :: "effective_watch_key \<Rightarrow> watch_id \<Rightarrow> watch_requirement \<Rightarrow> effective_watch option \<Rightarrow> effective_watch" where
  "joined k i r old =
    (let merged = (case old of None \<Rightarrow> default_effective_watch | Some e \<Rightarrow> e);
         merged =
          (if ew_logical_watches merged = []
           then merged\<lparr>ew_key := k, ew_period := wr_period r, ew_freshness := wr_freshness r,
                  ew_retention := wr_retention r, ew_priority := wr_priority r\<rparr>
           else merged\<lparr>ew_period := min (ew_period merged) (wr_period r),
                  ew_freshness := min (ew_freshness merged) (wr_freshness r),
                  ew_retention := max (ew_retention merged) (wr_retention r),
                  ew_priority := max (ew_priority merged) (wr_priority r)\<rparr>)
     in merged\<lparr>ew_logical_watches := ew_logical_watches merged @ [i]\<rparr>)"

lemma merge_watch_joined:
  "merge_watch pid i r metric effective =
     (let k = metric_watch_key pid (wr_entity r) metric in omap_put k (joined k i r (map_of effective k)) effective)"
  by (simp add: merge_watch_def joined_def Let_def)

lemma merge_watch_ok: "omap_ok effective \<Longrightarrow> omap_ok (fold (merge_watch pid i r) ms effective)"
  by (induction ms arbitrary: effective) (auto simp: merge_watch_joined Let_def)

lemma merge_metrics:
  "omap_ok effective \<Longrightarrow> distinct ms \<Longrightarrow>
   map_of (fold (merge_watch pid i r) ms effective) k =
   (if k \<in> metric_watch_key pid (wr_entity r) ` set ms then Some (joined k i r (map_of effective k))
    else map_of effective k)"
proof (induction ms arbitrary: effective)
  case (Cons metric ms)
  then have "omap_ok (merge_watch pid i r metric effective)" by (simp add: merge_watch_joined Let_def)
  from Cons.IH [OF this] Cons.prems show ?case
    by (auto simp: merge_watch_joined Let_def map_of_omap_put)
qed simp

lemma joined_combined:
  "joined k i (lw_requirement w) (if ws = [] then None else Some (combined k ws)) = combined k (ws @ [(i, w)])"
proof (cases "ws = []")
  case False
  then have "finite (f ` lw_requirement ` snd ` set ws)" "f ` lw_requirement ` snd ` set ws \<noteq> {}" for f :: "watch_requirement \<Rightarrow> 'a"
    by auto
  with False show ?thesis
    by (simp add: joined_def combined_def Let_def Min_insert Max_insert image_comp min.commute max.commute comp_def)
qed (simp add: joined_def combined_def Let_def default_effective_watch_def)

text \<open>A map of effective watches that holds what the logical watches want, besides the baseline.\<close>

definition merged_ok ::
  "string \<Rightarrow> (watch_id, logical_watch) omap \<Rightarrow> (effective_watch_key, effective_watch) omap \<Rightarrow>
   (effective_watch_key, effective_watch) omap \<Rightarrow> bool" where
  "merged_ok pid logical start effective \<longleftrightarrow>
     omap_ok effective \<and>
     (\<forall>k. map_of effective k =
       (if wanting pid k logical = [] then map_of start k else Some (combined k (wanting pid k logical))))"

lemma merged_ok_step:
  assumes "merged_ok pid logical start effective" "distinct (wr_metrics (lw_requirement w))"
    and "\<And>k. k \<in> fst ` set start \<Longrightarrow> wk_kind k \<noteq> PD_Metric"
  shows "merged_ok pid (logical @ [(i, w)]) start
    (fold (merge_watch pid i (lw_requirement w)) (wr_metrics (lw_requirement w)) effective)"
  unfolding merged_ok_def
proof (intro conjI allI)
  let ?r = "lw_requirement w"
  let ?keys = "metric_watch_key pid (wr_entity ?r) ` set (wr_metrics ?r)"
  have ok: "omap_ok effective" using assms(1) by (simp add: merged_ok_def)
  then show "omap_ok (fold (merge_watch pid i ?r) (wr_metrics ?r) effective)" by (rule merge_watch_ok)
  fix k
  have old: "map_of effective k =
      (if wanting pid k logical = [] then map_of start k else Some (combined k (wanting pid k logical)))"
    using assms(1) by (simp add: merged_ok_def)
  have "map_of start k = None" if key: "k \<in> ?keys"
  proof (rule ccontr)
    assume "map_of start k \<noteq> None"
    then have "k \<in> fst ` set start" by (simp add: map_of_eq_None_iff)
    from assms(3) [OF this] key show False by (auto simp: metric_watch_key_def)
  qed
  then have "joined k i ?r (map_of effective k) = combined k (wanting pid k logical @ [(i, w)])" if "k \<in> ?keys"
    using that old joined_combined [of k i w "wanting pid k logical"]
    by (cases "wanting pid k logical = []") simp_all
  moreover have "wanting pid k (logical @ [(i, w)]) = wanting pid k logical @ (if k \<in> ?keys then [(i, w)] else [])"
    by (simp add: wanting_def)
  ultimately show "map_of (fold (merge_watch pid i ?r) (wr_metrics ?r) effective) k =
      (if wanting pid k (logical @ [(i, w)]) = [] then map_of start k
       else Some (combined k (wanting pid k (logical @ [(i, w)]))))"
    using merge_metrics [OF ok assms(2)] old by simp
qed

lemma merge_logical_ok:
  assumes "\<forall>(i, w) \<in> set logical. distinct (wr_metrics (lw_requirement w))" "omap_ok start"
    and "\<And>k. k \<in> fst ` set start \<Longrightarrow> wk_kind k \<noteq> PD_Metric"
  shows "merged_ok pid logical start (merge_logical pid logical start)"
  using assms(1)
proof (induction logical rule: rev_induct)
  case Nil
  then show ?case by (simp add: merged_ok_def merge_logical_def wanting_def assms(2))
next
  case (snoc e logical)
  obtain i w where e: "e = (i, w)" by (cases e)
  from snoc have "merged_ok pid logical start (merge_logical pid logical start)" by auto
  from merged_ok_step [OF this _ assms(3), of w i] snoc.prems show ?case by (simp add: e merge_logical_def)
qed

section \<open>The invariant\<close>

definition baseline_ok :: "effective_watch option \<Rightarrow> bool" where
  "baseline_ok b \<longleftrightarrow> (\<forall>e. b = Some e \<longrightarrow> wk_kind (ew_key e) = PD_HeartbeatEvidence)"

text \<open>A registered watch: its requirement is well formed and for the active catalog.\<close>

definition watch_ok :: "watch_catalog \<Rightarrow> watch_id \<Rightarrow> watch_id \<Rightarrow> logical_watch \<Rightarrow> bool" where
  "watch_ok cat bound i w \<longleftrightarrow>
    (let r = lw_requirement w
     in lw_id w = i \<and> 0 < i \<and> i < bound \<and> wr_metrics r \<noteq> [] \<and> distinct (wr_metrics r) \<and>
        0 < wr_period r \<and> wr_period r \<le> wr_freshness r \<and> wr_freshness r \<le> wr_retention r \<and>
        wc_entity cat = Some (wr_entity r) \<and>
        map_option cv_generation (wc_view cat) = Some (wr_catalog_generation r))"

text \<open>The counter and the last counted time of a watch; only registered watches have them.\<close>

definition counters_ok :: "logical_watch option \<Rightarrow> u64 option \<Rightarrow> i64 option \<Rightarrow> bool" where
  "counters_ok w c t \<longleftrightarrow>
     (w = None \<longrightarrow> c = None \<and> t = None) \<and>
     (\<forall>w' c'. w = Some w' \<and> c = Some c' \<longrightarrow>
        wr_sample_limit (lw_requirement w') = 0 \<or> c' < wr_sample_limit (lw_requirement w')) \<and>
     (\<forall>t'. t = Some t' \<longrightarrow> 0 \<le> t' \<and> t' \<le> i64_max)"

text \<open>
  The last part of the invariant is about a manager that can still publish: at the largest
  version every publication fails, also the one of \<open>activateCatalog\<close>, which has replaced the
  catalog before.
\<close>

definition wm_inv :: "watch_manager \<Rightarrow> bool" where
  "wm_inv m \<longleftrightarrow>
     omap_ok (wm_logical m) \<and> omap_ok (wm_sample_counts m) \<and> omap_ok (wm_last_sample_times m) \<and>
     (\<forall>i. counters_ok (map_of (wm_logical m) i) (map_of (wm_sample_counts m) i) (map_of (wm_last_sample_times m) i)) \<and>
     0 < wm_next_watch_id m \<and> length (wm_logical m) \<le> wl_max_logical_watches (wm_limits m) \<and>
     length (ws_effective_watches (wm_snapshot m)) \<le> wl_max_effective_watches (wm_limits m) \<and>
     baseline_ok (wm_heartbeat_baseline m) \<and>
     (\<forall>(i, w) \<in> set (wm_logical m). distinct (wr_metrics (lw_requirement w)) \<and> 0 < i \<and> i < wm_next_watch_id m) \<and>
     (ws_version (wm_snapshot m) \<noteq> u64_max \<longrightarrow>
        wm_snapshot m = buildSnapshot (wm_catalog m) (wm_heartbeat_baseline m) (wm_logical m) (ws_version (wm_snapshot m)) \<and>
        (\<forall>(i, w) \<in> set (wm_logical m). watch_ok (wm_catalog m) (wm_next_watch_id m) i w))"

lemma publish_elim:
  assumes "watch_publish logical m = (st, m')"
  obtains (failed) "st \<noteq> SUCCESS" "m' = m"
  | (published) "st = SUCCESS" "length logical \<le> wl_max_logical_watches (wm_limits m)"
    "ws_version (wm_snapshot m) \<noteq> u64_max"
    "length (ws_effective_watches (buildSnapshot (wm_catalog m) (wm_heartbeat_baseline m) logical
       (ws_version (wm_snapshot m) + 1))) \<le> wl_max_effective_watches (wm_limits m)"
    "m' = m\<lparr>wm_logical := logical,
       wm_sample_counts := filter (\<lambda>(i, _). map_of logical i \<noteq> None) (wm_sample_counts m),
       wm_last_sample_times := filter (\<lambda>(i, _). map_of logical i \<noteq> None) (wm_last_sample_times m),
       wm_snapshot := buildSnapshot (wm_catalog m) (wm_heartbeat_baseline m) logical (ws_version (wm_snapshot m) + 1)\<rparr>"
  using assms by (auto simp: watch_publish_def Let_def not_less split: if_splits)

lemma map_of_filter_key: "map_of (filter (\<lambda>(i, _). P i) m) k = (if P k then map_of m k else None)"
  by (induction m) auto

lemma in_omap: "omap_ok m \<Longrightarrow> (k, v) \<in> set m \<longleftrightarrow> map_of m k = Some v"
  by (auto simp: omap_ok_distinct dest: map_of_SomeD)

lemma buildSnapshot_version [simp]: "ws_version (buildSnapshot cat b logical version) = version"
  by (simp add: buildSnapshot_def Let_def)

lemma wm_invD:
  assumes "wm_inv m"
  shows "omap_ok (wm_logical m)" "baseline_ok (wm_heartbeat_baseline m)" "0 < wm_next_watch_id m"
    and "counters_ok (map_of (wm_logical m) i) (map_of (wm_sample_counts m) i) (map_of (wm_last_sample_times m) i)"
    and "ws_version (wm_snapshot m) \<noteq> u64_max \<Longrightarrow> (i, w) \<in> set (wm_logical m) \<Longrightarrow>
      watch_ok (wm_catalog m) (wm_next_watch_id m) i w"
    and "(i, w) \<in> set (wm_logical m) \<Longrightarrow> distinct (wr_metrics (lw_requirement w)) \<and> 0 < i \<and> i < wm_next_watch_id m"
    and "omap_ok (wm_sample_counts m)" "omap_ok (wm_last_sample_times m)"
  using assms by (auto simp: wm_inv_def)

text \<open>Publishing keeps the invariant whatever happened to the catalog and the baseline before.\<close>

lemma publish_inv:
  assumes "wm_inv m" "watch_publish logical (m\<lparr>wm_catalog := cat, wm_heartbeat_baseline := b\<rparr>) = (SUCCESS, m')"
    and "omap_ok logical" "baseline_ok b"
    and ok: "\<And>i w. (i, w) \<in> set logical \<Longrightarrow> watch_ok cat (wm_next_watch_id m) i w"
    and counters: "\<And>i w. map_of logical i = Some w \<Longrightarrow>
      counters_ok (Some w) (map_of (wm_sample_counts m) i) (map_of (wm_last_sample_times m) i)"
  shows "wm_inv m'"
  using assms(2)
proof (cases rule: publish_elim)
  case published
  have "\<forall>(i, w) \<in> set logical. distinct (wr_metrics (lw_requirement w)) \<and> 0 < i \<and> i < wm_next_watch_id m"
    using ok by (auto simp: watch_ok_def Let_def)
  moreover have "\<forall>(i, w) \<in> set logical. watch_ok cat (wm_next_watch_id m) i w" using ok by auto
  moreover have "counters_ok (map_of logical i)
      (map_of (filter (\<lambda>(i, _). map_of logical i \<noteq> None) (wm_sample_counts m)) i)
      (map_of (filter (\<lambda>(i, _). map_of logical i \<noteq> None) (wm_last_sample_times m)) i)" for i
    using counters [of i] by (cases "map_of logical i") (simp_all add: map_of_filter_key counters_ok_def)
  ultimately show ?thesis
    using assms(3,4) published wm_invD(3,7,8) [OF assms(1)] unfolding wm_inv_def by simp
qed simp

lemma publish_inv_same:
  assumes "wm_inv m" "watch_publish logical (m\<lparr>wm_heartbeat_baseline := b\<rparr>) = (st, m')" "omap_ok logical"
    and "set logical \<subseteq> set (wm_logical m)" "baseline_ok b"
  shows "if ok st then wm_inv m' else m' = m\<lparr>wm_heartbeat_baseline := b\<rparr>"
  using assms(2)
proof (cases rule: publish_elim)
  case published
  then have pub: "watch_publish logical (m\<lparr>wm_catalog := wm_catalog m, wm_heartbeat_baseline := b\<rparr>) = (SUCCESS, m')"
    using assms(2) by simp
  have "counters_ok (Some w) (map_of (wm_sample_counts m) i) (map_of (wm_last_sample_times m) i)"
    if "map_of logical i = Some w" for i w
  proof -
    have "map_of (wm_logical m) i = Some w"
      using that assms(4) in_omap [OF assms(3)] in_omap [OF wm_invD(1) [OF assms(1)]] by blast
    then show ?thesis using wm_invD(4) [OF assms(1), of i] by simp
  qed
  moreover have "watch_ok (wm_catalog m) (wm_next_watch_id m) i w" if "(i, w) \<in> set logical" for i w
    using that assms(4) published(3) wm_invD(5) [OF assms(1)] by auto
  ultimately have "wm_inv m'" using publish_inv [OF assms(1) pub assms(3,5)] by blast
  then show ?thesis using published(1) by (simp add: ok_def)
qed (simp add: ok_def)

lemma publish_subset_inv:
  assumes "wm_inv m" "omap_ok logical" "set logical \<subseteq> set (wm_logical m)"
  shows "wm_inv (snd (watch_publish logical m))"
proof -
  have eq: "m\<lparr>wm_heartbeat_baseline := wm_heartbeat_baseline m\<rparr> = m" by simp
  obtain st m' where "watch_publish logical m = (st, m')" by fastforce
  then show ?thesis
    using publish_inv_same [of m logical "wm_heartbeat_baseline m", unfolded eq, OF assms(1) _ assms(2,3) wm_invD(2) [OF assms(1)]]
      assms(1) by (auto split: if_splits)
qed

section \<open>Every operation keeps the invariant\<close>

lemma wm_inv_baseline:
  assumes "watch_publish (wm_logical m) (m\<lparr>wm_heartbeat_baseline := b\<rparr>) = (st, m')" "wm_inv m" "baseline_ok b"
    and "wm_heartbeat_baseline m = old"
  shows "ok st \<Longrightarrow> wm_inv m'" and "\<not> ok st \<Longrightarrow> wm_inv (m'\<lparr>wm_heartbeat_baseline := old\<rparr>)"
  using publish_inv_same [OF assms(2,1) wm_invD(1) [OF assms(2)] subset_refl assms(3)] assms(2,4) by auto

lemma wm_inv_set_baseline: "wm_inv m \<Longrightarrow> wm_inv (snd (setFirmwareHeartbeatBaseline period retention m))"
  by (auto simp: setFirmwareHeartbeatBaseline_def Let_def default_effective_watch_def
      split: prod.splits option.splits elim!: wm_inv_baseline) (simp_all add: baseline_ok_def)

lemma wm_inv_clear_baseline: "wm_inv m \<Longrightarrow> wm_inv (snd (clearFirmwareHeartbeatBaseline m))"
  by (auto simp: clearFirmwareHeartbeatBaseline_def Let_def split: prod.splits elim!: wm_inv_baseline)
    (simp_all add: baseline_ok_def)

lemma wm_inv_destroy: "wm_inv m \<Longrightarrow> wm_inv (snd (watch_destroy owner i m))"
  by (auto simp: watch_destroy_def omap_erase_def wm_invD(1) split: option.splits intro!: publish_subset_inv)

lemma wm_inv_removeOwner: "wm_inv m \<Longrightarrow> wm_inv (snd (removeOwner owner m))"
  by (auto simp: removeOwner_def Let_def wm_invD(1) intro!: publish_subset_inv)

text \<open>
  The generation check of \<open>activateCatalog\<close> keeps no watch: each one was created for the
  generation that is replaced.
\<close>

definition replaced_catalog :: "catalog_view \<Rightarrow> target_catalog \<Rightarrow> watch_manager \<Rightarrow> bool" where
  "replaced_catalog v tc m \<longleftrightarrow>
     cv_generation v \<noteq> 0 \<and> TargetCatalog_validate tc = SUCCESS \<and>
     (\<forall>current. wc_view (wm_catalog m) = Some current \<longrightarrow> cv_generation current < cv_generation v)"

lemma activate_elim_watch:
  assumes "watch_activateCatalog catalog tc m = (st, m')"
  obtains (kept) "m' = m"
  | (replaced) v where "catalog = Some v" "replaced_catalog v tc m" "activate_watches v tc m = (st, m')"
  using assms
  by (auto simp: watch_activateCatalog_def replaced_catalog_def ok_def not_less split: option.splits if_splits)

lemma activate_watches_empty:
  assumes "wm_inv m" "ws_version (wm_snapshot m) \<noteq> u64_max" "replaced_catalog v tc m"
  shows "activate_watches v tc m =
    watch_publish [] (m\<lparr>wm_catalog := next_watch_catalog v tc, wm_heartbeat_baseline := None\<rparr>)"
proof -
  have generation: "wr_catalog_generation (lw_requirement w) \<noteq> cv_generation v" if "(i, w) \<in> set (wm_logical m)" for i w
    using wm_invD(5) [OF assms(1,2) that] assms(3) by (auto simp: watch_ok_def Let_def replaced_catalog_def)
  have "filter (\<lambda>(_, w). wc_entity (next_watch_catalog v tc) \<noteq> None \<and>
             wr_catalog_generation (lw_requirement w) = cv_generation v \<and>
             wc_entity (next_watch_catalog v tc) = Some (wr_entity (lw_requirement w))) (wm_logical m) = []"
    using generation by (auto simp: filter_empty_conv)
  then show ?thesis by (simp add: activate_watches_def Let_def)
qed

lemma publish_Nil:
  assumes "ws_version (wm_snapshot m) \<noteq> u64_max" "wm_heartbeat_baseline m = None"
  shows "fst (watch_publish [] m) = SUCCESS"
  using assms by (simp add: watch_publish_def Let_def buildSnapshot_def merge_logical_def)

lemma wm_inv_activate:
  assumes "wm_inv m" shows "wm_inv (snd (watch_activateCatalog catalog tc m))"
proof -
  obtain st m' where act: "watch_activateCatalog catalog tc m = (st, m')" by fastforce
  then show ?thesis
  proof (cases rule: activate_elim_watch)
    case (replaced v)
    let ?m = "m\<lparr>wm_catalog := next_watch_catalog v tc, wm_heartbeat_baseline := None\<rparr>"
    show ?thesis
    proof (cases "ws_version (wm_snapshot m) = u64_max")
      case True
      then have "snd (watch_publish logical ?m) = ?m" for logical by (simp add: watch_publish_def)
      then have "m' = ?m" using arg_cong [OF replaced(3), of snd] by (simp add: activate_watches_def Let_def)
      then show ?thesis using assms True act by (simp add: wm_inv_def baseline_ok_def)
    next
      case False
      then have "watch_publish [] ?m = (st, m')" using activate_watches_empty [OF assms _ replaced(2)] replaced(3) by simp
      moreover have "fst (watch_publish [] ?m) = SUCCESS" using False by (intro publish_Nil) simp_all
      ultimately have "watch_publish [] ?m = (SUCCESS, m')" by simp
      from publish_inv [OF assms this] act show ?thesis by (simp add: baseline_ok_def)
    qed
  qed (use act assms in simp)
qed

text \<open>Creating a watch.\<close>

definition supported_metric :: "watch_catalog \<Rightarrow> metric_id \<Rightarrow> bool" where
  "supported_metric cat metric \<longleftrightarrow>
     (\<exists>d. map_of (wc_descriptors cat) metric = Some d \<and> md_collection_mode d = CM_Poll) \<and>
     map_of (wc_supported cat) metric = Some True"

lemma select_metrics_Cons:
  "select_metrics cat period seen s1 u1 (metric # ms) =
    (if metric = 0 \<or> metric \<in> seen then (INVALID_ARGUMENT, s1, u1)
     else if supported_metric cat metric
     then (if period < to_i64 (md_min_period_ns (the (map_of (wc_descriptors cat) metric))) then (INVALID_ARGUMENT, s1, u1)
           else select_metrics cat period (insert metric seen) (s1 @ [metric]) u1 ms)
     else select_metrics cat period (insert metric seen) s1 (u1 @ [metric]) ms)"
  by (auto simp: supported_metric_def Let_def split: option.splits)

lemma select_metrics_SUCCESS:
  "select_metrics cat period seen s1 u1 ms = (SUCCESS, s2, u2) \<Longrightarrow>
   s2 = s1 @ filter (supported_metric cat) ms \<and> u2 = u1 @ filter (\<lambda>m. \<not> supported_metric cat m) ms \<and>
   distinct ms \<and> 0 \<notin> set ms \<and> set ms \<inter> seen = {}"
proof (induction ms arbitrary: seen s1 u1)
  case (Cons metric ms)
  note step = Cons.prems [unfolded select_metrics_Cons]
  show ?case
  proof (cases "supported_metric cat metric")
    case True
    then show ?thesis using step Cons.IH [of "insert metric seen" "s1 @ [metric]" u1] by (auto split: if_splits)
  next
    case False
    then show ?thesis using step Cons.IH [of "insert metric seen" s1 "u1 @ [metric]"] by (auto split: if_splits)
  qed
qed simp

lemma validateRequirement_SUCCESS:
  assumes "validateRequirement r m = (SUCCESS, s1, u1)"
  shows "s1 = filter (supported_metric (wm_catalog m)) (wr_metrics r)"
    and "u1 = filter (\<lambda>metric. \<not> supported_metric (wm_catalog m) metric) (wr_metrics r)"
    and "distinct (wr_metrics r)" "0 \<notin> set (wr_metrics r)"
    and "0 < wr_period r" "wr_period r \<le> wr_freshness r" "wr_freshness r \<le> wr_retention r"
    and "wc_entity (wm_catalog m) = Some (wr_entity r)"
    and "map_option cv_generation (wc_view (wm_catalog m)) = Some (wr_catalog_generation r)"
  using assms
  by (auto simp: validateRequirement_def Let_def split: option.splits if_splits dest: select_metrics_SUCCESS)

lemma validateRequirement_status:
  assumes "validateRequirement r m = (st, s1, u1)" shows "st \<noteq> PARTIAL_RESULT"
proof -
  have "fst (select_metrics cat period seen s u ms) \<noteq> PARTIAL_RESULT" for cat period seen s u ms
    by (induction cat period seen s u ms rule: select_metrics.induct) (auto simp: Let_def split: option.splits)
  then show ?thesis using assms by (auto simp: validateRequirement_def Let_def split: option.splits if_splits) (metis fst_conv)
qed

lemma sort_eq_Nil_iff [simp]: "sort xs = [] \<longleftrightarrow> xs = []"
  by (metis set_empty set_sort)

lemma publish_next:
  "watch_publish logical (m\<lparr>wm_next_watch_id := n\<rparr>) = map_prod id (\<lambda>m. m\<lparr>wm_next_watch_id := n\<rparr>) (watch_publish logical m)"
  by (simp add: watch_publish_def Let_def)

lemma wm_inv_next:
  assumes "wm_inv m" "wm_next_watch_id m \<noteq> u64_max"
  shows "wm_inv (m\<lparr>wm_next_watch_id := wm_next_watch_id m + 1\<rparr>)"
proof -
  have lt: "i < wm_next_watch_id m \<Longrightarrow> i < wm_next_watch_id m + 1" for i
    using less_inc [OF assms(2)] by (meson order_less_trans)
  have "0 < wm_next_watch_id m + 1" by (rule lt [OF wm_invD(3) [OF assms(1)]])
  with assms(1) lt show ?thesis by (fastforce simp: wm_inv_def watch_ok_def Let_def)
qed

lemma create_elim:
  assumes "watch_create owner r m = (res, m')"
  obtains (failed) "wcr_status res \<notin> {SUCCESS, PARTIAL_RESULT}" "wcr_watch_id res = 0" "m' = m"
  | (created) w m1 where
      "validateRequirement r m = (SUCCESS, filter (supported_metric (wm_catalog m)) (wr_metrics r),
         filter (\<lambda>metric. \<not> supported_metric (wm_catalog m) metric) (wr_metrics r))"
      "filter (supported_metric (wm_catalog m)) (wr_metrics r) \<noteq> []"
      "w = \<lparr>lw_id = wm_next_watch_id m, lw_owner = owner,
            lw_requirement = r\<lparr>wr_metrics := sort (filter (supported_metric (wm_catalog m)) (wr_metrics r))\<rparr>\<rparr>"
      "wm_next_watch_id m \<noteq> u64_max" "wcr_watch_id res = wm_next_watch_id m"
      "watch_publish (omap_emplace (wm_next_watch_id m) w (wm_logical m)) m = (SUCCESS, m1)"
      "m' = m1\<lparr>wm_next_watch_id := wm_next_watch_id m + 1\<rparr>"
      "wcr_status res = (if list_all (supported_metric (wm_catalog m)) (wr_metrics r) then SUCCESS else PARTIAL_RESULT)"
proof -
  let ?cat = "wm_catalog m" and ?i = "wm_next_watch_id m"
  obtain st s1 u1 where v: "validateRequirement r m = (st, s1, u1)" by (cases "validateRequirement r m") auto
  let ?w = "\<lparr>lw_id = ?i, lw_owner = owner, lw_requirement = r\<lparr>wr_metrics := sort s1\<rparr>\<rparr>"
  obtain pub m1 where p: "watch_publish (omap_emplace ?i ?w (wm_logical m)) m = (pub, m1)" by fastforce
  have pst: "pub = SUCCESS \<or> pub \<notin> {SUCCESS, PARTIAL_RESULT}"
    using p by (auto simp: watch_publish_def Let_def split: if_splits)
  show ?thesis
  proof (cases "\<not> (wo_kind owner = WO_Session \<and> wo_id owner = 0) \<and> ?i \<noteq> u64_max \<and> st = SUCCESS \<and>
      (u1 \<noteq> [] \<longrightarrow> wr_allow_partial r) \<and> s1 \<noteq> [] \<and> pub = SUCCESS")
    case True
    then have st: "st = SUCCESS" by simp
    note sel = validateRequirement_SUCCESS(1,2) [OF v [unfolded st]]
    have "u1 = [] \<longleftrightarrow> list_all (supported_metric ?cat) (wr_metrics r)"
      by (auto simp: sel filter_empty_conv list_all_iff)
    moreover have "watch_create owner r m =
        (\<lparr>wcr_status = (if u1 = [] then SUCCESS else PARTIAL_RESULT), wcr_watch_id = ?i, wcr_unsupported_metrics = u1\<rparr>,
         m1\<lparr>wm_next_watch_id := ?i + 1\<rparr>)"
      using True v p by (auto simp: watch_create_def Let_def ok_def)
    ultimately show ?thesis
      using created [of ?w m1] True assms v [unfolded st] p by (simp add: sel)
  next
    case False
    then have "wcr_status res \<notin> {SUCCESS, PARTIAL_RESULT} \<and> wcr_watch_id res = 0 \<and> m' = m"
      using assms v p pst validateRequirement_status [OF v]
      by (auto simp: watch_create_def Let_def ok_def split: if_splits)
    then show ?thesis using failed by blast
  qed
qed

lemma wm_inv_create:
  assumes "wm_inv m" shows "wm_inv (snd (watch_create owner r m))"
proof -
  obtain res m' where create: "watch_create owner r m = (res, m')" by fastforce
  then show ?thesis
  proof (cases rule: create_elim)
    case (created w m1)
    let ?n = "wm_next_watch_id m" and ?cat = "wm_catalog m"
    let ?m = "m\<lparr>wm_next_watch_id := ?n + 1\<rparr>" and ?l = "omap_emplace ?n w (wm_logical m)"
    have inv: "wm_inv ?m" by (rule wm_inv_next [OF assms created(4)])
    have ver: "ws_version (wm_snapshot m) \<noteq> u64_max"
      using created(6) by (auto elim: publish_elim)
    have new: "map_of (wm_logical m) ?n = None"
      using wm_invD(6) [OF assms, of ?n] in_omap [OF wm_invD(1) [OF assms], of ?n] by (cases "map_of (wm_logical m) ?n") auto
    have old: "map_of ?l = (map_of (wm_logical m))(?n \<mapsto> w)"
      using new by (simp add: map_of_omap_emplace wm_invD(1) [OF assms])
    have l: "omap_ok ?l" by (simp add: wm_invD(1) [OF assms])
    have pub: "watch_publish ?l (?m\<lparr>wm_catalog := ?cat, wm_heartbeat_baseline := wm_heartbeat_baseline m\<rparr>) = (SUCCESS, m')"
      using created(6,7) by (simp add: publish_next)
    have w: "watch_ok ?cat (?n + 1) ?n w"
      using validateRequirement_SUCCESS(3-9) [OF created(1)] created(2,3) less_inc [OF created(4)] wm_invD(3) [OF assms]
      by (simp add: watch_ok_def Let_def sort_eq_Nil_iff)
    have "wm_inv m'"
    proof (rule publish_inv [OF inv pub l])
      show "baseline_ok (wm_heartbeat_baseline m)" by (rule wm_invD(2) [OF assms])
      fix i v
      show "watch_ok ?cat (wm_next_watch_id ?m) i v" if "(i, v) \<in> set ?l"
      proof (cases "i = ?n")
        case False
        then have "(i, v) \<in> set (wm_logical m)"
          using that in_omap [OF l] in_omap [OF wm_invD(1) [OF assms]] by (simp add: old)
        then show ?thesis using wm_invD(5) [OF inv] ver by simp
      qed (use that in_omap [OF l] w in \<open>auto simp: old\<close>)
      show "counters_ok (Some v) (map_of (wm_sample_counts ?m) i) (map_of (wm_last_sample_times ?m) i)"
        if "map_of ?l i = Some v"
        using that wm_invD(4) [OF assms, of i] new by (auto simp: old counters_ok_def split: if_splits)
    qed
    then show ?thesis using create by simp
  qed (use create assms in simp)
qed

section \<open>What a token adds to the counters\<close>

text \<open>
  A token stands for the scheduled times \<open>first\<close>, \<open>first + period\<close> and so on, \<open>n\<close> of them.
  A watch has seen the ones up to the last counted time.
\<close>

definition fresh_samples :: "i64 \<Rightarrow> i64 \<Rightarrow> nat \<Rightarrow> i64 option \<Rightarrow> nat" where
  "fresh_samples first period n seen =
     card {k. k < n \<and> (\<forall>t. seen = Some t \<longrightarrow> t < first + period * int k)}"

lemma fresh_samples_None [simp]: "fresh_samples first period n None = n"
  by (simp add: fresh_samples_def)

lemma div_less_iff: "(a :: int) div p < k \<longleftrightarrow> a < k * p" if "0 < p"
proof
  assume "a div p < k"
  then have "(a div p + 1) * p \<le> k * p" using that by (intro mult_right_mono) auto
  moreover have "a < (a div p + 1) * p"
    by (subst (1) div_mult_mod_eq [of a p, symmetric])
      (simp only: distrib_right mult_1 add_less_cancel_left pos_mod_bound [OF that])
  ultimately show "a < k * p" by simp
next
  assume "a < k * p"
  moreover have "(a div p) * p \<le> a"
    by (subst (2) div_mult_mod_eq [of a p, symmetric])
      (simp only: le_add_same_cancel1 pos_mod_sign [OF that])
  ultimately have "(a div p) * p < k * p" by simp
  then show "a div p < k" using that by (simp add: mult_less_cancel_right)
qed

lemma fresh_samples_Some:
  assumes "0 < period"
  shows "fresh_samples first period n (Some t) =
    (if t < first then n else n - (nat ((t - first) div period) + 1))"
proof -
  have "{k. k < n \<and> t < first + period * int k} = {(if t < first then 0 else nat ((t - first) div period) + 1)..<n}"
  proof (cases "t < first")
    case True
    then have "t < first + period * int k" for k using assms by (simp add: less_le_trans)
    then show ?thesis using True by auto
  next
    case False
    then have nonneg: "0 \<le> (t - first) div period" by (simp add: pos_imp_zdiv_nonneg_iff [OF assms])
    have later: "t < first + period * int k \<longleftrightarrow> nat ((t - first) div period) < k" for k
    proof -
      have "t < first + period * int k \<longleftrightarrow> t - first < int k * period" unfolding mult.commute [of period] by linarith
      also have "\<dots> \<longleftrightarrow> (t - first) div period < int k" by (rule div_less_iff [OF assms, symmetric])
      also have "\<dots> \<longleftrightarrow> nat ((t - first) div period) < k" by (rule nat_less_iff [OF nonneg, symmetric])
      finally show ?thesis .
    qed
    show ?thesis
      by (intro set_eqI) (simp only: False if_False mem_Collect_eq later atLeastLessThan_iff Suc_eq_plus1 [symmetric] Suc_le_eq conj_commute)
  qed
  then show ?thesis by (simp add: fresh_samples_def)
qed

text \<open>What the loop does to one watch, as a function of its three entries.\<close>

definition record_entry ::
  "i64 \<Rightarrow> i64 \<Rightarrow> nat \<Rightarrow> i64 \<Rightarrow> logical_watch option \<times> u64 option \<times> i64 option \<Rightarrow>
   logical_watch option \<times> u64 option \<times> i64 option" where
  "record_entry first period n until v =
    (case v of (None, c, t) \<Rightarrow> v
     | (Some w, c, t) \<Rightarrow>
        let fresh = fresh_samples first period n t;
            total' = min (2 ^ 64 - 1) (unat (case c of None \<Rightarrow> 0 | Some c \<Rightarrow> c) + fresh);
            limit = unat (wr_sample_limit (lw_requirement w))
        in if fresh = 0 then v
           else if limit \<noteq> 0 \<and> limit \<le> total' then (None, None, None)
           else (Some w, Some (of_nat total'), Some until))"

definition entry_view :: "sample_work \<Rightarrow> watch_id \<Rightarrow> logical_watch option \<times> u64 option \<times> i64 option" where
  "entry_view s i = (map_of (sw_logical s) i, map_of (sw_counts s) i, map_of (sw_times s) i)"

lemma unat_u64_max: "unat u64_max = 18446744073709551615"
  by (simp add: unsigned_minus_1_eq_mask mask_eq_exp_minus_1)

lemma skipped_fresh:
  assumes "0 < period" "0 \<le> first" "0 \<le> t" "t \<le> i64_max" "first \<le> t"
  shows "unat (to_u64 ((t - first) div period) + 1) = nat ((t - first) div period) + 1"
proof -
  have "0 \<le> (t - first) div period" using assms by (simp add: pos_imp_zdiv_nonneg_iff)
  moreover have "(t - first) div period \<le> t - first" using zdiv_mono2 [of "t - first" 1 period] assms by simp
  moreover have "t - first \<le> i64_max" using assms by simp
  ultimately have b: "0 \<le> (t - first) div period" "(t - first) div period \<le> i64_max" by simp_all
  then have "uint (to_u64 ((t - first) div period)) = (t - first) div period" by (rule uint_to_u64)
  then have u: "unat (to_u64 ((t - first) div period)) = nat ((t - first) div period)"
    by (simp add: unat_eq_nat_uint)
  then have "to_u64 ((t - first) div period) \<noteq> u64_max"
    using b(2) unat_u64_max by (auto simp: i64_max_def)
  from unat_inc [OF this] show ?thesis by (simp add: u)
qed

lemma saturating_add:
  fixes a b :: u64
  shows "(if b > u64_max - a then u64_max else a + b) = of_nat (min (2 ^ 64 - 1) (unat a + unat b))"
proof -
  have m: "unat (u64_max - a) = 2 ^ 64 - 1 - unat a" by (simp add: unat_sub unsigned_minus_1_eq_mask mask_eq_exp_minus_1)
  show ?thesis
  proof (cases "b > u64_max - a")
    case True
    then have "2 ^ 64 - 1 < unat a + unat b" using m by (simp add: word_less_nat_alt)
    then show ?thesis using True by (simp add: min_def)
  next
    case False
    then have "unat a + unat b \<le> 2 ^ 64 - 1"
      using m unsigned_less [where 'a = nat, of a] by (simp add: word_less_nat_alt)
    then show ?thesis using False by (simp add: min_def)
  qed
qed

lemma record_watch_Some:
  assumes "map_of (sw_logical s) i = Some w"
  shows "record_watch first period n until i s =
    (let skipped = (case map_of (sw_times s) i of
           Some previous \<Rightarrow> if previous \<ge> first then to_u64 ((previous - first) div period) + 1 else 0 | None \<Rightarrow> 0);
         c = (case map_of (sw_counts s) i of None \<Rightarrow> 0 | Some c \<Rightarrow> c);
         u = (if n - skipped > u64_max - c then u64_max else c + (n - skipped))
     in if n \<le> skipped then s\<lparr>sw_found_any := True\<rparr>
        else if wr_sample_limit (lw_requirement w) \<noteq> 0 \<and> wr_sample_limit (lw_requirement w) \<le> u
        then s\<lparr>sw_found_any := True, sw_changed := True, sw_removed := True, sw_logical := omap_erase i (sw_logical s),
               sw_counts := omap_erase i (sw_counts s), sw_times := omap_erase i (sw_times s)\<rparr>
        else s\<lparr>sw_found_any := True, sw_changed := True, sw_counts := omap_put i u (sw_counts s),
               sw_times := omap_put i until (sw_times s)\<rparr>)"
  using assms by (simp add: record_watch_def Let_def)

lemma record_watch_view:
  assumes "0 < period" "0 \<le> first" "n \<noteq> 0" "omap_ok (sw_counts s)" "omap_ok (sw_times s)"
    and "\<And>t. map_of (sw_times s) i = Some t \<Longrightarrow> 0 \<le> t \<and> t \<le> i64_max"
  shows "entry_view (record_watch first period n until i s) j =
    (if j = i then record_entry first period (unat n) until (entry_view s i) else entry_view s j)"
proof (cases "map_of (sw_logical s) i")
  case None
  then show ?thesis by (auto simp: record_watch_def record_entry_def entry_view_def)
next
  case (Some w)
  define skipped where "skipped = (case map_of (sw_times s) i of
     Some previous \<Rightarrow> if previous \<ge> first then to_u64 ((previous - first) div period) + 1 else 0 | None \<Rightarrow> 0)"
  have fresh: "fresh_samples first period (unat n) (map_of (sw_times s) i) = unat n - unat skipped"
    using assms(6) skipped_fresh [OF assms(1,2)] assms(1)
    by (cases "map_of (sw_times s) i") (auto simp: skipped_def fresh_samples_Some)
  show ?thesis
  proof (cases "skipped \<ge> n")
    case True
    then have "record_watch first period n until i s = s\<lparr>sw_found_any := True\<rparr>"
      using record_watch_Some [OF Some] by (simp add: skipped_def [symmetric])
    moreover have "unat n \<le> unat skipped" using True by (simp add: word_le_nat_alt)
    ultimately show ?thesis
      using Some fresh by (auto simp: record_entry_def entry_view_def)
  next
    case False
    let ?c = "case map_of (sw_counts s) i of None \<Rightarrow> 0 | Some c \<Rightarrow> c"
    let ?f = "fresh_samples first period (unat n) (map_of (sw_times s) i)"
    have f: "unat (n - skipped) = ?f" "?f \<noteq> 0"
      using False fresh by (simp_all add: unat_sub word_le_nat_alt not_le)
    let ?u = "if n - skipped > u64_max - ?c then u64_max else ?c + (n - skipped)"
    have u: "?u = of_nat (min (2 ^ 64 - 1) (unat ?c + ?f))" using saturating_add [of ?c "n - skipped"] f(1) by simp
    then have un: "unat ?u = min (2 ^ 64 - 1) (unat ?c + ?f)" by (simp add: unat_of_nat)
    have lim: "?u \<ge> wr_sample_limit (lw_requirement w) \<longleftrightarrow>
        unat (wr_sample_limit (lw_requirement w)) \<le> min (2 ^ 64 - 1) (unat ?c + ?f)"
      by (simp only: word_le_nat_alt un)
    have rec: "record_watch first period n until i s =
      (if wr_sample_limit (lw_requirement w) \<noteq> 0 \<and> ?u \<ge> wr_sample_limit (lw_requirement w)
       then s\<lparr>sw_found_any := True, sw_changed := True, sw_removed := True, sw_logical := omap_erase i (sw_logical s),
              sw_counts := omap_erase i (sw_counts s), sw_times := omap_erase i (sw_times s)\<rparr>
       else s\<lparr>sw_found_any := True, sw_changed := True, sw_counts := omap_put i ?u (sw_counts s),
              sw_times := omap_put i until (sw_times s)\<rparr>)"
      unfolding record_watch_Some [OF Some] using False by (simp add: Let_def skipped_def [symmetric])
    show ?thesis
      unfolding rec lim unfolding u
      using Some f(2) assms(4,5)
      by (auto simp: record_entry_def entry_view_def Let_def map_of_omap_put unat_eq_zero)
  qed
qed

lemma record_watch_cases:
  obtains (same) f where "record_watch first period n until i s = s\<lparr>sw_found_any := f\<rparr>"
  | (removed) "record_watch first period n until i s =
      s\<lparr>sw_found_any := True, sw_changed := True, sw_removed := True, sw_logical := omap_erase i (sw_logical s),
        sw_counts := omap_erase i (sw_counts s), sw_times := omap_erase i (sw_times s)\<rparr>"
  | (updated) c where "record_watch first period n until i s =
      s\<lparr>sw_found_any := True, sw_changed := True, sw_counts := omap_put i c (sw_counts s),
        sw_times := omap_put i until (sw_times s)\<rparr>"
proof (cases "map_of (sw_logical s) i")
  case None
  then have "record_watch first period n until i s = s\<lparr>sw_found_any := sw_found_any s\<rparr>" by (simp add: record_watch_def)
  then show ?thesis by (rule same)
next
  case (Some w)
  obtain A B u where eq: "record_watch first period n until i s =
      (if A then s\<lparr>sw_found_any := True\<rparr>
       else if B
       then s\<lparr>sw_found_any := True, sw_changed := True, sw_removed := True, sw_logical := omap_erase i (sw_logical s),
              sw_counts := omap_erase i (sw_counts s), sw_times := omap_erase i (sw_times s)\<rparr>
       else s\<lparr>sw_found_any := True, sw_changed := True, sw_counts := omap_put i u (sw_counts s),
              sw_times := omap_put i until (sw_times s)\<rparr>)"
    by (rule that) (rule record_watch_Some [OF Some, unfolded Let_def])
  show ?thesis
  proof (cases A)
    case False
    then show ?thesis using eq removed updated [of u] by (cases B) simp_all
  qed (use eq same [of True] in simp)
qed

lemma record_watch_maps:
  "omap_ok (sw_logical s) \<Longrightarrow> omap_ok (sw_logical (record_watch first period n until i s))"
  "omap_ok (sw_counts s) \<Longrightarrow> omap_ok (sw_counts (record_watch first period n until i s))"
  "omap_ok (sw_times s) \<Longrightarrow> omap_ok (sw_times (record_watch first period n until i s))"
  "\<not> sw_removed (record_watch first period n until i s) \<Longrightarrow>
     \<not> sw_removed s \<and> sw_logical (record_watch first period n until i s) = sw_logical s"
  "\<not> sw_changed (record_watch first period n until i s) \<Longrightarrow>
     \<not> sw_changed s \<and> sw_logical (record_watch first period n until i s) = sw_logical s \<and>
     sw_counts (record_watch first period n until i s) = sw_counts s \<and>
     sw_times (record_watch first period n until i s) = sw_times s"
  "set (sw_logical (record_watch first period n until i s)) \<subseteq> set (sw_logical s)"
  by (rule record_watch_cases [of first period n until i s]; auto simp: omap_erase_def)+

lemma record_fold_ok:
  "omap_ok (sw_logical s) \<Longrightarrow> omap_ok (sw_logical (fold (record_watch first period n until) is s))"
  "omap_ok (sw_counts s) \<Longrightarrow> omap_ok (sw_counts (fold (record_watch first period n until) is s))"
  "omap_ok (sw_times s) \<Longrightarrow> omap_ok (sw_times (fold (record_watch first period n until) is s))"
  by (induction "is" arbitrary: s) (simp_all add: record_watch_maps(1-3))

lemma record_fold_removed:
  "\<not> sw_removed (fold (record_watch first period n until) is s) \<Longrightarrow>
   \<not> sw_removed s \<and> sw_logical (fold (record_watch first period n until) is s) = sw_logical s"
  by (induction "is" arbitrary: s) (auto dest: record_watch_maps(4))

lemma record_fold_changed:
  "\<not> sw_changed (fold (record_watch first period n until) is s) \<Longrightarrow>
   \<not> sw_changed s \<and> sw_logical (fold (record_watch first period n until) is s) = sw_logical s \<and>
   sw_counts (fold (record_watch first period n until) is s) = sw_counts s \<and>
   sw_times (fold (record_watch first period n until) is s) = sw_times s"
  by (induction "is" arbitrary: s) (auto dest: record_watch_maps(5))

lemma record_fold_subset: "set (sw_logical (fold (record_watch first period n until) is s)) \<subseteq> set (sw_logical s)"
  by (induction "is" arbitrary: s) (use record_watch_maps(6) in fastforce)+

lemma record_fold_view:
  assumes "0 < period" "0 \<le> first"
  shows "n \<noteq> 0 \<Longrightarrow> distinct is \<Longrightarrow> omap_ok (sw_counts s) \<Longrightarrow> omap_ok (sw_times s) \<Longrightarrow>
   (\<And>i t. i \<in> set is \<Longrightarrow> map_of (sw_times s) i = Some t \<Longrightarrow> 0 \<le> t \<and> t \<le> i64_max) \<Longrightarrow>
   entry_view (fold (record_watch first period n until) is s) j =
   (if j \<in> set is then record_entry first period (unat n) until (entry_view s j) else entry_view s j)"
proof (induction "is" arbitrary: s)
  case (Cons i "is")
  let ?s = "record_watch first period n until i s"
  have view: "entry_view ?s k = (if k = i then record_entry first period (unat n) until (entry_view s i) else entry_view s k)" for k
    using Cons.prems by (intro record_watch_view [OF assms]) auto
  have "entry_view (fold (record_watch first period n until) is ?s) j =
      (if j \<in> set is then record_entry first period (unat n) until (entry_view ?s j) else entry_view ?s j)"
  proof (rule Cons.IH)
    fix k t assume k: "k \<in> set is" and "map_of (sw_times ?s) k = Some t"
    moreover have "k \<noteq> i" using k Cons.prems(2) by auto
    ultimately have "map_of (sw_times s) k = Some t" using view [of k] by (simp add: entry_view_def)
    then show "0 \<le> t \<and> t \<le> i64_max" using Cons.prems(5) [of k] k by simp
  qed (use Cons.prems record_watch_maps(2,3) in auto)
  then show ?case using view [of j] Cons.prems(2) by auto
qed simp

text \<open>The three entries of a watch in the manager, and what a recorded token leaves of them.\<close>

definition watch_entries :: "watch_manager \<Rightarrow> watch_id \<Rightarrow> logical_watch option \<times> u64 option \<times> i64 option" where
  "watch_entries m i = (map_of (wm_logical m) i, map_of (wm_sample_counts m) i, map_of (wm_last_sample_times m) i)"

definition sample_start :: "watch_manager \<Rightarrow> sample_work" where
  "sample_start m =
     \<lparr>sw_logical = wm_logical m, sw_counts = wm_sample_counts m, sw_times = wm_last_sample_times m,
      sw_found_any = False, sw_changed = False, sw_removed = False\<rparr>"

lemma sample_start_simps [simp]:
  "sw_logical (sample_start m) = wm_logical m" "sw_counts (sample_start m) = wm_sample_counts m"
  "sw_times (sample_start m) = wm_last_sample_times m" "entry_view (sample_start m) = watch_entries m"
  by (auto simp: sample_start_def entry_view_def watch_entries_def)

lemma record_elim:
  assumes "wm_inv m" "recordSamples ids first period n m = (st, m')"
  obtains (kept) "m' = m" "st \<noteq> SUCCESS"
  | (recorded) s until m1 where "st = SUCCESS" "0 < period" "0 \<le> first" "n \<noteq> 0" "distinct ids"
      "until = first + period * (int (unat n) - 1)" "0 \<le> until" "until \<le> i64_max"
      "s = fold (record_watch first period n until) (sort ids) (sample_start m)"
      "wm_inv m1" "wm_logical m1 = sw_logical s"
      "m' = m1\<lparr>wm_sample_counts := sw_counts s, wm_last_sample_times := sw_times s\<rparr>"
proof (cases "ids = [] \<or> first < 0 \<or> period \<le> 0 \<or> n = 0 \<or> adjacent_find (sort ids) \<or>
    n - 1 > to_u64 (i64_max div period) \<or> first > i64_max - period * to_i64 (n - 1)")
  case True
  then have "m' = m \<and> st = INVALID_ARGUMENT" using assms(2) by (auto simp: recordSamples_def Let_def split: if_splits)
  then show ?thesis using kept by simp
next
  case False
  define until where "until = first + period * to_i64 (n - 1)"
  define s where "s = fold (record_watch first period n until) (sort ids) (sample_start m)"
  have rec: "recordSamples ids first period n m =
    (let store = (\<lambda>m. m\<lparr>wm_sample_counts := sw_counts s, wm_last_sample_times := sw_times s\<rparr>)
     in if \<not> sw_found_any s then (NOT_FOUND, m)
        else if \<not> sw_changed s then (SUCCESS, m)
        else if sw_removed s
        then (let (st, m') = watch_publish (sw_logical s) m in if \<not> ok st then (st, m') else (SUCCESS, store m'))
        else (SUCCESS, store m))"
    using False by (simp add: recordSamples_def Let_def s_def until_def sample_start_def)
  have args: "0 < period" "0 \<le> first" "n \<noteq> 0" "distinct ids" "n - 1 \<le> to_u64 (i64_max div period)"
    "until \<le> i64_max"
    using False by (auto simp: adjacent_find_sort until_def)
  have d: "0 \<le> i64_max div period" "i64_max div period \<le> i64_max"
    using args(1) zdiv_mono2 [of i64_max 1 period] by (simp_all add: i64_max_def pos_imp_zdiv_nonneg_iff)
  have "uint (n - 1) \<le> i64_max"
    using args(5) uint_to_u64 [OF d] d(2) by (simp add: word_le_def)
  then have "to_i64 (n - 1) = int (unat (n - 1))" using to_i64_small [of "n - 1"] by simp
  moreover have one: "1 \<le> unat n" using args(3) by (simp add: Suc_le_eq unat_gt_0)
  moreover have "int (unat (n - 1)) = int (unat n) - 1"
    unfolding unat_minus_one [OF args(3)] using of_nat_diff [OF one] by (simp only: of_nat_1)
  ultimately have until: "until = first + period * (int (unat n) - 1)" by (simp only: until_def)
  moreover note one
  moreover from this have "0 \<le> period * (int (unat n) - 1)" using args(1) by (intro mult_nonneg_nonneg) linarith+
  ultimately have "0 \<le> until" using args(2) by linarith
  note result = recorded [OF _ args(1-4) until this args(6) s_def]
  have maps: "omap_ok (sw_logical s)" "set (sw_logical s) \<subseteq> set (wm_logical m)"
    using record_fold_ok(1) [of "sample_start m"] record_fold_subset [of first period n until "sort ids" "sample_start m"]
      wm_invD(1) [OF assms(1)] by (simp_all add: s_def)
  show ?thesis
  proof (cases "sw_found_any s")
    case False
    then show ?thesis using kept rec assms(2) by simp
  next
    case found: True
    show ?thesis
    proof (cases "sw_removed s")
      case True
      show ?thesis
      proof (cases "sw_changed s")
        case changed: True
        obtain pub m1 where p: "watch_publish (sw_logical s) m = (pub, m1)" by fastforce
        then have "wm_inv m1" using publish_subset_inv [OF assms(1) maps] by simp
        with p show ?thesis
        proof (cases rule: publish_elim)
          case failed
          then show ?thesis using kept rec assms(2) p found changed True by (auto simp: ok_def Let_def)
        next
          case published
          then show ?thesis
            using result [OF _ \<open>wm_inv m1\<close>] rec assms(2) p found changed True by (auto simp: ok_def Let_def)
        qed
      next
        case False
        then show ?thesis
          using result [OF _ assms(1)] record_fold_changed [of first period n until "sort ids" "sample_start m"] rec assms(2) found
          by (simp add: s_def)
      qed
    next
      case False
      then have "sw_logical s = wm_logical m"
        using record_fold_removed [of first period n until "sort ids" "sample_start m"] by (simp add: s_def)
      then show ?thesis
        using result [OF _ assms(1)] record_fold_changed [of first period n until "sort ids" "sample_start m"] rec assms(2) found False
        by (cases "sw_changed s") (simp_all add: Let_def s_def)
    qed
  qed
qed

lemma record_entry_ok:
  assumes "record_entry first period n until (w, c, t) = (w', c', t')" "counters_ok w c t" "0 \<le> until" "until \<le> i64_max"
  shows "counters_ok w' c' t'"
proof (cases w)
  case None
  with assms(1,2) show ?thesis by (simp add: record_entry_def)
next
  case (Some v)
  let ?f = "fresh_samples first period n t" and ?l = "wr_sample_limit (lw_requirement v)"
  let ?u = "min (2 ^ 64 - 1) (unat (case c of None \<Rightarrow> 0 | Some c \<Rightarrow> c) + ?f)"
  have u: "unat (of_nat ?u :: u64) = ?u" by (simp add: unat_of_nat)
  show ?thesis
  proof (cases "?f = 0 \<or> unat ?l \<noteq> 0 \<and> unat ?l \<le> ?u")
    case True
    then show ?thesis using assms(1,2) Some by (auto simp: record_entry_def Let_def counters_ok_def split: if_splits)
  next
    case False
    then have eq: "w' = Some v" "c' = Some (of_nat ?u)" "t' = Some until"
      using assms(1) Some by (auto simp: record_entry_def Let_def split: if_splits)
    have "?l = 0 \<or> of_nat ?u < ?l" using False u by (auto simp: word_less_nat_alt unat_eq_zero)
    then show ?thesis using assms(3,4) by (simp add: eq counters_ok_def)
  qed
qed

lemma recorded_entries:
  assumes "wm_inv m" "recordSamples ids first period n m = (SUCCESS, m')"
  shows "watch_entries m' i =
      (if i \<in> set ids then record_entry first period (unat n) (first + period * (int (unat n) - 1)) (watch_entries m i)
       else watch_entries m i)"
    and "wm_inv m'"
proof -
  from assms have "(\<forall>i. watch_entries m' i =
      (if i \<in> set ids then record_entry first period (unat n) (first + period * (int (unat n) - 1)) (watch_entries m i)
       else watch_entries m i)) \<and> wm_inv m'"
  proof (cases rule: record_elim)
    case (recorded s until m1)
    have times: "0 \<le> t \<and> t \<le> i64_max" if "map_of (wm_last_sample_times m) i = Some t" for i t
      using wm_invD(4) [OF assms(1), of i] that by (simp add: counters_ok_def)
    have view: "entry_view s i = (if i \<in> set ids then record_entry first period (unat n) until (watch_entries m i)
        else watch_entries m i)" for i
      using record_fold_view [OF recorded(2,3,4), of "sort ids" "sample_start m" until i] recorded(5) times
        wm_invD(7,8) [OF assms(1)] by (simp add: recorded(9))
    have entries: "watch_entries m' i = entry_view s i" for i
      using recorded(11,12) by (simp add: watch_entries_def entry_view_def)
    have "counters_ok (map_of (sw_logical s) i) (map_of (sw_counts s) i) (map_of (sw_times s) i)" for i
      using view [of i] wm_invD(4) [OF assms(1), of i] record_entry_ok [OF _ _ recorded(7,8)]
      by (auto simp: entry_view_def watch_entries_def split: if_splits)
    moreover have "omap_ok (sw_counts s)" "omap_ok (sw_times s)"
      using record_fold_ok(2,3) [of "sample_start m"] wm_invD(7,8) [OF assms(1)] by (simp_all add: recorded(9))
    ultimately have "wm_inv m'"
      using recorded(10,11) unfolding wm_inv_def recorded(12) by simp
    then show ?thesis using view entries recorded(6) by simp
  qed simp
  then show "watch_entries m' i =
      (if i \<in> set ids then record_entry first period (unat n) (first + period * (int (unat n) - 1)) (watch_entries m i)
       else watch_entries m i)" "wm_inv m'" by blast+
qed

lemma wm_inv_record: "wm_inv m \<Longrightarrow> wm_inv (snd (recordSamples ids first period n m))"
  by (cases "recordSamples ids first period n m") (metis record_elim recorded_entries(2) snd_conv)

section \<open>Executions\<close>

datatype wm_op =
    WM_activateCatalog "catalog_view option" target_catalog
  | WM_create watch_owner watch_requirement
  | WM_setBaseline i64 i64
  | WM_clearBaseline
  | WM_destroy watch_owner watch_id
  | WM_removeOwner watch_owner
  | WM_recordSamples "watch_id list" i64 i64 u64

primrec wm_step :: "wm_op \<Rightarrow> watch_manager \<Rightarrow> watch_manager" where
  "wm_step (WM_activateCatalog v tc) m = snd (watch_activateCatalog v tc m)"
| "wm_step (WM_create owner r) m = snd (watch_create owner r m)"
| "wm_step (WM_setBaseline period retention) m = snd (setFirmwareHeartbeatBaseline period retention m)"
| "wm_step WM_clearBaseline m = snd (clearFirmwareHeartbeatBaseline m)"
| "wm_step (WM_destroy owner i) m = snd (watch_destroy owner i m)"
| "wm_step (WM_removeOwner owner) m = snd (removeOwner owner m)"
| "wm_step (WM_recordSamples ids first period n) m = snd (recordSamples ids first period n m)"

lemmas wm_inv_ops = wm_inv_activate wm_inv_create wm_inv_set_baseline wm_inv_clear_baseline wm_inv_destroy
  wm_inv_removeOwner wm_inv_record

lemma wm_inv_start: "ok (WatchLimits_validate l) \<Longrightarrow> wm_inv (watch_manager_start l)"
  by (simp add: wm_inv_def watch_manager_start_def counters_ok_def baseline_ok_def buildSnapshot_def
      default_watch_snapshot_def default_watch_catalog_def merge_logical_def)

interpretation wm: component "watch_manager_start l" wm_step "\<lambda>m. ok (WatchLimits_validate l) \<longrightarrow> wm_inv m" for l
proof
  fix m op assume "ok (WatchLimits_validate l) \<longrightarrow> wm_inv m"
  then show "ok (WatchLimits_validate l) \<longrightarrow> wm_inv (wm_step op m)" by (cases op) (simp_all add: wm_inv_ops)
qed (simp add: wm_inv_start)

definition watches_reachable :: "watch_limits \<Rightarrow> wm_op list \<Rightarrow> watch_manager option" where
  "watches_reachable l ops = map_option (fold wm_step ops) (WatchManager l)"

lemma watches_reachable_inv:
  assumes "watches_reachable l ops = Some m" shows "wm_inv m"
  using assms wm.inv_reach [of l ops] by (auto simp: watches_reachable_def WatchManager_def split: if_splits)

lemma publish_entries:
  assumes "watch_publish logical m = (st, m')" "map_of logical j = map_of (wm_logical m) j" "wm_inv m"
  shows "watch_entries m' j = watch_entries m j"
  using assms(1)
proof (cases rule: publish_elim)
  case published
  then show ?thesis using assms(2) wm_invD(4) [OF assms(3), of j]
    by (auto simp: watch_entries_def map_of_filter_key counters_ok_def split: option.splits)
qed simp

lemma next_watch_fresh: "wm_inv m \<Longrightarrow> map_of (wm_logical m) (wm_next_watch_id m) = None"
  by (metis less_irrefl map_of_SomeD option.exhaust wm_invD(6))

lemma create_entries:
  assumes "wm_inv m" "map_of (wm_logical m) j = Some w"
  shows "watch_entries (snd (watch_create owner r m)) j = watch_entries m j"
proof -
  obtain res m' where c: "watch_create owner r m = (res, m')" by fastforce
  then show ?thesis
  proof (cases rule: create_elim)
    case (created v m1)
    have "map_of (omap_emplace (wm_next_watch_id m) v (wm_logical m)) j = map_of (wm_logical m) j"
      using assms next_watch_fresh [OF assms(1)] wm_invD(1) [OF assms(1)] by (auto simp: map_of_omap_emplace)
    from publish_entries [OF created(6) this assms(1)] show ?thesis
      by (simp add: c created(7) watch_entries_def)
  qed (simp add: c)
qed

lemma destroy_entries:
  assumes "wm_inv m" "map_of (wm_logical m) j = Some w" "lw_owner w \<noteq> owner"
  shows "watch_entries (snd (watch_destroy owner i m)) j = watch_entries m j"
proof (cases "map_of (wm_logical m) i")
  case (Some v)
  show ?thesis
  proof (cases "lw_owner v = owner")
    case True
    then have "map_of (omap_erase i (wm_logical m)) j = map_of (wm_logical m) j"
      using Some assms by (auto simp: map_of_omap_erase)
    then show ?thesis using Some True assms(1)
      by (cases "watch_publish (omap_erase i (wm_logical m)) m") (auto simp: watch_destroy_def dest: publish_entries)
  qed (simp add: watch_destroy_def Some)
qed (simp add: watch_destroy_def)

lemma removeOwner_entries:
  assumes "wm_inv m" "map_of (wm_logical m) j = Some w" "lw_owner w \<noteq> owner"
  shows "watch_entries (snd (removeOwner owner m)) j = watch_entries m j"
proof -
  let ?l = "filter (\<lambda>(_, w). lw_owner w \<noteq> owner) (wm_logical m)"
  have "(j, w) \<in> set ?l" using assms by (auto dest: map_of_SomeD)
  then have "map_of ?l j = map_of (wm_logical m) j" using assms in_omap [of ?l j w] wm_invD(1) [OF assms(1)] by simp
  then show ?thesis using assms(1)
    by (cases "watch_publish ?l m") (auto simp: removeOwner_def Let_def dest: publish_entries)
qed

lemma removeOwner_gone:
  assumes "fst (removeOwner owner m) = SUCCESS" "(j, w) \<in> set (wm_logical (snd (removeOwner owner m)))"
  shows "lw_owner w \<noteq> owner"
proof -
  let ?l = "filter (\<lambda>(_, w). lw_owner w \<noteq> owner) (wm_logical m)"
  have eq: "removeOwner owner m = watch_publish ?l m" using assms(1) by (auto simp: removeOwner_def Let_def split: if_splits)
  then obtain m' where p: "watch_publish ?l m = (SUCCESS, m')" using assms(1) by (metis fst_conv surj_pair)
  from p have "wm_logical m' = ?l" by (cases rule: publish_elim) simp_all
  then show ?thesis using assms(2) eq p by auto
qed

text \<open>The effective watches of a snapshot.\<close>

lemma snapshot_effective:
  fixes cat :: watch_catalog and logical :: "(watch_id, logical_watch) omap" and version :: u64
  assumes "baseline_ok b" "\<forall>(i, w) \<in> set logical. distinct (wr_metrics (lw_requirement w))"
  defines "pid \<equiv> wc_provider_id cat" and "eff \<equiv> ws_effective_watches (buildSnapshot cat b logical version)"
  shows "sorted_wrt (<) (map ew_key eff)"
    and "set eff = set_option b \<union> {combined k (wanting pid k logical) | k. wanting pid k logical \<noteq> []}"
proof -
  define start where "start = (case b of None \<Rightarrow> [] | Some b \<Rightarrow> [(ew_key b, b)])"
  define M where "M = merge_logical pid logical start"
  have eff: "eff = map snd M" by (simp add: eff_def buildSnapshot_def Let_def M_def start_def pid_def)
  have kind: "wk_kind k \<noteq> PD_Metric" if "k \<in> fst ` set start" for k
    using that assms(1) by (auto simp: start_def baseline_ok_def split: option.splits)
  have "omap_ok start" by (simp add: start_def omap_ok_def split: option.split)
  from merge_logical_ok [OF assms(2) this kind, of pid] have "merged_ok pid logical start M" by (simp add: M_def)
  then have ok: "omap_ok M" and look: "\<And>k. map_of M k =
      (if wanting pid k logical = [] then map_of start k else Some (combined k (wanting pid k logical)))"
    by (simp_all add: merged_ok_def)
  have start: "map_of start k = Some e \<longleftrightarrow> b = Some e \<and> k = ew_key e" for k e
    by (auto simp: start_def split: option.splits)
  have mem: "(k, e) \<in> set M \<longleftrightarrow> (if wanting pid k logical = [] then b = Some e \<and> k = ew_key e
      else e = combined k (wanting pid k logical))" for k e
    using in_omap [OF ok, of k e] look [of k] start [of k e] by auto
  have "ew_key e = k" if "(k, e) \<in> set M" for k e
    using that unfolding mem by (auto simp: combined_def Let_def split: if_splits)
  then have "map ew_key eff = map fst M" by (auto simp: eff)
  then show "sorted_wrt (<) (map ew_key eff)" using ok by (simp add: omap_ok_def)
  have none: "wanting pid (ew_key e) logical = []" if "b = Some e" for e
    using that assms(1) by (auto simp: wanting_def filter_empty_conv baseline_ok_def metric_watch_key_def)
  show "set eff = set_option b \<union> {combined k (wanting pid k logical) | k. wanting pid k logical \<noteq> []}"
  proof (intro set_eqI iffI)
    fix e assume "e \<in> set eff"
    then obtain k where "(k, e) \<in> set M" by (auto simp: eff)
    then show "e \<in> set_option b \<union> {combined k (wanting pid k logical) | k. wanting pid k logical \<noteq> []}"
      unfolding mem by (auto split: if_splits)
  next
    fix e assume "e \<in> set_option b \<union> {combined k (wanting pid k logical) | k. wanting pid k logical \<noteq> []}"
    then have "\<exists>k. (k, e) \<in> set M"
    proof
      assume "e \<in> set_option b"
      then have "(ew_key e, e) \<in> set M" using none by (simp add: mem)
      then show ?thesis ..
    next
      assume "e \<in> {combined k (wanting pid k logical) | k. wanting pid k logical \<noteq> []}"
      then obtain k where "wanting pid k logical \<noteq> []" "e = combined k (wanting pid k logical)" by auto
      then have "(k, e) \<in> set M" by (simp add: mem)
      then show ?thesis ..
    qed
    then show "e \<in> set eff" by (force simp: eff)
  qed
qed

section \<open>Properties\<close>

text \<open>
  The concrete input of the witnesses: a device with two polled metrics, watched by two sessions.
\<close>

definition watched_metric :: "metric_id \<Rightarrow> string \<Rightarrow> metric_descriptor" where
  "watched_metric i name =
     \<lparr>md_id = i, md_name = name, md_value_type = MK_Uint64, md_unit = ''count'',
      md_temporality = MT_CumulativeCounter, md_scope = EK_Device, md_collection_mode = CM_Poll,
      md_default_period_ns = 1, md_min_period_ns = 1, md_freshness_ns = 1, md_supports_fpga = True,
      md_supports_emu = True, md_requirement = RL_Required, md_semantic_version = 1,
      md_provider_mapping_approved = True, md_dependencies = []\<rparr>"

definition watched_catalog :: target_catalog where
  "watched_catalog = (TargetCatalog_blocked TK_Fpga)
     \<lparr>tc_metrics_status := MC_Ready, tc_metrics := [watched_metric 1 ''a'', watched_metric 2 ''b'']\<rparr>"

definition watched_view :: "u64 \<Rightarrow> catalog_view" where
  "watched_view g =
    (let e = EntityRef EK_Device 0 1; a = hd (cv_entities (sc_snapshot (witness_catalog [witness_descriptor ''b''])));
         item = (\<lambda>i. \<lparr>ci_kind = CP_Metric, ci_id = i, ci_supported = True, ci_reason = CR_Supported,
                  ci_semantic_version = 1, ci_catalog_generation = g\<rparr>)
     in empty_view\<lparr>cv_generation := g, cv_detected_device_count := 1, cv_entities := [a],
          cv_capability_sets := [\<lparr>cs_entity = e, cs_catalog_generation = g, cs_items = [item 1, item 2]\<rparr>]\<rparr>)"

definition watching :: "metric_id list \<Rightarrow> i64 \<Rightarrow> u64 \<Rightarrow> watch_requirement" where
  "watching ms period limit =
     \<lparr>wr_catalog_generation = 1, wr_entity = EntityRef EK_Device 0 1, wr_metrics = ms, wr_period = period,
      wr_freshness = 2 * period, wr_retention = 4 * period, wr_sample_limit = limit, wr_priority = WP_Normal,
      wr_delivery = WD_CacheOnly, wr_allow_partial = False\<rparr>"

definition watched_limits :: watch_limits where
  "watched_limits = \<lparr>wl_max_logical_watches = 4, wl_max_effective_watches = 4, wl_max_metrics_per_watch = 4\<rparr>"

definition watched_ops :: "wm_op list" where
  "watched_ops = [WM_activateCatalog (Some (watched_view 1)) watched_catalog,
     WM_create (WatchOwner WO_Session 1) (watching [2, 1] 10 0), WM_create (WatchOwner WO_Session 2) (watching [1] 5 3)]"

definition watched :: watch_manager where
  "watched = fold wm_step watched_ops (watch_manager_start watched_limits)"

lemma watched_reachable: "watches_reachable watched_limits watched_ops = Some watched"
  by (simp add: watches_reachable_def WatchManager_def watched_limits_def WatchLimits_validate_def ok_def watched_def)

lemma watched_watches:
  "map (\<lambda>(i, w). (i, lw_owner w, wr_metrics (lw_requirement w))) (wm_logical watched) =
     [(1, WatchOwner WO_Session 1, [1, 2]), (2, WatchOwner WO_Session 2, [1])] \<and> ws_version (wm_snapshot watched) = 3"
  by code_simp

text \<open>
  C2: A published snapshot is exactly the merge of the registered watches. In every state a
  watch manager can reach (while it can still publish), the effective watches are the heartbeat
  baseline and, for each metric key some watch wants, one entry with the smallest period and
  freshness, the largest retention and priority of the watches that want it, and their ids; no
  key occurs twice, and the number of watches stays in the limits.
\<close>

theorem watch_snapshot_merges:
  assumes "watches_reachable l ops = Some m" "ws_version (wm_snapshot m) \<noteq> u64_max"
  shows "let eff = ws_effective_watches (wm_snapshot m); want = (\<lambda>k. wanting (wc_provider_id (wm_catalog m)) k (wm_logical m)) in
    sorted_wrt (<) (map ew_key eff) \<and>
    set eff = set_option (wm_heartbeat_baseline m) \<union> {combined k (want k) | k. want k \<noteq> []} \<and>
    ws_logical_watches (wm_snapshot m) = map snd (wm_logical m) \<and>
    length (wm_logical m) \<le> wl_max_logical_watches (wm_limits m) \<and>
    length eff \<le> wl_max_effective_watches (wm_limits m)"
proof -
  have inv: "wm_inv m" by (rule watches_reachable_inv [OF assms(1)])
  then have snap: "wm_snapshot m =
      buildSnapshot (wm_catalog m) (wm_heartbeat_baseline m) (wm_logical m) (ws_version (wm_snapshot m))"
    and limits: "length (wm_logical m) \<le> wl_max_logical_watches (wm_limits m)"
      "length (ws_effective_watches (wm_snapshot m)) \<le> wl_max_effective_watches (wm_limits m)"
    using assms(2) by (simp_all add: wm_inv_def)
  have "\<forall>(i, w) \<in> set (wm_logical m). distinct (wr_metrics (lw_requirement w))" using wm_invD(6) [OF inv] by blast
  note eff = snapshot_effective [OF wm_invD(2) [OF inv] this, of "wm_catalog m" "ws_version (wm_snapshot m)",
      folded snap]
  have "ws_logical_watches (wm_snapshot m) = map snd (wm_logical m)"
    by (subst snap) (simp add: buildSnapshot_def Let_def)
  with eff limits show ?thesis by (simp add: Let_def)
qed

theorem watch_snapshot_merges_witness:
  "map ew_period (ws_effective_watches (wm_snapshot watched)) = [5, 10] \<and>
   set (ws_effective_watches (wm_snapshot watched)) =
     set_option (wm_heartbeat_baseline watched) \<union>
     {combined k (wanting (wc_provider_id (wm_catalog watched)) k (wm_logical watched)) | k.
        wanting (wc_provider_id (wm_catalog watched)) k (wm_logical watched) \<noteq> []}"
proof -
  have "map ew_period (ws_effective_watches (wm_snapshot watched)) = [5, 10]" by code_simp
  then show ?thesis using watch_snapshot_merges [OF watched_reachable] watched_watches by (simp add: Let_def)
qed

text \<open>
  C12: Sample accounting is exact. When \<open>recordSamples\<close> accepts a token of \<open>n\<close> scheduled times,
  each named watch adds the number of those times that lie after the last one it has counted (so
  no time is counted twice), saturating at the largest 64-bit number; a watch that reaches its
  limit is removed with its counters; every other watch is left as it was.
\<close>

theorem watch_samples_exact:
  assumes "watches_reachable l ops = Some m" "recordSamples ids first period n m = (SUCCESS, m')"
  shows "watch_entries m' i =
    (if i \<in> set ids then record_entry first period (unat n) (first + period * (int (unat n) - 1)) (watch_entries m i)
     else watch_entries m i)"
  by (rule recorded_entries(1) [OF watches_reachable_inv [OF assms(1)] assms(2)])

theorem watch_samples_exact_witness:
  "fst (watch_entries (snd (recordSamples [1, 2] 100 10 3 watched)) 2) = None \<and>
   snd (watch_entries (snd (recordSamples [1, 2] 100 10 3 watched)) 1) = (Some 3, Some 120)"
proof -
  have "fst (recordSamples [1, 2] 100 10 3 watched) = SUCCESS" by code_simp
  then have rec: "recordSamples [1, 2] 100 10 3 watched = (SUCCESS, snd (recordSamples [1, 2] 100 10 3 watched))"
    by (metis prod.collapse)
  have one: "fst (watch_entries watched 1) \<noteq> None \<and> snd (watch_entries watched 1) = (None, None) \<and>
      map_option (wr_sample_limit \<circ> lw_requirement) (fst (watch_entries watched 1)) = Some 0"
    by code_simp
  have two: "snd (watch_entries watched 2) = (None, None) \<and>
      map_option (wr_sample_limit \<circ> lw_requirement) (fst (watch_entries watched 2)) = Some 3"
    by code_simp
  from watch_samples_exact [OF watched_reachable rec, of 1] watch_samples_exact [OF watched_reachable rec, of 2] one two
  show ?thesis
    by (cases "watch_entries watched 1"; cases "watch_entries watched 2")
      (auto simp: record_entry_def split: option.splits)
qed

text \<open>
  Owners are isolated. Creating or destroying a watch or removing an owner, whatever the
  outcome, leaves every watch of another owner registered with its counter and its last counted
  time; and a successful \<open>removeOwner\<close> leaves no watch of that owner.
\<close>

theorem watch_owner_isolation:
  assumes "watches_reachable l ops = Some m"
    and "op \<in> {WM_create owner r, WM_destroy owner i, WM_removeOwner owner}"
  shows "(\<forall>j w. map_of (wm_logical m) j = Some w \<and> lw_owner w \<noteq> owner \<longrightarrow> watch_entries (wm_step op m) j = watch_entries m j) \<and>
    (fst (removeOwner owner m) = SUCCESS \<longrightarrow>
      (\<forall>(j, w) \<in> set (wm_logical (snd (removeOwner owner m))). lw_owner w \<noteq> owner))"
  using assms(2) watches_reachable_inv [OF assms(1)] removeOwner_gone [of owner m]
  by (auto intro: create_entries destroy_entries removeOwner_entries)

text \<open>
  C35: Activating a newer catalog drops every watch and the heartbeat baseline. The check that
  would keep a watch compares the generation it was created for with the new one, and every
  registered watch was created for an older one.
\<close>

theorem catalog_change_drops_watches:
  assumes "watches_reachable l ops = Some m" "ws_version (wm_snapshot m) \<noteq> u64_max" "replaced_catalog v tc m"
    and "watch_activateCatalog (Some v) tc m = (st, m')"
  shows "st = SUCCESS \<and> wm_logical m' = [] \<and> wm_heartbeat_baseline m' = None \<and>
    ws_effective_watches (wm_snapshot m') = [] \<and> ws_version (wm_snapshot m') = ws_version (wm_snapshot m) + 1"
proof -
  let ?m = "m\<lparr>wm_catalog := next_watch_catalog v tc, wm_heartbeat_baseline := None\<rparr>"
  have "watch_activateCatalog (Some v) tc m = activate_watches v tc m"
    using assms(3) by (auto simp: watch_activateCatalog_def replaced_catalog_def ok_def split: option.split)
  then have p: "watch_publish [] ?m = (st, m')"
    using activate_watches_empty [OF watches_reachable_inv [OF assms(1)] assms(2,3)] assms(4) by simp
  have "fst (watch_publish [] ?m) = SUCCESS" using assms(2) by (intro publish_Nil) simp_all
  with p have "st = SUCCESS" by simp
  with p show ?thesis
    by (cases rule: publish_elim) (simp_all add: buildSnapshot_def Let_def merge_logical_def)
qed

theorem catalog_change_drops_watches_witness:
  "length (wm_logical watched) = 2 \<and>
   wm_logical (snd (watch_activateCatalog (Some (watched_view 2)) watched_catalog watched)) = []"
proof -
  have "map_option cv_generation (wc_view (wm_catalog watched)) = Some 1 \<and> cv_generation (watched_view 2) = 2 \<and>
      TargetCatalog_validate watched_catalog = SUCCESS" by code_simp
  then have "replaced_catalog (watched_view 2) watched_catalog watched" by (auto simp: replaced_catalog_def)
  moreover have "length (wm_logical watched) = 2" using arg_cong [OF conjunct1 [OF watched_watches], of length] by simp
  ultimately show ?thesis
    using catalog_change_drops_watches [OF watched_reachable, of "watched_view 2" watched_catalog] watched_watches
    by (cases "watch_activateCatalog (Some (watched_view 2)) watched_catalog watched") auto
qed

end
