(* ===== verification/Collection_Plan.thy ===== *)
theory Collection_Plan
  imports DataStore_Commit Watches
begin

text \<open>
  The collection plan of \<open>src/product/src/collection/collection_coordinator.*\<close>: how the
  effective watches of a snapshot become jobs. Watches with the same provider, period, kind
  and isolation class share jobs, cut into batches. This theory holds the compilation of a
  plan; the coordinator that installs and runs it is in later theories.
\<close>

section \<open>Limits, jobs, plans\<close>

record collection_limits =
  kl_max_plan_jobs :: size_t
  kl_max_batch_items :: size_t
  kl_max_result_items :: size_t
  kl_max_result_bytes :: size_t
  kl_max_provider_queue :: size_t
  kl_max_provider_in_flight :: size_t
  kl_max_fresh_waiters :: size_t
  kl_scheduler_max_sleep :: i64

definition CollectionLimits_validate :: "collection_limits \<Rightarrow> pdcm_status" where
  "CollectionLimits_validate l =
    (if kl_max_plan_jobs l = 0 \<or> kl_max_batch_items l = 0 \<or> kl_max_result_items l = 0 \<or>
        kl_max_result_bytes l = 0 \<or> kl_max_result_items l < kl_max_batch_items l \<or>
        kl_max_provider_queue l = 0 \<or> kl_max_provider_in_flight l \<noteq> 1 \<or>
        kl_max_fresh_waiters l = 0 \<or> kl_scheduler_max_sleep l \<le> 0
     then INVALID_ARGUMENT else SUCCESS)"

record collection_plan_item =
  pi_key :: effective_watch_key
  pi_period :: i64
  pi_freshness :: i64
  pi_priority :: watch_priority
  pi_logical_watches :: "watch_id list"

record collection_job =
  jb_id :: u64
  jb_provider_id :: string
  jb_kind :: provider_data_kind
  jb_isolation_class :: u32
  jb_period :: i64
  jb_priority :: watch_priority
  jb_items :: "collection_plan_item list"

record collection_plan =
  pl_version :: u64
  pl_watch_snapshot_version :: u64
  pl_catalog_generation :: u64
  pl_created_at :: i64
  pl_jobs :: "collection_job list"

definition default_collection_plan :: collection_plan where
  "default_collection_plan =
     \<lparr>pl_version = 0, pl_watch_snapshot_version = 0, pl_catalog_generation = 0, pl_created_at = 0, pl_jobs = []\<rparr>"

definition default_collection_job :: collection_job where
  "default_collection_job =
     \<lparr>jb_id = 0, jb_provider_id = [], jb_kind = PD_Metric, jb_isolation_class = 0, jb_period = 0,
      jb_priority = WP_Low, jb_items = []\<rparr>"

text \<open>\<open>GroupKey\<close>: its \<open>operator<\<close> compares provider, period, kind and isolation class in this order.\<close>

type_synonym group_key = "string \<times> i64 \<times> provider_data_kind \<times> u32"

section \<open>Compilation\<close>

definition known_data :: "data_manager \<Rightarrow> effective_watch_key \<Rightarrow> bool" where
  "known_data m key =
    (case wk_kind key of
       PD_Metric \<Rightarrow> metricDescriptor (wk_data_id key) m \<noteq> None
     | PD_HeartbeatEvidence \<Rightarrow>
        (case heartbeatCatalog m of
           None \<Rightarrow> False
         | Some (heartbeat, supported) \<Rightarrow> supported \<and> hc_provider_data_id heartbeat = Some (wk_data_id key)))"

definition watch_item :: "effective_watch \<Rightarrow> collection_plan_item" where
  "watch_item w =
     \<lparr>pi_key = ew_key w, pi_period = ew_period w, pi_freshness = ew_freshness w, pi_priority = ew_priority w,
      pi_logical_watches = ew_logical_watches w\<rparr>"

definition watch_group :: "effective_watch \<Rightarrow> group_key" where
  "watch_group w = (wk_provider_id (ew_key w), ew_period w, wk_kind (ew_key w), wk_isolation_class (ew_key w))"

text \<open>The loop over the effective watches; \<open>seen\<close> is the set of keys so far.\<close>

fun group_watches ::
  "data_manager \<Rightarrow> effective_watch_key list \<Rightarrow> (group_key, collection_plan_item list) omap \<Rightarrow>
   effective_watch list \<Rightarrow> (group_key, collection_plan_item list) omap option" where
  "group_watches m seen groups [] = Some groups"
| "group_watches m seen groups (w # ws) =
    (if wk_provider_id (ew_key w) = [] \<or> wk_data_id (ew_key w) = 0 \<or> ew_period w \<le> 0 \<or>
        ew_freshness w < ew_period w \<or> ew_key w \<in> set seen \<or> \<not> known_data m (ew_key w)
     then None
     else
      let items = (case map_of groups (watch_group w) of None \<Rightarrow> [] | Some items \<Rightarrow> items)
      in group_watches m (ew_key w # seen) (omap_put (watch_group w) (items @ [watch_item w]) groups) ws)"

text \<open>Consecutive slices of at most \<open>n\<close> items, for a positive \<open>n\<close>.\<close>

fun batches :: "size_t \<Rightarrow> 'a list \<Rightarrow> 'a list list" where
  "batches n [] = []"
| "batches n (x # xs) = (x # take (n - 1) xs) # batches n (drop (n - 1) xs)"

definition make_job :: "u64 \<Rightarrow> group_key \<Rightarrow> collection_plan_item list \<Rightarrow> collection_job" where
  "make_job next_id gk items =
    (case gk of (provider_id, period, kind, isolation_class) \<Rightarrow>
       \<lparr>jb_id = next_id, jb_provider_id = provider_id, jb_kind = kind, jb_isolation_class = isolation_class,
        jb_period = period, jb_priority = fold (\<lambda>item p. max p (pi_priority item)) items WP_Low, jb_items = items\<rparr>)"

fun build_jobs ::
  "collection_limits \<Rightarrow> u64 \<Rightarrow> collection_job list \<Rightarrow> (group_key \<times> collection_plan_item list) list \<Rightarrow>
   collection_job list option" where
  "build_jobs l next_id jobs [] = Some jobs"
| "build_jobs l next_id jobs ((gk, items) # rest) =
    (if length jobs = kl_max_plan_jobs l \<or> next_id = - 1 then None
     else build_jobs l (next_id + 1) (jobs @ [make_job next_id gk items]) rest)"

definition group_batches ::
  "size_t \<Rightarrow> (group_key, collection_plan_item list) omap \<Rightarrow> (group_key \<times> collection_plan_item list) list" where
  "group_batches n groups = concat (map (\<lambda>(gk, items). map (Pair gk) (batches n (sort_key pi_key items))) groups)"

text \<open>
  \<open>applyWatchSnapshot\<close> up to the publication: the next plan, still without a version.
\<close>

definition compile_plan ::
  "collection_limits \<Rightarrow> i64 \<Rightarrow> watch_snapshot option \<Rightarrow> data_manager \<Rightarrow> pdcm_status + collection_plan" where
  "compile_plan l now watches m =
    (case watches of
       None \<Rightarrow> Inl STALE_GENERATION
     | Some ws \<Rightarrow>
        if ws_catalog_generation ws = 0 \<or> ws_catalog_generation ws \<noteq> dm_generation m then Inl STALE_GENERATION
        else
         case group_watches m [] [] (ws_effective_watches ws) of
           None \<Rightarrow> Inl INVALID_ARGUMENT
         | Some groups \<Rightarrow>
            (case build_jobs l 1 [] (group_batches (kl_max_batch_items l) groups) of
               None \<Rightarrow> Inl RESOURCE_EXHAUSTED
             | Some jobs \<Rightarrow>
                Inr \<lparr>pl_version = 0, pl_watch_snapshot_version = ws_version ws,
                     pl_catalog_generation = ws_catalog_generation ws, pl_created_at = now, pl_jobs = jobs\<rparr>))"

section \<open>What a plan holds\<close>

text \<open>A watch that can be compiled, and a job that is well formed.\<close>

definition watch_compilable :: "data_manager \<Rightarrow> effective_watch \<Rightarrow> bool" where
  "watch_compilable m w \<longleftrightarrow> wk_provider_id (ew_key w) \<noteq> [] \<and> wk_data_id (ew_key w) \<noteq> 0 \<and> 0 < ew_period w \<and>
     ew_period w \<le> ew_freshness w \<and> known_data m (ew_key w)"

definition job_ok :: "collection_limits \<Rightarrow> collection_job \<Rightarrow> bool" where
  "job_ok l j \<longleftrightarrow> jb_items j \<noteq> [] \<and> length (jb_items j) \<le> kl_max_batch_items l \<and> 0 < jb_period j \<and>
     sorted_wrt (<) (map pi_key (jb_items j)) \<and>
     (\<forall>i \<in> set (jb_items j). wk_provider_id (pi_key i) = jb_provider_id j \<and> pi_period i = jb_period j \<and>
        wk_kind (pi_key i) = jb_kind j \<and> wk_isolation_class (pi_key i) = jb_isolation_class j \<and>
        jb_period j \<le> pi_freshness i \<and> pi_priority i \<le> jb_priority j) \<and>
     (\<exists>i \<in> set (jb_items j). pi_priority i = jb_priority j)"

lemma concat_batches: "concat (batches n xs) = xs"
  by (induction n xs rule: batches.induct) auto

lemma batches_parts: "b \<in> set (batches n xs) \<Longrightarrow> b \<noteq> [] \<and> length b \<le> max 1 n"
  by (induction n xs rule: batches.induct) auto

lemma sorted_wrt_concat_part: "sorted_wrt R (concat xss) \<Longrightarrow> xs \<in> set xss \<Longrightarrow> sorted_wrt R xs"
  by (induction xss) (auto simp: sorted_wrt_append)

lemma fold_max_priority:
  "p \<le> fold (\<lambda>i p. max p (pi_priority i)) items p \<and>
   (\<forall>i \<in> set items. pi_priority i \<le> fold (\<lambda>i p. max p (pi_priority i)) items p) \<and>
   (fold (\<lambda>i p. max p (pi_priority i)) items p = p \<or>
    (\<exists>i \<in> set items. pi_priority i = fold (\<lambda>i p. max p (pi_priority i)) items p))"
proof (induction items arbitrary: p)
  case (Cons i items)
  show ?case using Cons [of "max p (pi_priority i)"] by (auto simp: max_def split: if_splits)
qed simp

lemma priority_of_items:
  assumes "items \<noteq> []"
  shows "\<exists>i \<in> set items. pi_priority i = fold (\<lambda>i p. max p (pi_priority i)) items WP_Low"
proof -
  have low: "WP_Low \<le> p" for p by (cases p) (simp_all add: less_eq_watch_priority_def)
  obtain i where i: "i \<in> set items" using assms by (cases items) auto
  let ?f = "fold (\<lambda>i p. max p (pi_priority i)) items WP_Low"
  have "pi_priority i \<le> ?f" "?f = WP_Low \<or> (\<exists>i \<in> set items. pi_priority i = ?f)"
    using fold_max_priority [of WP_Low items] i by auto
  with low [of "pi_priority i"] i show ?thesis by (metis antisym)
qed

lemma mset_omap_put_append:
  assumes "omap_ok g"
  shows "mset (concat (map snd (omap_put k ((case map_of g k of None \<Rightarrow> [] | Some xs \<Rightarrow> xs) @ [x]) g))) =
    add_mset x (mset (concat (map snd g)))"
  using assms
proof (induction g)
  case (Cons e g)
  then have ok: "omap_ok g" and gt: "\<forall>y \<in> set (map fst g). fst e < y" by (auto simp: omap_ok_def)
  then have "fst e = k \<or> k < fst e \<Longrightarrow> map_of g k = None" by (auto simp: map_of_eq_None_iff)
  with Cons.IH [OF ok] show ?case by (cases e) auto
qed simp

text \<open>The items of each group carry the group's key, and all keys are different.\<close>

definition item_in_group :: "group_key \<Rightarrow> collection_plan_item \<Rightarrow> bool" where
  "item_in_group g i \<longleftrightarrow>
     g = (wk_provider_id (pi_key i), pi_period i, wk_kind (pi_key i), wk_isolation_class (pi_key i)) \<and>
     0 < pi_period i \<and> pi_period i \<le> pi_freshness i"

definition groups_ok :: "(group_key, collection_plan_item list) omap \<Rightarrow> bool" where
  "groups_ok groups \<longleftrightarrow> omap_ok groups \<and> list_all (\<lambda>(g, items). list_all (item_in_group g) items) groups"

lemma list_all_omap_put: "P (k, v) \<Longrightarrow> list_all P m \<Longrightarrow> list_all P (omap_put k v m)"
  by (induction m) auto

lemma groups_ok_put:
  assumes "groups_ok groups" "item_in_group g x"
  shows "groups_ok (omap_put g ((case map_of groups g of None \<Rightarrow> [] | Some items \<Rightarrow> items) @ [x]) groups)"
proof -
  let ?items = "case map_of groups g of None \<Rightarrow> [] | Some items \<Rightarrow> items"
  have "list_all (item_in_group g) (?items @ [x])"
  proof (cases "map_of groups g")
    case (Some items)
    then have "(g, items) \<in> set groups" by (rule map_of_SomeD)
    with assms Some show ?thesis by (auto simp: groups_ok_def list_all_iff)
  qed (use assms(2) in simp)
  then show ?thesis
    using assms(1) by (auto simp: groups_ok_def intro!: list_all_omap_put)
qed

lemma group_watches_spec:
  assumes "group_watches m seen groups ws = Some g" "groups_ok groups"
  shows "groups_ok g \<and> mset (concat (map snd g)) = mset (concat (map snd groups)) + mset (map watch_item ws) \<and>
    list_all (watch_compilable m) ws \<and> distinct (map ew_key ws) \<and> set seen \<inter> ew_key ` set ws = {}"
  using assms
proof (induction m seen groups ws rule: group_watches.induct)
  case (2 m seen groups w ws)
  let ?items = "case map_of groups (watch_group w) of None \<Rightarrow> [] | Some items \<Rightarrow> items"
  let ?next = "omap_put (watch_group w) (?items @ [watch_item w]) groups"
  have c: "watch_compilable m w" "ew_key w \<notin> set seen"
    and rec: "group_watches m (ew_key w # seen) ?next ws = Some g"
    using 2(2) by (auto simp: watch_compilable_def Let_def split: if_splits)
  have "groups_ok ?next"
    using c(1) by (intro groups_ok_put [OF 2(3)]) (simp add: item_in_group_def watch_group_def watch_item_def watch_compilable_def)
  moreover have "omap_ok groups" using 2(3) by (simp add: groups_ok_def)
  ultimately show ?case
    using 2(1) [OF _ refl rec] c rec mset_omap_put_append [of groups "watch_group w" "watch_item w"]
    by (auto simp: watch_compilable_def)
qed simp

lemma build_jobs_spec:
  assumes "build_jobs l n jobs parts = Some js" "length jobs \<le> kl_max_plan_jobs l" "n \<noteq> 0"
  shows "\<exists>new. js = jobs @ new \<and> length js \<le> kl_max_plan_jobs l \<and>
    list_all2 (\<lambda>(g, items) j. j = make_job (jb_id j) g items) parts new \<and>
    map (\<lambda>j. unat (jb_id j)) new = [unat n ..< unat n + length new]"
  using assms
proof (induction parts arbitrary: n jobs)
  case (Cons p parts)
  obtain g items where p: "p = (g, items)" by (cases p)
  have room: "length jobs \<noteq> kl_max_plan_jobs l" "n \<noteq> - 1"
    and rec: "build_jobs l (n + 1) (jobs @ [make_job n g items]) parts = Some js"
    using Cons.prems(1) by (auto simp: p split: if_splits)
  obtain new where new: "js = (jobs @ [make_job n g items]) @ new" "length js \<le> kl_max_plan_jobs l"
    "list_all2 (\<lambda>(g, items) j. j = make_job (jb_id j) g items) parts new"
    "map (\<lambda>j. unat (jb_id j)) new = [unat (n + 1) ..< unat (n + 1) + length new]"
    using Cons.IH [OF rec] room Cons.prems(2) inc_nonzero [OF room(2)] by auto
  have id: "jb_id (make_job n g items) = n" by (simp add: make_job_def split: prod.split)
  show ?case
    using new unat_inc [OF room(2)] id by (intro exI [of _ "make_job n g items # new"]) (simp add: p upt_conv_Cons del: upt_Suc)
qed simp

lemma group_batches_spec:
  assumes "groups_ok groups" "distinct (map pi_key (concat (map snd groups)))" "0 < n"
  shows "mset (concat (map snd (group_batches n groups))) = mset (concat (map snd groups)) \<and>
    list_all (\<lambda>(g, items). items \<noteq> [] \<and> length items \<le> n \<and> sorted_wrt (<) (map pi_key items) \<and>
      list_all (item_in_group g) items) (group_batches n groups)"
  using assms(1,2)
proof (induction groups)
  case (Cons e groups)
  obtain g items where e: "e = (g, items)" by (cases e)
  let ?bs = "batches n (sort_key pi_key items)"
  have IH: "mset (concat (map snd (group_batches n groups))) = mset (concat (map snd groups)) \<and>
    list_all (\<lambda>(g, items). items \<noteq> [] \<and> length items \<le> n \<and> sorted_wrt (<) (map pi_key items) \<and>
      list_all (item_in_group g) items) (group_batches n groups)"
    using Cons by (auto simp: e groups_ok_def omap_ok_def)
  have split: "group_batches n (e # groups) = map (Pair g) ?bs @ group_batches n groups"
    by (simp add: group_batches_def e)
  have sorted: "sorted_wrt (<) (map pi_key (concat ?bs))"
    using Cons.prems(2) by (simp add: concat_batches e strict_sorted_iff distinct_map)
  have "b \<noteq> [] \<and> length b \<le> n \<and> sorted_wrt (<) (map pi_key b) \<and> list_all (item_in_group g) b" if b: "b \<in> set ?bs" for b
  proof (intro conjI)
    show "b \<noteq> []" "length b \<le> n" using batches_parts [OF b] assms(3) by (auto simp: max_def split: if_splits)
    show "sorted_wrt (<) (map pi_key b)"
      using sorted_wrt_concat_part [of "(<)" "map (map pi_key) ?bs" "map pi_key b"] sorted b by (simp add: map_concat)
    have "set b \<subseteq> set (concat ?bs)" using b by auto
    then show "list_all (item_in_group g) b"
      using Cons.prems(1) by (auto simp: concat_batches e groups_ok_def list_all_iff)
  qed
  moreover have "mset (concat ?bs) = mset items" by (simp add: concat_batches)
  ultimately show ?case using IH unfolding split by (auto simp: e list_all_iff comp_def)
qed (simp add: group_batches_def)

lemma make_job_ok:
  assumes "items \<noteq> []" "length items \<le> kl_max_batch_items l" "sorted_wrt (<) (map pi_key items)"
    and "list_all (item_in_group g) items"
  shows "job_ok l (make_job n g items)"
proof -
  obtain pid period kind iso where g: "g = (pid, period, kind, iso)" by (cases g)
  have j: "make_job n g items = \<lparr>jb_id = n, jb_provider_id = pid, jb_kind = kind, jb_isolation_class = iso, jb_period = period,
      jb_priority = fold (\<lambda>i p. max p (pi_priority i)) items WP_Low, jb_items = items\<rparr>"
    by (simp add: make_job_def g)
  obtain i where "i \<in> set items" using assms(1) by (cases items) auto
  with assms(4) have "0 < period" by (auto simp: list_all_iff item_in_group_def g)
  with assms priority_of_items [OF assms(1)] fold_max_priority [of WP_Low items] show ?thesis
    unfolding job_ok_def j by (auto simp: list_all_iff item_in_group_def g)
qed

lemma group_watches_total:
  assumes "list_all (watch_compilable m) ws" "distinct (map ew_key ws)" "set seen \<inter> ew_key ` set ws = {}"
  shows "\<exists>g. group_watches m seen groups ws = Some g"
  using assms
proof (induction ws arbitrary: seen groups)
  case (Cons w ws)
  then show ?case using Cons.IH [of "ew_key w # seen"] by (auto simp: watch_compilable_def Let_def)
qed simp

lemma build_jobs_total:
  assumes "length jobs + length parts \<le> kl_max_plan_jobs l" "unat n + length parts < 2 ^ 64"
  shows "\<exists>js. build_jobs l n jobs parts = Some js"
  using assms
proof (induction parts arbitrary: n jobs)
  case (Cons p parts)
  obtain g items where p: "p = (g, items)" by (cases p)
  have n: "n \<noteq> - 1" using Cons.prems(2) by (auto simp: unat_u64_max)
  have "\<exists>js. build_jobs l (n + 1) (jobs @ [make_job n g items]) parts = Some js"
    using Cons.prems unat_inc [OF n] by (intro Cons.IH) simp_all
  with n Cons.prems(1) show ?case by (simp add: p)
qed simp

lemma length_le_concat: "list_all (\<lambda>xs. xs \<noteq> []) xss \<Longrightarrow> length xss \<le> length (concat xss)"
proof (induction xss)
  case (Cons xs xss)
  then show ?case by (cases xs) auto
qed simp

lemma compiled_groups:
  assumes "group_watches m [] [] ws = Some g" "0 < n"
  shows "mset (concat (map snd (group_batches n g))) = mset (map watch_item ws)"
    and "list_all (\<lambda>(g, items). items \<noteq> [] \<and> length items \<le> n \<and> sorted_wrt (<) (map pi_key items) \<and>
      list_all (item_in_group g) items) (group_batches n g)"
    and "length (group_batches n g) \<le> length ws"
proof -
  have spec: "groups_ok g" "mset (concat (map snd g)) = mset (map watch_item ws)" "distinct (map ew_key ws)"
    using group_watches_spec [OF assms(1)] by (simp_all add: groups_ok_def)
  have "mset (map pi_key (concat (map snd g))) = mset (map pi_key (map watch_item ws))"
    using spec(2) by (metis mset_map)
  then have "distinct (map pi_key (concat (map snd g)))"
    using spec(3) mset_eq_imp_distinct_iff by (fastforce simp: watch_item_def comp_def)
  from group_batches_spec [OF spec(1) this assms(2)] spec(2)
  show all: "mset (concat (map snd (group_batches n g))) = mset (map watch_item ws)"
    and parts: "list_all (\<lambda>(g, items). items \<noteq> [] \<and> length items \<le> n \<and> sorted_wrt (<) (map pi_key items) \<and>
      list_all (item_in_group g) items) (group_batches n g)"
    by simp_all
  have "length (concat (map snd (group_batches n g))) = length ws" using arg_cong [OF all, of size] by simp
  moreover have "list_all (\<lambda>xs. xs \<noteq> []) (map snd (group_batches n g))" using parts by (fastforce simp: list_all_iff)
  ultimately show "length (group_batches n g) \<le> length ws"
    using length_le_concat [of "map snd (group_batches n g)"] by simp
qed

lemma jobs_of_batches:
  assumes "list_all2 (\<lambda>(g, items) j. j = make_job (jb_id j) g items) parts jobs"
  shows "concat (map jb_items jobs) = concat (map snd parts)"
    and "list_all (\<lambda>(g, items). items \<noteq> [] \<and> length items \<le> kl_max_batch_items l \<and> sorted_wrt (<) (map pi_key items) \<and>
      list_all (item_in_group g) items) parts \<Longrightarrow> list_all (job_ok l) jobs"
  using assms
proof (induction rule: list_all2_induct)
  case (Cons p parts j jobs)
  obtain g items where p: "p = (g, items)" by (cases p)
  have j: "j = make_job (jb_id j) g items" using Cons.hyps(1) by (simp add: p)
  have "jb_items j = items" by (subst j) (simp add: make_job_def split: prod.split)
  with Cons.IH(1) show "concat (map jb_items (j # jobs)) = concat (map snd (p # parts))" by (simp add: p)
  have "job_ok l j" if "list_all (\<lambda>(g, items). items \<noteq> [] \<and> length items \<le> kl_max_batch_items l \<and>
      sorted_wrt (<) (map pi_key items) \<and> list_all (item_in_group g) items) (p # parts)"
    by (subst j, rule make_job_ok) (use that in \<open>auto simp: p\<close>)
  then show "list_all (job_ok l) (j # jobs)" if "list_all (\<lambda>(g, items). items \<noteq> [] \<and> length items \<le> kl_max_batch_items l \<and>
      sorted_wrt (<) (map pi_key items) \<and> list_all (item_in_group g) items) (p # parts)"
    using Cons.IH(2) that by simp
qed simp_all

lemma compiled_plan:
  assumes "CollectionLimits_validate l = SUCCESS" "compile_plan l now (Some ws) m = Inr plan"
  shows "mset (concat (map jb_items (pl_jobs plan))) = mset (map watch_item (ws_effective_watches ws)) \<and>
    list_all (job_ok l) (pl_jobs plan) \<and> length (pl_jobs plan) \<le> kl_max_plan_jobs l \<and>
    map (\<lambda>j. unat (jb_id j)) (pl_jobs plan) = [1 ..< Suc (length (pl_jobs plan))] \<and>
    pl_catalog_generation plan = dm_generation m \<and> pl_watch_snapshot_version plan = ws_version ws"
proof -
  let ?n = "kl_max_batch_items l"
  have n: "0 < ?n" "0 < kl_max_plan_jobs l" using assms(1) by (auto simp: CollectionLimits_validate_def split: if_splits)
  obtain g jobs where g: "group_watches m [] [] (ws_effective_watches ws) = Some g"
    and jobs: "build_jobs l 1 [] (group_batches ?n g) = Some jobs"
    and plan: "plan = \<lparr>pl_version = 0, pl_watch_snapshot_version = ws_version ws,
      pl_catalog_generation = ws_catalog_generation ws, pl_created_at = now, pl_jobs = jobs\<rparr>"
    and gen: "ws_catalog_generation ws = dm_generation m"
    using assms(2) by (auto simp: compile_plan_def split: if_splits option.splits)
  note groups = compiled_groups [OF g n(1)]
  obtain new where new: "jobs = new" "length jobs \<le> kl_max_plan_jobs l"
    "list_all2 (\<lambda>(g, items) j. j = make_job (jb_id j) g items) (group_batches ?n g) new"
    "map (\<lambda>j. unat (jb_id j)) new = [1 ..< 1 + length new]"
    using build_jobs_spec [OF jobs] by auto
  show ?thesis
    using groups jobs_of_batches [OF new(3)] new(1,2,4) gen by (simp add: plan)
qed

section \<open>Properties\<close>

text \<open>
  C9: A plan collects every watch exactly once. The items of all jobs together are the
  effective watches of the snapshot, none lost and none twice, with their periods unchanged;
  every job is non-empty, within the batch limit, in key order, uniform in provider, period,
  kind and isolation class, and has the highest priority of its items; jobs are numbered from
  one and stay within the job limit.
\<close>

theorem plan_schedules_every_watch_once:
  assumes "CollectionLimits_validate l = SUCCESS" "compile_plan l now (Some ws) m = Inr plan"
  shows "mset (concat (map jb_items (pl_jobs plan))) = mset (map watch_item (ws_effective_watches ws)) \<and>
    list_all (job_ok l) (pl_jobs plan) \<and> length (pl_jobs plan) \<le> kl_max_plan_jobs l \<and>
    map (\<lambda>j. unat (jb_id j)) (pl_jobs plan) = [1 ..< Suc (length (pl_jobs plan))] \<and>
    pl_catalog_generation plan = dm_generation m \<and> pl_watch_snapshot_version plan = ws_version ws"
  by (rule compiled_plan [OF assms])

text \<open>
  What is refused. A snapshot compiles only if it belongs to the active catalog and all
  its watches are well formed, known and different; then it does compile, unless there are
  more watches than the plan may have jobs.
\<close>

theorem plan_acceptance_exact:
  assumes "CollectionLimits_validate l = SUCCESS" "kl_max_plan_jobs l < 2 ^ 64 - 1"
    and "compilable \<longleftrightarrow> ws_catalog_generation ws = dm_generation m \<and> dm_generation m \<noteq> 0 \<and>
      list_all (watch_compilable m) (ws_effective_watches ws) \<and> distinct (map ew_key (ws_effective_watches ws))"
  shows "((\<exists>plan. compile_plan l now (Some ws) m = Inr plan) \<longrightarrow> compilable) \<and>
    (compilable \<and> length (ws_effective_watches ws) \<le> kl_max_plan_jobs l \<longrightarrow>
       (\<exists>plan. compile_plan l now (Some ws) m = Inr plan))"
proof (intro conjI impI)
  assume "\<exists>plan. compile_plan l now (Some ws) m = Inr plan"
  then obtain g where "group_watches m [] [] (ws_effective_watches ws) = Some g"
    and "ws_catalog_generation ws = dm_generation m" "dm_generation m \<noteq> 0"
    by (auto simp: compile_plan_def split: if_splits option.splits)
  with group_watches_spec [of m "[]" "[]" "ws_effective_watches ws" g] show compilable
    by (simp add: assms(3) groups_ok_def)
next
  assume c: "compilable \<and> length (ws_effective_watches ws) \<le> kl_max_plan_jobs l"
  then obtain g where g: "group_watches m [] [] (ws_effective_watches ws) = Some g"
    using group_watches_total [of m "ws_effective_watches ws" "[]" "[]"] assms(3) by auto
  have "0 < kl_max_batch_items l" using assms(1) by (auto simp: CollectionLimits_validate_def split: if_splits)
  from compiled_groups(3) [OF g this] c assms(2)
  have "\<exists>js. build_jobs l 1 [] (group_batches (kl_max_batch_items l) g) = Some js"
    by (intro build_jobs_total) auto
  with g c show "\<exists>plan. compile_plan l now (Some ws) m = Inr plan" by (auto simp: compile_plan_def assms(3))
qed

definition witness_collection_limits :: collection_limits where
  "witness_collection_limits =
     \<lparr>kl_max_plan_jobs = 2, kl_max_batch_items = 2, kl_max_result_items = 4, kl_max_result_bytes = 2000,
      kl_max_provider_queue = 2, kl_max_provider_in_flight = 1, kl_max_fresh_waiters = 2, kl_scheduler_max_sleep = 5\<rparr>"

definition witness_effective_watch :: effective_watch where
  "witness_effective_watch =
     \<lparr>ew_key = EffectiveWatchKey ''p'' (EntityRef EK_Device 0 1) PD_Metric 7 0, ew_period = 10, ew_freshness = 20,
      ew_retention = 0, ew_priority = WP_Normal, ew_logical_watches = [1]\<rparr>"

definition witness_watch_snapshot :: watch_snapshot where
  "witness_watch_snapshot = \<lparr>ws_version = 1, ws_catalog_generation = 1, ws_logical_watches = [],
     ws_effective_watches = [witness_effective_watch]\<rparr>"

definition witness_plan :: collection_plan where
  "witness_plan =
     \<lparr>pl_version = 0, pl_watch_snapshot_version = 1, pl_catalog_generation = 1, pl_created_at = 4,
      pl_jobs = [\<lparr>jb_id = 1, jb_provider_id = ''p'', jb_kind = PD_Metric, jb_isolation_class = 0, jb_period = 10,
                  jb_priority = WP_Normal, jb_items = [watch_item witness_effective_watch]\<rparr>]\<rparr>"

lemma witness_collection_limits_ok: "CollectionLimits_validate witness_collection_limits = SUCCESS"
  by (simp add: CollectionLimits_validate_def witness_collection_limits_def)

lemma witness_compiles:
  "compile_plan witness_collection_limits 4 (Some witness_watch_snapshot) witness_base = Inr witness_plan"
  by code_simp

theorem plan_schedules_every_watch_once_witness:
  "mset (concat (map jb_items (pl_jobs witness_plan))) = {# watch_item witness_effective_watch #} \<and>
   list_all (job_ok witness_collection_limits) (pl_jobs witness_plan)"
  using plan_schedules_every_watch_once [OF witness_collection_limits_ok witness_compiles]
  by (simp add: witness_watch_snapshot_def)

end
