(* ===== verification/Collection_Commit.thy ===== *)
theory Collection_Commit
  imports Metrics_Manager Collection_Plan
begin

text \<open>
  \<open>CollectionCoordinator::normalizeAndCommit\<close>: what a provider returned for a request is checked
  item by item against the request, turned into observations or heartbeat evidence, and
  committed. The provider is not trusted: unknown, repeated and malformed items are dropped and
  counted as contract violations, missing ones become failures. The clock readings of the
  function are arguments; the data manager is seen as one state for its duration.
\<close>

section \<open>Checks on provider results\<close>

definition statusFor :: "observation_status \<Rightarrow> pdcm_status" where
  "statusFor st =
    (case st of
       OS_NotAvailable \<Rightarrow> UNAVAILABLE
     | OS_Unsupported \<Rightarrow> UNSUPPORTED
     | OS_Error \<Rightarrow> INTERNAL
     | OS_Stale \<Rightarrow> INTERNAL
     | OS_Valid \<Rightarrow> SUCCESS)"

definition callFailureStatus :: "pdcm_status \<Rightarrow> observation_status" where
  "callFailureStatus st =
    (if st = UNAVAILABLE \<or> st = NOT_INITIALIZED then OS_NotAvailable
     else if st = UNSUPPORTED then OS_Unsupported else OS_Error)"

definition usableCallStatus :: "pdcm_status \<Rightarrow> bool" where
  "usableCallStatus st \<longleftrightarrow> st = SUCCESS \<or> st = PARTIAL_RESULT"

definition validProviderItem :: "provider_read_item_result \<Rightarrow> bool" where
  "validProviderItem i =
    (if rr_status i = OS_Stale \<or> (case rr_source_sample_time_ns i of None \<Rightarrow> False | Some t \<Rightarrow> t < 0) then False
     else if ri_kind (rr_item i) = PD_HeartbeatEvidence
     then
      if rr_value i \<noteq> None then False
      else if rr_status i = OS_Valid
      then rr_heartbeat_class i \<noteq> None \<and> rr_heartbeat_class i \<noteq> Some HB_UnknownNative \<and>
           rr_sequence_or_token i \<noteq> None \<and> rr_source_sample_time_ns i \<noteq> None
      else rr_heartbeat_class i = None \<and> rr_sequence_or_token i = None
     else if rr_heartbeat_class i \<noteq> None \<or> rr_sequence_or_token i \<noteq> None then False
     else if rr_status i = OS_Valid then rr_value i \<noteq> None else rr_value i = None)"

definition valueMatchesDescriptor :: "metric_descriptor \<Rightarrow> metric_value \<Rightarrow> bool" where
  "valueMatchesDescriptor d v =
    (case md_value_type d of
       MK_Int64 \<Rightarrow> (case v of V_int64 _ \<Rightarrow> True | _ \<Rightarrow> False)
     | MK_Uint64 \<Rightarrow> (case v of V_uint64 _ \<Rightarrow> True | _ \<Rightarrow> False)
     | MK_Enum \<Rightarrow> (case v of V_uint64 _ \<Rightarrow> True | _ \<Rightarrow> False)
     | MK_Double \<Rightarrow> (case v of V_double _ \<Rightarrow> True | _ \<Rightarrow> False)
     | MK_Bool \<Rightarrow> (case v of V_bool _ \<Rightarrow> True | _ \<Rightarrow> False)
     | MK_String \<Rightarrow> (case v of V_string _ \<Rightarrow> True | _ \<Rightarrow> False))"

text \<open>
  The size of the struct on an LP64 platform with libstdc++, as in \<open>Common\<close>; no theorem depends
  on the number, only the witnesses evaluate it.
\<close>

definition sizeof_ProviderReadItemResult :: size_t where
  "sizeof_ProviderReadItemResult = 176"

definition resultItemBytes :: "provider_read_item_result \<Rightarrow> size_t" where
  "resultItemBytes i =
    (let value_bytes = (case rr_value i of Some (V_string s) \<Rightarrow> length s | _ \<Rightarrow> 0)
     in sizeof_ProviderReadItemResult + length (rr_native_source i) + value_bytes)"

fun result_bytes_fit :: "size_t \<Rightarrow> size_t \<Rightarrow> provider_read_item_result list \<Rightarrow> bool" where
  "result_bytes_fit max_bytes used [] = True"
| "result_bytes_fit max_bytes used (i # items) =
    (if resultItemBytes i > szsub max_bytes used then False
     else result_bytes_fit max_bytes (used + resultItemBytes i) items)"

section \<open>Matching results with the request\<close>

record matched_results =
  mt_returned :: "(provider_read_item \<times> provider_read_item_result) list"
  mt_duplicated :: "provider_read_item list"
  mt_violations :: size_t

definition match_result ::
  "provider_read_item list \<Rightarrow> provider_read_item_result \<Rightarrow> matched_results \<Rightarrow> matched_results" where
  "match_result requested i s =
    (if rr_item i \<notin> set requested then s\<lparr>mt_violations := mt_violations s + 1\<rparr>
     else if map_of (mt_returned s) (rr_item i) \<noteq> None
     then s\<lparr>mt_duplicated := rr_item i # mt_duplicated s, mt_violations := mt_violations s + 1\<rparr>
     else s\<lparr>mt_returned := (rr_item i, i) # mt_returned s\<rparr>)"

definition match_results :: "provider_read_request \<Rightarrow> provider_read_result \<Rightarrow> matched_results" where
  "match_results request result =
    (let start = \<lparr>mt_returned = [], mt_duplicated = [], mt_violations = 0\<rparr>
     in if usableCallStatus (status_code (prr_call_status result))
        then fold (match_result (rq_items request)) (prr_items result) start else start)"

section \<open>Metrics\<close>

definition failed_item :: "status \<Rightarrow> provider_read_item \<Rightarrow> provider_read_item_result" where
  "failed_item call requested =
     (default_read_item_result requested)\<lparr>rr_status := callFailureStatus (status_code call)\<rparr>"

definition make_observation ::
  "collection_job \<Rightarrow> provider_read_request \<Rightarrow> i64 \<Rightarrow> i64 \<Rightarrow> metric_descriptor \<Rightarrow> provider_read_item \<Rightarrow>
   provider_read_item_result \<Rightarrow> status \<Rightarrow> observation" where
  "make_observation job request observed_time wall_time d requested item error =
     default_observation\<lparr>obs_entity := ri_entity requested, obs_metric := ri_data_id requested,
       obs_value := rr_value item, obs_status := rr_status item,
       obs_scheduled_monotonic_time_ns := rq_scheduled_time request,
       obs_source_sample_time_ns := rr_source_sample_time_ns item,
       obs_observed_monotonic_time_ns := observed_time,
       obs_metric_semantic_version := md_semantic_version d,
       obs_observed_wall_time_ns := wall_time, obs_catalog_generation := rq_catalog_generation request,
       obs_source := \<lparr>src_provider = jb_provider_id job, src_native_source = rr_native_source item\<rparr>,
       obs_error := \<lparr>em_status = error, em_native_code = rr_native_code item, em_retryable = rr_retryable item\<rparr>\<rparr>"

text \<open>
  One iteration of the loop: the provider's item and the error it carries, or nothing (a
  repeated or malformed item) with the number of violations to add.
\<close>

definition resolve_item ::
  "status \<Rightarrow> matched_results \<Rightarrow> provider_read_item \<Rightarrow> (provider_read_item_result \<times> status) option \<times> size_t" where
  "resolve_item call matched requested =
    (if \<not> usableCallStatus (status_code call) then (Some (failed_item call requested, call), 0)
     else if requested \<in> set (mt_duplicated matched) then (None, 0)
     else
      case map_of (mt_returned matched) requested of
        None \<Rightarrow>
         (Some ((default_read_item_result requested)\<lparr>rr_status := OS_Error\<rparr>,
                Status INTERNAL ''provider omitted requested item''), 0)
      | Some item \<Rightarrow>
         if \<not> validProviderItem item then (None, 1)
         else (Some (item, if rr_status item \<noteq> OS_Valid
                           then Status (statusFor (rr_status item)) ''provider item read failed''
                           else status_success), 0))"

definition normalize_item ::
  "data_manager \<Rightarrow> collection_job \<Rightarrow> provider_read_request \<Rightarrow> i64 \<Rightarrow> i64 \<Rightarrow> status \<Rightarrow> matched_results \<Rightarrow>
   provider_read_item \<Rightarrow> observation option \<times> size_t" where
  "normalize_item m job request observed_time wall_time call matched requested =
    (case resolve_item call matched requested of
       (None, violations) \<Rightarrow> (None, violations)
     | (Some (item, error), violations) \<Rightarrow>
        (case metricDescriptor (ri_data_id requested) m of
           None \<Rightarrow> (None, violations + 1)
         | Some d \<Rightarrow>
            if rr_status item = OS_Valid \<and> \<not> valueMatchesDescriptor d (the (rr_value item)) then (None, violations + 1)
            else (Some (make_observation job request observed_time wall_time d requested item error), violations)))"

fun normalize_items ::
  "(provider_read_item \<Rightarrow> observation option \<times> size_t) \<Rightarrow> provider_read_item list \<Rightarrow> observation list \<times> size_t" where
  "normalize_items f [] = ([], 0)"
| "normalize_items f (i # items) =
    (let (o', violations) = f i; (os, more_violations) = normalize_items f items
     in ((case o' of None \<Rightarrow> os | Some x \<Rightarrow> x # os), violations + more_violations))"

section \<open>Heartbeat evidence\<close>

definition make_evidence ::
  "collection_job \<Rightarrow> provider_read_request \<Rightarrow> i64 \<Rightarrow> provider_read_item \<Rightarrow> provider_read_item_result \<Rightarrow> status \<Rightarrow>
   heartbeat_evidence" where
  "make_evidence job request observed_time requested item error =
     \<lparr>ev_evidence_id = 0, ev_entity = ri_entity requested, ev_provider_data_id = ri_data_id requested,
      ev_native_class = (case rr_heartbeat_class item of None \<Rightarrow> HB_UnknownNative | Some c \<Rightarrow> c),
      ev_status = rr_status item,
      ev_sequence_or_token = (case rr_sequence_or_token item of None \<Rightarrow> 0 | Some t \<Rightarrow> t),
      ev_source_sample_time_ns = rr_source_sample_time_ns item, ev_observed_monotonic_time_ns = observed_time,
      ev_source = \<lparr>src_provider = jb_provider_id job, src_native_source = rr_native_source item\<rparr>,
      ev_error = \<lparr>em_status = error, em_native_code = rr_native_code item, em_retryable = rr_retryable item\<rparr>,
      ev_catalog_generation = rq_catalog_generation request\<rparr>"

text \<open>The single item of a heartbeat request: an error with the violations to add, or the item.\<close>

definition heartbeat_item ::
  "status \<Rightarrow> matched_results \<Rightarrow> provider_read_item \<Rightarrow> size_t + provider_read_item_result \<times> status" where
  "heartbeat_item call matched requested =
    (if \<not> usableCallStatus (status_code call) then Inr (failed_item call requested, call)
     else if requested \<in> set (mt_duplicated matched) then Inl 0
     else
      case map_of (mt_returned matched) requested of
        None \<Rightarrow> Inl 0
      | Some item \<Rightarrow>
         if \<not> validProviderItem item then Inl 1
         else Inr (item, if rr_status item \<noteq> OS_Valid
                         then Status (statusFor (rr_status item)) ''provider heartbeat read failed''
                         else status_success))"

section \<open>The run of a job\<close>

record collection_run_result =
  cx_status :: pdcm_status
  cx_request_id :: u64
  cx_plan_version :: u64
  cx_requested_items :: size_t
  cx_normalized_items :: size_t
  cx_contract_violations :: size_t
  cx_commit :: data_commit_result
  cx_evidence_commit :: evidence_commit_result

definition default_run_result :: collection_run_result where
  "default_run_result =
     \<lparr>cx_status = SUCCESS, cx_request_id = 0, cx_plan_version = 0, cx_requested_items = 0, cx_normalized_items = 0,
      cx_contract_violations = 0,
      cx_commit = \<lparr>dcr_status = SUCCESS, dcr_commit_epoch = 0, dcr_committed_items = 0\<rparr>,
      cx_evidence_commit = \<lparr>ecr_status = SUCCESS, ecr_evidence_id = 0, ecr_commit_epoch = 0, ecr_committed = False\<rparr>\<rparr>"

text \<open>
  The heartbeat branch. The clock is read again by the health evaluation (\<open>eval_time\<close>);
  the metrics manager may be absent.
\<close>

definition commit_heartbeat ::
  "collection_job \<Rightarrow> provider_read_request \<Rightarrow> status \<Rightarrow> matched_results \<Rightarrow> i64 \<Rightarrow> i64 \<Rightarrow> metrics_manager option \<Rightarrow>
   collection_run_result \<Rightarrow> data_manager \<Rightarrow> collection_run_result \<times> data_manager" where
  "commit_heartbeat job request call matched observed_time eval_time metrics result m =
    (case rq_items request of
       [requested] \<Rightarrow>
        (case heartbeat_item call matched requested of
           Inl violations \<Rightarrow>
            (result\<lparr>cx_status := INTERNAL, cx_contract_violations := cx_contract_violations result + violations\<rparr>, m)
         | Inr (item, error) \<Rightarrow>
            let (committed, m) = commitHeartbeatEvidence (make_evidence job request observed_time requested item error) m;
                result = result\<lparr>cx_normalized_items := 1, cx_evidence_commit := committed\<rparr>
            in if \<not> ok (ecr_status committed) then (result\<lparr>cx_status := ecr_status committed\<rparr>, m)
               else
                let (evaluated, m) =
                      (case metrics of
                         None \<Rightarrow> (SUCCESS, m)
                       | Some mm \<Rightarrow>
                          if ecr_committed committed
                          then onHeartbeatEvidenceCommitted (ecr_evidence_id committed) eval_time mm m else (SUCCESS, m))
                in (result\<lparr>cx_status :=
                      (if \<not> ok evaluated then evaluated
                       else if \<not> usableCallStatus (status_code call) then status_code call
                       else if cx_contract_violations result \<noteq> 0 then PARTIAL_RESULT
                       else SUCCESS)\<rparr>, m))
     | _ \<Rightarrow> (result\<lparr>cx_status := INVALID_ARGUMENT\<rparr>, m))"

definition commit_metrics ::
  "collection_job \<Rightarrow> provider_read_request \<Rightarrow> status \<Rightarrow> matched_results \<Rightarrow> i64 \<Rightarrow> i64 \<Rightarrow>
   collection_run_result \<Rightarrow> data_manager \<Rightarrow> collection_run_result \<times> data_manager" where
  "commit_metrics job request call matched observed_time wall_time result m =
    (let (os, violations) =
           normalize_items (normalize_item m job request observed_time wall_time call matched) (rq_items request);
         result = result\<lparr>cx_contract_violations := cx_contract_violations result + violations, cx_normalized_items := length os\<rparr>
     in if os = [] then (result\<lparr>cx_status := INTERNAL\<rparr>, m)
        else
         let (committed, m) = DataManager_commit os m; result = result\<lparr>cx_commit := committed\<rparr>
         in (result\<lparr>cx_status :=
               (if \<not> ok (dcr_status committed) \<and> dcr_status committed \<noteq> PARTIAL_RESULT then dcr_status committed
                else if \<not> usableCallStatus (status_code call) then status_code call
                else if cx_contract_violations result \<noteq> 0 then PARTIAL_RESULT
                else dcr_status committed)\<rparr>, m))"

definition normalizeAndCommit ::
  "collection_limits \<Rightarrow> collection_plan \<Rightarrow> collection_job \<Rightarrow> provider_read_request \<Rightarrow> provider_read_result \<Rightarrow>
   i64 \<Rightarrow> i64 \<Rightarrow> i64 \<Rightarrow> metrics_manager option \<Rightarrow> data_manager \<Rightarrow> collection_run_result \<times> data_manager" where
  "normalizeAndCommit l plan job request presult observed_time wall_time eval_time metrics m =
    (let result = default_run_result\<lparr>cx_request_id := rq_request_id request, cx_plan_version := pl_version plan,
           cx_requested_items := length (rq_items request)\<rparr>
     in if length (prr_items presult) > kl_max_result_items l then (result\<lparr>cx_status := RESOURCE_EXHAUSTED\<rparr>, m)
        else if \<not> result_bytes_fit (kl_max_result_bytes l) 0 (prr_items presult)
        then (result\<lparr>cx_status := RESOURCE_EXHAUSTED\<rparr>, m)
        else if dm_generation m \<noteq> pl_catalog_generation plan then (result\<lparr>cx_status := STALE_GENERATION\<rparr>, m)
        else
         let matched = match_results request presult; call = prr_call_status presult;
             result = result\<lparr>cx_contract_violations := mt_violations matched\<rparr>
         in if jb_kind job = PD_HeartbeatEvidence
            then commit_heartbeat job request call matched observed_time eval_time metrics result m
            else commit_metrics job request call matched observed_time wall_time result m)"

section \<open>Catalogs the data manager can hold\<close>

definition metrics_identified :: "data_manager \<Rightarrow> bool" where
  "metrics_identified m \<longleftrightarrow>
     (\<forall>metric d. metricDescriptor metric m = Some d \<longrightarrow> metric \<noteq> 0 \<and> md_semantic_version d \<noteq> 0)"

lemma validateMetrics_identified:
  "validateMetrics ids names ds = SUCCESS \<Longrightarrow> d \<in> set ds \<Longrightarrow> md_id d \<noteq> 0 \<and> md_semantic_version d \<noteq> 0"
  by (induction ids names ds rule: validateMetrics.induct) (auto split: if_splits)

lemma emplaced_descriptor:
  assumes "omap_ok m" "map_of (fold (\<lambda>d m. omap_emplace (md_id d) d m) ds m) k = Some d"
  shows "map_of m k = Some d \<or> d \<in> set ds \<and> md_id d = k"
  using assms
proof (induction ds arbitrary: m)
  case (Cons a ds)
  then show ?case using Cons.IH [of "omap_emplace (md_id a) a m"] by (auto simp: map_of_omap_emplace split: if_splits)
qed simp

lemma metrics_identified_frame: "dm_catalog m' = dm_catalog m \<Longrightarrow> metrics_identified m \<Longrightarrow> metrics_identified m'"
  by (simp add: metrics_identified_def metricDescriptor_def)

lemma dm_catalog_commit [simp]: "dm_catalog (snd (DataManager_commit os m)) = dm_catalog m"
  by (simp add: DataManager_commit_def Let_def split: option.split prod.split)

lemma metrics_identified_step: "metrics_identified m \<Longrightarrow> metrics_identified (dm_step op m)"
proof (cases op)
  case (DM_activateCatalog v tc)
  assume inv: "metrics_identified m"
  have "DataManager_activateCatalog v tc m = (fst (DataManager_activateCatalog v tc m), dm_step op m)"
    by (simp add: DM_activateCatalog)
  then show ?thesis
  proof (cases rule: activate_elim)
    case (activated w tombs)
    have valid: "validateMetrics {} {} (tc_metrics tc) = SUCCESS"
      using activated(5) by (auto simp: TargetCatalog_validate_def Let_def ok_def split: if_splits)
    have "dm_catalog (dm_step op m) = next_catalog_state w tc" by (subst activated(7)) simp
    then have "metricDescriptor metric (dm_step op m) = Some d \<Longrightarrow> d \<in> set (tc_metrics tc) \<and> md_id d = metric" for metric d
      using emplaced_descriptor [of "[]" "tc_metrics tc" metric d] by (simp add: metricDescriptor_def next_catalog_state_def Let_def)
    with validateMetrics_identified [OF valid] show ?thesis unfolding metrics_identified_def by blast
  qed (use inv in simp)
qed (auto intro: metrics_identified_frame simp: commitHeartbeatEvidence_frame commitHealth_frame publishEvent_def split: prod.split)

interpretation dmi: component "data_manager_start l" dm_step metrics_identified
  by unfold_locales
    (simp_all add: metrics_identified_step, simp add: metrics_identified_def metricDescriptor_def data_manager_start_def default_catalog_state_def)

lemma data_reachable_identified: "data_reachable l ops = Some m \<Longrightarrow> metrics_identified m"
  using dmi.inv_reach [of ops l] by (auto simp: data_reachable_def DataManager_def split: if_splits)

section \<open>What matching leaves\<close>

definition matched_ok :: "provider_read_item list \<Rightarrow> matched_results \<Rightarrow> bool" where
  "matched_ok requested s \<longleftrightarrow>
     (\<forall>i item. map_of (mt_returned s) i = Some item \<longrightarrow> rr_item item = i \<and> i \<in> set requested) \<and>
     length (mt_duplicated s) \<le> mt_violations s"

lemma matched_ok_match: "matched_ok requested s \<Longrightarrow> matched_ok requested (match_result requested i s)"
  by (auto simp: matched_ok_def match_result_def)

lemma match_results_ok: "matched_ok (rq_items request) (match_results request presult)"
proof -
  let ?start = "\<lparr>mt_returned = [], mt_duplicated = [], mt_violations = 0\<rparr>"
  have keep: "matched_ok r s \<Longrightarrow> matched_ok r (fold (match_result r) items s)" for r items s
    by (induction items arbitrary: s) (auto intro: matched_ok_match)
  have "matched_ok (rq_items request) ?start" by (simp add: matched_ok_def)
  with keep [OF this] show ?thesis by (simp only: match_results_def Let_def split: if_split) blast
qed

section \<open>What normalization makes\<close>

text \<open>A request of a metric job on the active catalog.\<close>

definition request_current :: "data_manager \<Rightarrow> provider_read_request \<Rightarrow> bool" where
  "request_current m request \<longleftrightarrow> distinct (rq_items request) \<and> rq_catalog_generation request = dm_generation m \<and>
     dm_generation m \<noteq> 0 \<and> 0 \<le> rq_scheduled_time request \<and>
     list_all (\<lambda>i. ri_kind i = PD_Metric \<and> ri_entity i \<in> set (cst_entities (dm_catalog m))) (rq_items request)"

definition item_key :: "provider_read_item \<Rightarrow> data_key" where
  "item_key i = DataKey (ri_entity i) (ri_data_id i)"

text \<open>An observation the collector may commit: as the data manager wants it, sizes aside.\<close>

definition collected :: "data_manager \<Rightarrow> observation \<Rightarrow> bool" where
  "collected m o' \<longleftrightarrow> obs_commit_epoch o' = 0 \<and> obs_catalog_generation o' = dm_generation m \<and> obs_status o' \<noteq> OS_Stale \<and>
     obs_entity o' \<in> set (cst_entities (dm_catalog m)) \<and> validateObservation o' = SUCCESS \<and>
     (\<exists>d. metricDescriptor (obs_metric o') m = Some d \<and> obs_metric_semantic_version o' = md_semantic_version d \<and>
        (\<forall>v. obs_value o' = Some v \<longrightarrow> valueMatches (md_value_type d) v))"

definition oversize :: "data_manager \<Rightarrow> observation \<Rightarrow> bool" where
  "oversize m o' \<longleftrightarrow> (case obs_value o' of None \<Rightarrow> False | Some v \<Rightarrow> valueBytes v > dl_max_value_bytes (dm_limits m))"

lemma valueMatchesDescriptor_eq: "valueMatchesDescriptor d v = valueMatches (md_value_type d) v"
  by (cases "md_value_type d") (simp_all add: valueMatchesDescriptor_def)

text \<open>The item a result is made from is coherent: a valid one has a value, any other an error.\<close>

lemma resolve_item_coherent:
  assumes "resolve_item call matched i = (Some (item, error), v)" "matched_ok items matched" "ri_kind i = PD_Metric"
  shows "v = 0 \<and> rr_status item \<noteq> OS_Stale \<and> (rr_value item \<noteq> None \<longleftrightarrow> rr_status item = OS_Valid) \<and>
    (status_ok error \<longleftrightarrow> rr_status item = OS_Valid) \<and> (\<forall>t. rr_source_sample_time_ns item = Some t \<longrightarrow> 0 \<le> t)"
proof (cases "usableCallStatus (status_code call)")
  case False
  then have "item = failed_item call i" "error = call" "v = 0" using assms(1) by (auto simp: resolve_item_def)
  with False show ?thesis
    by (auto simp: failed_item_def default_read_item_result_def callFailureStatus_def usableCallStatus_def status_ok_def ok_def)
next
  case True
  show ?thesis
  proof (cases "map_of (mt_returned matched) i")
    case None
    with True assms(1) show ?thesis
      by (auto simp: resolve_item_def default_read_item_result_def status_ok_def ok_def split: if_splits)
  next
    case (Some x)
    then have "rr_item x = i" using assms(2) by (simp add: matched_ok_def)
    with True Some assms(1,3) show ?thesis
      by (auto simp: resolve_item_def validProviderItem_def status_ok_def ok_def statusFor_def status_success_def not_less
          split: if_splits option.splits observation_status.splits)
  qed
qed

lemma resolve_item_None:
  "resolve_item call matched i = (None, v) \<Longrightarrow> v = 1 \<or> i \<in> set (mt_duplicated matched)"
  by (auto simp: resolve_item_def split: if_splits option.splits)

lemma normalize_item_Some:
  assumes "normalize_item m job request observed wall call matched i = (Some o', v)"
    and "matched_ok (rq_items request) matched" "request_current m request" "i \<in> set (rq_items request)"
    and "data_inv m" "metrics_identified m" "0 \<le> observed"
  shows "v = 0 \<and> collected m o' \<and> obs_key o' = item_key i"
proof -
  obtain item error d where r: "resolve_item call matched i = (Some (item, error), v)"
    and d: "metricDescriptor (ri_data_id i) m = Some d"
    and val: "\<not> (rr_status item = OS_Valid \<and> \<not> valueMatchesDescriptor d (the (rr_value item)))"
    and o': "o' = make_observation job request observed wall d i item error"
    using assms(1) by (auto simp: normalize_item_def split: prod.splits option.splits if_splits)
  have i: "ri_kind i = PD_Metric" "ri_entity i \<in> set (cst_entities (dm_catalog m))"
    and rq: "rq_catalog_generation request = dm_generation m" "dm_generation m \<noteq> 0" "0 \<le> rq_scheduled_time request"
    using assms(3,4) by (auto simp: request_current_def list_all_iff)
  note c = resolve_item_coherent [OF r assms(2) i(1)]
  have dev: "er_kind (ri_entity i) = EK_Device" "er_generation (ri_entity i) \<noteq> 0"
    using assms(5) i(2) by (auto simp: data_inv_def)
  have ids: "ri_data_id i \<noteq> 0" "md_semantic_version d \<noteq> 0" using assms(6) d by (auto simp: metrics_identified_def)
  have "validateObservation o' = SUCCESS"
    using c dev ids rq assms(7)
    by (auto simp: o' make_observation_def validateObservation_SUCCESS_iff obs_identity_ok_def obs_status_coherent_def
        obs_provenance_ok_def default_observation_def default_derivation_def)
  moreover have "rr_value item = Some x \<longrightarrow> valueMatches (md_value_type d) x" for x
    using val c by (auto simp: valueMatchesDescriptor_eq)
  ultimately show ?thesis
    using c d i rq by (auto simp: o' collected_def make_observation_def default_observation_def item_key_def obs_key_def)
qed

lemma normalize_item_None:
  assumes "normalize_item m job request observed wall call matched i = (None, v)"
    and "matched_ok (rq_items request) matched" "ri_kind i = PD_Metric"
  shows "1 \<le> v \<or> i \<in> set (mt_duplicated matched)"
proof (cases "resolve_item call matched i")
  case (Pair x w)
  then show ?thesis
    using assms(1) resolve_item_None [of call matched i w]
    by (cases x) (auto simp: normalize_item_def split: option.splits if_splits)
qed

lemma normalize_items_spec:
  assumes "normalize_items f items = (os, vs)"
    and "\<And>i o' v. i \<in> set items \<Longrightarrow> f i = (Some o', v) \<Longrightarrow> P o' \<and> obs_key o' = item_key i"
    and "\<And>i v. i \<in> set items \<Longrightarrow> f i = (None, v) \<Longrightarrow> 1 \<le> v \<or> i \<in> D"
    and "distinct items" "finite D"
  shows "list_all P os \<and> subseq (map obs_key os) (map item_key items) \<and>
    length items \<le> length os + vs + card (D \<inter> set items)"
  using assms(1-4)
proof (induction items arbitrary: os vs)
  case (Cons i items)
  obtain o' v where f: "f i = (o', v)" by (cases "f i")
  obtain os1 vs1 where rec: "normalize_items f items = (os1, vs1)" by (cases "normalize_items f items")
  have IH: "list_all P os1 \<and> subseq (map obs_key os1) (map item_key items) \<and>
      length items \<le> length os1 + vs1 + card (D \<inter> set items)"
  proof (rule Cons.IH [OF rec])
    show "P o' \<and> obs_key o' = item_key j" if "j \<in> set items" "f j = (Some o', v)" for j o' v
      using that by (intro Cons.prems(2)) simp_all
    show "1 \<le> v \<or> j \<in> D" if "j \<in> set items" "f j = (None, v)" for j v
      using that by (intro Cons.prems(3)) simp_all
  qed (use Cons.prems(4) in simp)
  have card: "card (D \<inter> set (i # items)) = (if i \<in> D then 1 else 0) + card (D \<inter> set items)"
    using Cons.prems(4) assms(5) by (auto simp: Int_insert_right)
  show ?case
  proof (cases o')
    case None
    then have "os = os1" "vs = v + vs1" "1 \<le> v \<or> i \<in> D" using Cons.prems(1,3) f rec by auto
    with IH card show ?thesis by auto
  next
    case (Some x)
    then have "os = x # os1" "vs = v + vs1" "P x" "obs_key x = item_key i" using Cons.prems(1,2) f rec by auto
    with IH card show ?thesis by auto
  qed
qed simp

lemma validateBatch_collected:
  assumes "list_all (collected m) os" "distinct (map obs_key os)" "obs_key ` set os \<inter> seen = {}"
  shows "validateBatch (dm_limits m) (dm_catalog m) seen os = (if list_ex (oversize m) os then INVALID_ARGUMENT else SUCCESS)"
  using assms
proof (induction os arbitrary: seen)
  case (Cons o' os)
  obtain d where d: "map_of (cst_metrics (dm_catalog m)) (obs_metric o') = Some d"
      "obs_metric_semantic_version o' = md_semantic_version d"
      "\<forall>v. obs_value o' = Some v \<longrightarrow> valueMatches (md_value_type d) v"
    using Cons.prems(1) by (auto simp: collected_def metricDescriptor_def)
  have c: "collected m o'" "obs_key o' \<notin> seen" using Cons.prems by auto
  have IH: "validateBatch (dm_limits m) (dm_catalog m) (insert (obs_key o') seen) os =
      (if list_ex (oversize m) os then INVALID_ARGUMENT else SUCCESS)"
    using Cons.prems by (intro Cons.IH) auto
  show ?case using c d IH by (auto simp: collected_def oversize_def [of m o'] ok_def split: option.splits)
qed simp

lemma subseq_distinct: "subseq xs ys \<Longrightarrow> distinct ys \<Longrightarrow> distinct xs"
  by (induction rule: list_emb.induct) (auto dest: list_emb_set)

text \<open>Both readings of a run: what is made, and how it is counted.\<close>

lemma normalized:
  assumes "data_inv m" "metrics_identified m" "request_current m request" "0 \<le> observed"
    and "normalize_items (normalize_item m job request observed wall (prr_call_status presult) (match_results request presult))
      (rq_items request) = (os, vs)"
  shows "list_all (collected m) os" and "subseq (map obs_key os) (map item_key (rq_items request))" and "distinct (map obs_key os)"
    and "length (rq_items request) \<le> length os + vs + mt_violations (match_results request presult)"
proof -
  let ?mt = "match_results request presult"
  have dist: "distinct (rq_items request)" and kind: "\<And>i. i \<in> set (rq_items request) \<Longrightarrow> ri_kind i = PD_Metric"
    using assms(3) by (auto simp: request_current_def list_all_iff)
  note spec = normalize_items_spec [OF assms(5), of "collected m" "set (mt_duplicated ?mt)"]
  have *: "list_all (collected m) os \<and> subseq (map obs_key os) (map item_key (rq_items request)) \<and>
      length (rq_items request) \<le> length os + vs + card (set (mt_duplicated ?mt) \<inter> set (rq_items request))"
  proof (rule spec)
    fix i o' v assume "i \<in> set (rq_items request)" "normalize_item m job request observed wall (prr_call_status presult) ?mt i = (Some o', v)"
    then show "collected m o' \<and> obs_key o' = item_key i"
      using normalize_item_Some [OF _ match_results_ok assms(3) _ assms(1,2,4)] by blast
  next
    fix i v assume "i \<in> set (rq_items request)" "normalize_item m job request observed wall (prr_call_status presult) ?mt i = (None, v)"
    then show "1 \<le> v \<or> i \<in> set (mt_duplicated ?mt)" by (intro normalize_item_None [OF _ match_results_ok kind])
  qed (use dist in simp_all)
  then show "list_all (collected m) os" "subseq (map obs_key os) (map item_key (rq_items request))" by auto
  have "inj_on item_key (set (rq_items request))"
    using kind by (auto simp: inj_on_def item_key_def intro: provider_read_item.equality)
  then have "distinct (map item_key (rq_items request))" using dist by (simp add: distinct_map)
  with * show "distinct (map obs_key os)" using subseq_distinct by blast
  have "card (set (mt_duplicated ?mt) \<inter> set (rq_items request)) \<le> length (mt_duplicated ?mt)"
    by (rule order_trans [OF card_mono card_length]) auto
  also have "\<dots> \<le> mt_violations ?mt" using match_results_ok by (simp add: matched_ok_def)
  finally show "length (rq_items request) \<le> length os + vs + mt_violations ?mt" using * by simp
qed

text \<open>The guards of \<open>normalizeAndCommit\<close> before it looks at items.\<close>

definition result_admitted :: "collection_limits \<Rightarrow> collection_plan \<Rightarrow> provider_read_result \<Rightarrow> data_manager \<Rightarrow> bool" where
  "result_admitted l plan presult m \<longleftrightarrow> length (prr_items presult) \<le> kl_max_result_items l \<and>
     result_bytes_fit (kl_max_result_bytes l) 0 (prr_items presult) \<and> pl_catalog_generation plan = dm_generation m"

lemma commit_metrics_run:
  assumes "result_admitted l plan presult m" "jb_kind job = PD_Metric"
    and "normalize_items (normalize_item m job request observed wall (prr_call_status presult) (match_results request presult))
      (rq_items request) = (os, vs)"
    and "normalizeAndCommit l plan job request presult observed wall eval metrics m = (r, m')"
  shows "cx_requested_items r = length (rq_items request)" and "cx_normalized_items r = length os"
    and "cx_contract_violations r = mt_violations (match_results request presult) + vs"
    and "os \<noteq> [] \<Longrightarrow> m' = snd (DataManager_commit os m) \<and> cx_commit r = fst (DataManager_commit os m)"
    and "os = [] \<Longrightarrow> m' = m \<and> cx_status r = INTERNAL"
    and "os \<noteq> [] \<Longrightarrow> dcr_status (cx_commit r) \<notin> {SUCCESS, PARTIAL_RESULT} \<Longrightarrow> cx_status r = dcr_status (cx_commit r)"
    and "os \<noteq> [] \<Longrightarrow> dcr_status (cx_commit r) \<in> {SUCCESS, PARTIAL_RESULT} \<Longrightarrow>
      \<not> usableCallStatus (status_code (prr_call_status presult)) \<Longrightarrow> cx_status r = status_code (prr_call_status presult)"
  using assms
  by (auto simp: normalizeAndCommit_def result_admitted_def Let_def commit_metrics_def default_run_result_def ok_def
      split: prod.splits if_splits)

lemma success_run:
  assumes "result_admitted l plan presult m" "jb_kind job = PD_Metric"
    and "normalize_items (normalize_item m job request observed wall (prr_call_status presult) (match_results request presult))
      (rq_items request) = (os, vs)"
    and "normalizeAndCommit l plan job request presult observed wall eval metrics m = (r, m')" "cx_status r = SUCCESS"
  shows "cx_contract_violations r = 0"
  using assms
  by (auto simp: normalizeAndCommit_def result_admitted_def Let_def commit_metrics_def default_run_result_def ok_def
      usableCallStatus_def split: prod.splits if_splits)

lemma not_admitted_run:
  assumes "\<not> result_admitted l plan presult m"
    and "normalizeAndCommit l plan job request presult observed wall eval metrics m = (r, m')"
  shows "m' = m \<and> cx_normalized_items r = 0 \<and> cx_status r \<in> {RESOURCE_EXHAUSTED, STALE_GENERATION}"
  using assms by (auto simp: normalizeAndCommit_def result_admitted_def Let_def default_run_result_def split: if_splits)

definition metric_known :: "data_manager \<Rightarrow> provider_read_item \<Rightarrow> bool" where
  "metric_known m i \<longleftrightarrow> metricDescriptor (ri_data_id i) m \<noteq> None"

lemma failed_call_items:
  assumes "\<not> usableCallStatus (status_code call)"
    and "normalize_items (normalize_item m job request observed wall call matched) items = (os, vs)"
  shows "vs = length (filter (Not \<circ> metric_known m) items) \<and>
    map obs_key os = map item_key (filter (metric_known m) items) \<and>
    list_all (\<lambda>o'. obs_status o' = callFailureStatus (status_code call) \<and> obs_status o' \<noteq> OS_Valid \<and>
      obs_value o' = None \<and> em_status (obs_error o') = call) os"
  using assms(2)
proof (induction items arbitrary: os vs)
  case (Cons i items)
  let ?f = "normalize_item m job request observed wall call matched"
  obtain os1 vs1 where rec: "normalize_items ?f items = (os1, vs1)" by (cases rule: prod.exhaust)
  have st: "rr_status (failed_item call i) \<noteq> OS_Valid"
    by (simp add: failed_item_def default_read_item_result_def callFailureStatus_def)
  show ?case
  proof (cases "metricDescriptor (ri_data_id i) m")
    case None
    then have "?f i = (None, 1)" using assms(1) by (simp add: normalize_item_def resolve_item_def)
    with None Cons.prems rec Cons.IH [OF rec] show ?thesis by (auto simp: metric_known_def)
  next
    case (Some d)
    then have "?f i = (Some (make_observation job request observed wall d i (failed_item call i) call), 0)"
      using assms(1) st by (simp add: normalize_item_def resolve_item_def)
    with Some Cons.prems rec Cons.IH [OF rec] st show ?thesis
      by (auto simp: metric_known_def make_observation_def item_key_def obs_key_def failed_item_def default_read_item_result_def)
  qed
qed simp

section \<open>Properties\<close>

text \<open>
  The concrete input of the witnesses: a catalog with a numeric and a text metric, a request
  for both, and an answer whose text is 65 characters long, one more than the store keeps.
\<close>

definition text_metric :: metric_descriptor where
  "text_metric = witness_metric\<lparr>md_id := 8, md_name := ''n'', md_value_type := MK_String\<rparr>"

definition two_metrics :: target_catalog where
  "two_metrics = witness_target\<lparr>tc_metrics := [witness_metric, text_metric]\<rparr>"

definition two_metrics_base :: data_manager where
  "two_metrics_base =
     witness_base\<lparr>dm_catalog := (dm_catalog witness_base)\<lparr>cst_metrics := [(7, witness_metric), (8, text_metric)]\<rparr>\<rparr>"

definition read_item :: "u32 \<Rightarrow> provider_read_item" where
  "read_item n = \<lparr>ri_entity = EntityRef EK_Device 0 1, ri_kind = PD_Metric, ri_data_id = n\<rparr>"

definition witness_read :: provider_read_request where
  "witness_read = \<lparr>rq_request_id = 1, rq_plan_generation = 1, rq_catalog_generation = 1, rq_scheduled_time = 4,
     rq_deadline = 9, rq_items = [read_item 7, read_item 8]\<rparr>"

definition witness_answer :: "nat \<Rightarrow> provider_read_result" where
  "witness_answer n = \<lparr>prr_call_status = status_success, prr_items =
     [(default_read_item_result (read_item 7))\<lparr>rr_status := OS_Valid, rr_value := Some (V_uint64 5)\<rparr>,
      (default_read_item_result (read_item 8))\<lparr>rr_status := OS_Valid, rr_value := Some (V_string (replicate n (CHR ''x'')))\<rparr>]\<rparr>"

definition metric_job :: collection_job where
  "metric_job = default_collection_job\<lparr>jb_provider_id := ''p''\<rparr>"

definition current_plan :: collection_plan where
  "current_plan = default_collection_plan\<lparr>pl_catalog_generation := 1\<rparr>"

lemma two_metrics_reachable:
  "data_reachable witness_limits_ds [DM_activateCatalog (Some witness_view) two_metrics] = Some two_metrics_base"
proof -
  have "dm_step (DM_activateCatalog (Some witness_view) two_metrics) (data_manager_start witness_limits_ds) = two_metrics_base"
    by code_simp
  then show ?thesis by (simp add: data_reachable_def DataManager_def witness_limits_ds_ok del: dm_step.simps)
qed

lemma witness_read_current: "request_current two_metrics_base witness_read"
  by code_simp

lemma witness_admitted: "result_admitted witness_collection_limits current_plan (witness_answer 65) two_metrics_base"
  by code_simp

lemma metric_job_kind: "jb_kind metric_job = PD_Metric"
  by (simp add: metric_job_def default_collection_job_def)

text \<open>
  C7: Whatever a provider answers, what the collector commits is well formed. The
  observations are valid, of the active catalog, with distinct keys that were requested, in
  the order of the request, with the value type and version of their metric; the data
  manager's check of the batch accepts them all, unless a value is larger than it stores.
\<close>

theorem collected_batch_conforms:
  assumes "data_reachable l ops = Some m" "request_current m request" "0 \<le> observed"
    and "normalize_items (normalize_item m job request observed wall (prr_call_status presult) (match_results request presult))
      (rq_items request) = (os, vs)"
  shows "list_all (collected m) os \<and> subseq (map obs_key os) (map item_key (rq_items request)) \<and>
    validateBatch (dm_limits m) (dm_catalog m) {} os = (if list_ex (oversize m) os then INVALID_ARGUMENT else SUCCESS)"
proof -
  have "data_inv m" using data_reachable_inv [OF assms(1)] by simp
  note n = normalized [OF this data_reachable_identified [OF assms(1)] assms(2-4)]
  from n(1-3) validateBatch_collected [OF n(1,3)] show ?thesis by simp
qed

theorem collected_batch_conforms_witness:
  "validateBatch (dm_limits two_metrics_base) (dm_catalog two_metrics_base) {}
     (fst (normalize_items (normalize_item two_metrics_base metric_job witness_read 5 5 status_success
       (match_results witness_read (witness_answer 3))) (rq_items witness_read))) = SUCCESS"
proof -
  let ?n = "normalize_items (normalize_item two_metrics_base metric_job witness_read 5 5 status_success
       (match_results witness_read (witness_answer 3))) (rq_items witness_read)"
  have "\<not> list_ex (oversize two_metrics_base) (fst ?n)" by code_simp
  moreover have "prr_call_status (witness_answer 3) = status_success" by (simp add: witness_answer_def)
  ultimately show ?thesis
    using collected_batch_conforms [OF two_metrics_reachable witness_read_current, of 5 metric_job 5 "witness_answer 3" "fst ?n" "snd ?n"]
    by simp
qed

text \<open>
  C29: No requested item is lost in silence. The run of a metric job whose result is not admitted
  (too many items, too many bytes, or another catalog generation is active) fails and stores
  nothing. Otherwise the requested items are at most the normalized observations plus the
  contract violations counted, and the normalized observations are handed to the data manager
  as one batch: either all of them are committed under one new epoch, or none is, the data is
  unchanged and the status of the run is neither success nor partial result. Success therefore
  means that every requested item was committed.
\<close>

theorem collected_items_accounted:
  assumes "data_reachable dl ops = Some m" "request_current m request" "0 \<le> observed" "jb_kind job = PD_Metric"
    and "normalizeAndCommit l plan job request presult observed wall eval metrics m = (r, m')"
  shows "if \<not> result_admitted l plan presult m
    then m' = m \<and> cx_normalized_items r = 0 \<and> cx_status r \<in> {RESOURCE_EXHAUSTED, STALE_GENERATION}
    else length (rq_items request) \<le> cx_normalized_items r + cx_contract_violations r \<and>
      cx_normalized_items r \<le> length (rq_items request) \<and>
      (if cx_normalized_items r \<noteq> 0 \<and> dcr_status (cx_commit r) \<in> {SUCCESS, PARTIAL_RESULT}
       then dcr_committed_items (cx_commit r) = cx_normalized_items r \<and> dm_commit_epoch m' = dm_commit_epoch m + 1
       else m' = m \<and> cx_status r \<notin> {SUCCESS, PARTIAL_RESULT}) \<and>
      (cx_status r = SUCCESS \<longrightarrow> dcr_committed_items (cx_commit r) = length (rq_items request))"
proof (cases "result_admitted l plan presult m")
  case False
  then show ?thesis using not_admitted_run [OF _ assms(5)] by simp
next
  case True
  obtain os vs where n: "normalize_items (normalize_item m job request observed wall (prr_call_status presult)
      (match_results request presult)) (rq_items request) = (os, vs)" by (cases rule: prod.exhaust)
  have inv: "data_inv m" using data_reachable_inv [OF assms(1)] by simp
  note made = normalized [OF inv data_reachable_identified [OF assms(1)] assms(2,3) n]
  note run = commit_metrics_run [OF True assms(4) n assms(5)]
  have len: "length os \<le> length (rq_items request)" using made(2) list_emb_length by fastforce
  have commit: "if os \<noteq> [] \<and> dcr_status (cx_commit r) \<in> {SUCCESS, PARTIAL_RESULT}
      then dcr_committed_items (cx_commit r) = length os \<and> dm_commit_epoch m' = dm_commit_epoch m + 1
      else m' = m \<and> cx_status r \<notin> {SUCCESS, PARTIAL_RESULT}"
  proof (cases "os = []")
    case os: False
    have "shards_ok (dm_shards m)" using inv by (simp add: data_inv_def)
    moreover have "DataManager_commit os m = (cx_commit r, m')" using run(4) os by (simp add: prod_eq_iff)
    ultimately show ?thesis
    proof (cases rule: data_commit_elim)
      case failed
      then show ?thesis using run(6) os by auto
    next
      case (committed staged)
      have "dm_commit_epoch m' = dm_commit_epoch m + 1" by (subst committed(14)) simp
      then show ?thesis using committed(11,13) os by simp
    qed
  qed (use run(5) in simp)
  have "cx_status r = SUCCESS \<Longrightarrow> cx_contract_violations r = 0"
    using success_run [OF True assms(4) n assms(5)] by simp
  then show ?thesis using True commit len made(4) run(2,3) by (auto split: if_splits)
qed

theorem collected_items_accounted_witness:
  "let (r, m') = normalizeAndCommit witness_collection_limits current_plan metric_job witness_read (witness_answer 3) 5 5 5 None
     two_metrics_base
   in cx_status r = SUCCESS \<and> dcr_committed_items (cx_commit r) = 2"
proof -
  let ?run = "normalizeAndCommit witness_collection_limits current_plan metric_job witness_read (witness_answer 3) 5 5 5 None
     two_metrics_base"
  have "cx_status (fst ?run) = SUCCESS \<and>
      result_admitted witness_collection_limits current_plan (witness_answer 3) two_metrics_base" by code_simp
  moreover from this have "dcr_committed_items (cx_commit (fst ?run)) = length (rq_items witness_read)"
    using collected_items_accounted [OF two_metrics_reachable witness_read_current _ metric_job_kind,
        of 5 witness_collection_limits current_plan "witness_answer 3" 5 5 None "fst ?run" "snd ?run"]
    by simp
  ultimately show ?thesis by (simp add: split_def witness_read_def)
qed

text \<open>
  C31: A failed call explains every item. When the provider call of a metric job as a whole fails
  and its result is admitted, the run makes one observation for each requested item whose metric
  the catalog knows, in the order of the request, each without a value, with the status that
  stands for the failure and with the call's own error; every other item is counted as a
  violation. These observations are what the run hands to the data manager, and if the commit
  accepts them the run ends with the status of the call. If there are none, nothing is stored.
  A failed call whose result is not admitted, because it still carries too many items or bytes or
  the catalog has changed, explains nothing: the run fails and the data is unchanged.
\<close>

theorem call_failure_explains_every_item:
  assumes "\<not> usableCallStatus (status_code (prr_call_status presult))" "jb_kind job = PD_Metric"
    and "normalizeAndCommit l plan job request presult observed wall eval metrics m = (r, m')"
  shows "if \<not> result_admitted l plan presult m
    then m' = m \<and> cx_normalized_items r = 0 \<and> cx_status r \<in> {RESOURCE_EXHAUSTED, STALE_GENERATION}
    else \<exists>os. map obs_key os = map item_key (filter (metric_known m) (rq_items request)) \<and>
      list_all (\<lambda>o'. obs_status o' = callFailureStatus (status_code (prr_call_status presult)) \<and>
        obs_status o' \<noteq> OS_Valid \<and> obs_value o' = None \<and> em_status (obs_error o') = prr_call_status presult) os \<and>
      cx_contract_violations r = length (filter (Not \<circ> metric_known m) (rq_items request)) \<and>
      (if os = [] then m' = m \<and> cx_status r = INTERNAL
       else DataManager_commit os m = (cx_commit r, m') \<and>
         (dcr_status (cx_commit r) \<in> {SUCCESS, PARTIAL_RESULT} \<longrightarrow>
            cx_status r = status_code (prr_call_status presult)))"
proof (cases "result_admitted l plan presult m")
  case False
  then show ?thesis using not_admitted_run [OF _ assms(3)] by simp
next
  case True
  obtain os vs where n: "normalize_items (normalize_item m job request observed wall (prr_call_status presult)
      (match_results request presult)) (rq_items request) = (os, vs)" by (cases rule: prod.exhaust)
  note run = commit_metrics_run [OF True assms(2) n assms(3)] and made = failed_call_items [OF assms(1) n]
  have "mt_violations (match_results request presult) = 0" using assms(1) by (simp add: match_results_def)
  moreover have "if os = [] then m' = m \<and> cx_status r = INTERNAL
      else DataManager_commit os m = (cx_commit r, m') \<and>
        (dcr_status (cx_commit r) \<in> {SUCCESS, PARTIAL_RESULT} \<longrightarrow> cx_status r = status_code (prr_call_status presult))"
    using run(4,5,7) assms(1) by (auto simp: prod_eq_iff)
  ultimately show ?thesis unfolding if_not_P [OF iffD2 [OF not_not True]] using made run(3) by (intro exI [of _ os]) auto
qed

theorem call_failure_explains_every_item_witness:
  "let (r, m') = normalizeAndCommit witness_collection_limits current_plan metric_job
       (witness_read\<lparr>rq_items := [read_item 7, read_item 9, read_item 8]\<rparr>)
       \<lparr>prr_call_status = Status TIMEOUT ''t'', prr_items = []\<rparr> 5 5 5 None two_metrics_base
   in cx_contract_violations r = 1 \<and> dcr_committed_items (cx_commit r) = 2 \<and> cx_status r = TIMEOUT"
proof -
  let ?q = "witness_read\<lparr>rq_items := [read_item 7, read_item 9, read_item 8]\<rparr>"
  let ?a = "\<lparr>prr_call_status = Status TIMEOUT ''t'', prr_items = []\<rparr>"
  let ?run = "normalizeAndCommit witness_collection_limits current_plan metric_job ?q ?a 5 5 5 None two_metrics_base"
  have "\<not> usableCallStatus (status_code (prr_call_status ?a)) \<and>
      result_admitted witness_collection_limits current_plan ?a two_metrics_base \<and>
      length (filter (Not \<circ> metric_known two_metrics_base) (rq_items ?q)) = 1 \<and>
      filter (metric_known two_metrics_base) (rq_items ?q) \<noteq> [] \<and>
      dcr_status (cx_commit (fst ?run)) = PARTIAL_RESULT \<and> dcr_committed_items (cx_commit (fst ?run)) = 2" by code_simp
  with call_failure_explains_every_item [of ?a metric_job witness_collection_limits current_plan ?q 5 5 5 None
      two_metrics_base "fst ?run" "snd ?run"] metric_job_kind
  show ?thesis by (auto simp: split_def split: if_splits)
qed

text \<open>
  C38: One oversize value discards the whole batch. If a single item of an otherwise correct
  answer carries a value larger than the store's limit, the commit is refused as a whole: the
  run fails with INVALID_ARGUMENT, no item of the batch is stored and nothing changes.
\<close>

theorem oversize_value_discards_batch:
  assumes "data_reachable dl ops = Some m" "request_current m request" "0 \<le> observed"
    and "result_admitted l plan presult m" "jb_kind job = PD_Metric"
    and "\<not> cst_topology_unsupported (dm_catalog m)" "dm_commit_epoch m \<noteq> u64_max"
    and "normalize_items (normalize_item m job request observed wall (prr_call_status presult) (match_results request presult))
      (rq_items request) = (os, vs)" and "list_ex (oversize m) os"
    and "normalizeAndCommit l plan job request presult observed wall eval metrics m = (r, m')"
  shows "m' = m \<and> cx_status r = INVALID_ARGUMENT"
proof -
  have "data_inv m" using data_reachable_inv [OF assms(1)] by simp
  note n = normalized [OF this data_reachable_identified [OF assms(1)] assms(2,3,8)]
  have "os \<noteq> []" using assms(9) by auto
  moreover have "validateBatch (dm_limits m) (dm_catalog m) {} os = INVALID_ARGUMENT"
    using validateBatch_collected [OF n(1,3)] assms(9) by simp
  ultimately have "DataManager_commit os m = (\<lparr>dcr_status = INVALID_ARGUMENT, dcr_commit_epoch = 0, dcr_committed_items = 0\<rparr>, m)"
    using assms(2,6,7) by (simp add: DataManager_commit_def Let_def ok_def request_current_def)
  with \<open>os \<noteq> []\<close> commit_metrics_run(4,6) [OF assms(4,5,8,10)] show ?thesis by simp
qed

theorem oversize_value_discards_batch_witness:
  "snd (normalizeAndCommit witness_collection_limits current_plan metric_job witness_read (witness_answer 65) 5 5 5 None two_metrics_base) =
     two_metrics_base"
proof -
  let ?n = "normalize_items (normalize_item two_metrics_base metric_job witness_read 5 5 status_success
       (match_results witness_read (witness_answer 65))) (rq_items witness_read)"
  have "list_ex (oversize two_metrics_base) (fst ?n)" by code_simp
  moreover have "prr_call_status (witness_answer 65) = status_success" by (simp add: witness_answer_def)
  moreover have "\<not> cst_topology_unsupported (dm_catalog two_metrics_base)" "dm_commit_epoch two_metrics_base \<noteq> u64_max"
    by (simp_all add: two_metrics_base_def witness_base_def)
  ultimately show ?thesis
    using oversize_value_discards_batch [OF two_metrics_reachable witness_read_current _ witness_admitted metric_job_kind,
        of 5 5 "fst ?n" "snd ?n" 5 None]
    by (simp add: prod_eq_iff)
qed

end
