(* ===== verification/Collection_Runtime.thy ===== *)
theory Collection_Runtime
  imports Collection_Plan
begin

text \<open>
  \<open>CollectionCoordinator::Runtime\<close>: the queue between the scheduler, the callers of fresh reads
  and the worker thread. A task is an object that queue, worker and the table of fresh reads
  share; its address is the field \<open>ta_ptr\<close>. A block under the runtime's lock is one step, so
  \<open>freshRead\<close> and the worker's loop are cut where they give up the lock. Two fields of the owner
  are atomics that the lock does not protect. \<open>plan_\<close> is published by \<open>applyWatchSnapshot\<close> before
  it takes the lock to install the plan, and read by \<open>runDue\<close> before it takes the lock: both calls
  are two steps, with anything in between. \<open>next_request_id_\<close> is also incremented by \<open>collectJob\<close>
  without the lock, which is a step of its own; a locked block that takes several identifiers
  takes them in a row here, while \<open>collectJob\<close> could draw one in between (no result is about the
  values of identifiers beyond being nonzero).
\<close>

section \<open>Tasks\<close>

datatype fresh_signature = FreshSignature (fs_catalog_generation: u64) (fs_keys: "data_key list")

text \<open>\<open>ta_completion\<close>: whether the task has a completion object that callers wait on.\<close>

record collection_task =
  ta_ptr :: nat
  ta_plan :: collection_plan
  ta_job :: collection_job
  ta_request :: provider_read_request
  ta_keys :: "data_key list"
  ta_priority :: watch_priority
  ta_fresh_signature :: "fresh_signature option"
  ta_completion :: bool

datatype enqueue_result = ER_Accepted | ER_Busy | ER_Full | ER_Stopped

record scheduler_run_summary =
  sr_status :: pdcm_status
  sr_enqueued_jobs :: size_t
  sr_missed_periods :: size_t
  sr_busy_jobs :: size_t
  sr_queue_rejections :: size_t

record logical_result =
  lr_job :: collection_job
  lr_first_scheduled_time :: i64
  lr_sample_count :: u64

section \<open>State\<close>

text \<open>
  The worker between two tasks, while it reads and commits one, and after it has released the
  task but not yet set its completion.
\<close>

datatype worker_state = WS_Idle | WS_Running collection_task | WS_Releasing collection_task pdcm_status

text \<open>
  The fields of \<open>Runtime\<close> and the atomics \<open>plan_\<close> and \<open>next_request_id_\<close> of its owner.
  \<open>cr_completions\<close> holds the completion objects that are done; \<open>cr_waiting\<close> the task each blocked
  call of \<open>freshRead\<close> waits for, so that \<open>fresh_waiters\<close> counts them. Local variables of calls in
  progress: \<open>cr_installing\<close> is the plan that the holder of \<open>plan_writer_mutex_\<close> has published and
  not yet installed, \<open>cr_readers\<close> the plans that calls of \<open>runDue\<close> have read before they get the lock.
\<close>

record collection_runtime =
  cr_limits :: collection_limits
  cr_plan :: collection_plan
  cr_next_request_id :: u64
  cr_queue :: "collection_task list"
  cr_busy_keys :: "data_key set"
  cr_fresh_tasks :: "(fresh_signature \<times> nat) list"
  cr_next_due :: "(u64, i64) omap"
  cr_provider_in_flight :: size_t
  cr_fresh_waiters :: size_t
  cr_scheduled_plan_version :: u64
  cr_route_generation :: u64
  cr_route_provider_id :: string
  cr_route_entity :: "entity_ref option"
  cr_route_metrics :: "u32 set"
  cr_shutdown :: bool
  cr_scheduler_stop :: bool
  cr_scheduler_running :: bool
  cr_worker :: worker_state
  cr_next_ptr :: nat
  cr_completions :: "(nat \<times> pdcm_status) list"
  cr_waiting :: "nat list"
  cr_installing :: "collection_plan option"
  cr_readers :: "collection_plan list"

definition collection_runtime_start :: "collection_limits \<Rightarrow> collection_runtime" where
  "collection_runtime_start l =
     \<lparr>cr_limits = l, cr_plan = default_collection_plan, cr_next_request_id = 1, cr_queue = [], cr_busy_keys = {},
      cr_fresh_tasks = [], cr_next_due = [], cr_provider_in_flight = 0, cr_fresh_waiters = 0,
      cr_scheduled_plan_version = 0, cr_route_generation = 0, cr_route_provider_id = [], cr_route_entity = None,
      cr_route_metrics = {}, cr_shutdown = False, cr_scheduler_stop = False, cr_scheduler_running = False,
      cr_worker = WS_Idle, cr_next_ptr = 0, cr_completions = [], cr_waiting = [], cr_installing = None, cr_readers = []\<rparr>"

text \<open>The constructor throws on invalid limits.\<close>

definition CollectionRuntime :: "collection_limits \<Rightarrow> collection_runtime option" where
  "CollectionRuntime l =
     (if ok (CollectionLimits_validate l) then Some (collection_runtime_start l) else None)"

text \<open>The tasks that queue and worker hold, and \<open>weak_ptr::lock\<close>.\<close>

definition worker_tasks :: "worker_state \<Rightarrow> collection_task list" where
  "worker_tasks w = (case w of WS_Idle \<Rightarrow> [] | WS_Running t \<Rightarrow> [t] | WS_Releasing t _ \<Rightarrow> [t])"

definition lock_task :: "nat \<Rightarrow> collection_runtime \<Rightarrow> collection_task option" where
  "lock_task p r = find (\<lambda>t. ta_ptr t = p) (cr_queue r @ worker_tasks (cr_worker r))"

section \<open>The queue\<close>

definition setCompletion :: "collection_task \<Rightarrow> pdcm_status \<Rightarrow> collection_runtime \<Rightarrow> collection_runtime" where
  "setCompletion t st r =
     (if \<not> ta_completion t then r else r\<lparr>cr_completions := (ta_ptr t, st) # cr_completions r\<rparr>)"

definition releaseTaskLocked :: "collection_task \<Rightarrow> collection_runtime \<Rightarrow> collection_runtime" where
  "releaseTaskLocked t r =
    (let r = r\<lparr>cr_busy_keys := cr_busy_keys r - set (ta_keys t)\<rparr>
     in case ta_fresh_signature t of
          None \<Rightarrow> r
        | Some s \<Rightarrow>
           (case map_of (cr_fresh_tasks r) s of
              None \<Rightarrow> r
            | Some p \<Rightarrow>
               if lock_task p r = None \<or> p = ta_ptr t
               then r\<lparr>cr_fresh_tasks := omap_erase s (cr_fresh_tasks r)\<rparr> else r))"

definition insert_task :: "collection_task \<Rightarrow> collection_task list \<Rightarrow> collection_task list" where
  "insert_task t queue =
    (let lower = (\<lambda>q. ta_priority q < ta_priority t)
     in takeWhile (\<lambda>q. \<not> lower q) queue @ t # dropWhile (\<lambda>q. \<not> lower q) queue)"

definition admit_task :: "collection_task \<Rightarrow> collection_runtime \<Rightarrow> collection_runtime" where
  "admit_task t r =
    (let r = r\<lparr>cr_busy_keys := cr_busy_keys r \<union> set (ta_keys t)\<rparr>;
         r = (case ta_fresh_signature t of
                None \<Rightarrow> r
              | Some s \<Rightarrow> r\<lparr>cr_fresh_tasks := (s, ta_ptr t) # omap_erase s (cr_fresh_tasks r)\<rparr>)
     in r\<lparr>cr_queue := insert_task t (cr_queue r)\<rparr>)"

definition evict_task :: "collection_runtime \<Rightarrow> collection_runtime" where
  "evict_task r =
    (let evicted = last (cr_queue r)
     in setCompletion evicted RESOURCE_EXHAUSTED (releaseTaskLocked evicted (r\<lparr>cr_queue := butlast (cr_queue r)\<rparr>)))"

definition enqueueLocked ::
  "collection_task \<Rightarrow> collection_runtime \<Rightarrow> enqueue_result \<times> collection_runtime" where
  "enqueueLocked t r =
    (if cr_shutdown r then (ER_Stopped, r)
     else if list_ex (\<lambda>k. k \<in> cr_busy_keys r) (ta_keys t) then (ER_Busy, r)
     else if length (cr_queue r) = kl_max_provider_queue (cr_limits r)
     then
      if cr_queue r = [] \<or> ta_priority t \<le> ta_priority (last (cr_queue r)) then (ER_Full, r)
      else (ER_Accepted, admit_task t (evict_task r))
     else (ER_Accepted, admit_task t r))"

section \<open>Plans and routes\<close>

definition install_due :: "collection_plan \<Rightarrow> (u64, i64) omap" where
  "install_due plan = fold (\<lambda>job. omap_emplace (jb_id job) (pl_created_at plan + jb_period job)) (pl_jobs plan) []"

definition installPlan :: "collection_plan \<Rightarrow> collection_runtime \<Rightarrow> collection_runtime" where
  "installPlan next_plan r = r\<lparr>cr_scheduled_plan_version := pl_version next_plan, cr_next_due := install_due next_plan\<rparr>"

text \<open>
  \<open>applyWatchSnapshot\<close>: compile; then, under \<open>plan_writer_mutex_\<close>, number and publish; then, still
  under that mutex, install. \<open>applyWatchSnapshot\<close> itself is the call when no step comes between.
\<close>

definition publishPlan ::
  "i64 \<Rightarrow> watch_snapshot option \<Rightarrow> data_manager \<Rightarrow> collection_runtime \<Rightarrow> pdcm_status \<times> collection_runtime" where
  "publishPlan now watches m r =
    (case compile_plan (cr_limits r) now watches m of
       Inl st \<Rightarrow> (st, r)
     | Inr plan \<Rightarrow>
        if pl_version (cr_plan r) = u64_max then (INTERNAL, r)
        else
         let plan = plan\<lparr>pl_version := pl_version (cr_plan r) + 1\<rparr>
         in (SUCCESS, r\<lparr>cr_plan := plan, cr_installing := Some plan\<rparr>))"

definition installPublished :: "collection_runtime \<Rightarrow> collection_runtime" where
  "installPublished r =
    (case cr_installing r of None \<Rightarrow> r | Some plan \<Rightarrow> (installPlan plan r)\<lparr>cr_installing := None\<rparr>)"

definition applyWatchSnapshot ::
  "i64 \<Rightarrow> watch_snapshot option \<Rightarrow> data_manager \<Rightarrow> collection_runtime \<Rightarrow> pdcm_status \<times> collection_runtime" where
  "applyWatchSnapshot now watches m r =
    (let (st, r) = publishPlan now watches m r in (st, installPublished r))"

definition activateRoutes ::
  "catalog_view option \<Rightarrow> data_manager \<Rightarrow> collection_runtime \<Rightarrow> pdcm_status \<times> collection_runtime" where
  "activateRoutes catalog m r =
    (case catalog of
       None \<Rightarrow> (STALE_GENERATION, r)
     | Some v \<Rightarrow>
        if cv_generation v = 0 \<or> cv_generation v \<noteq> dm_generation m then (STALE_GENERATION, r)
        else
         let r = r\<lparr>cr_route_generation := cv_generation v, cr_route_provider_id := [], cr_route_entity := None,
               cr_route_metrics := {}\<rparr>
         in if cv_topology_unsupported v \<or> length (cv_entities v) \<noteq> 1 then (UNSUPPORTED, r)
            else
             let entity = hd (cv_entities v)
             in case CatalogView_capabilities (en_ref entity) v of
                  (_, None) \<Rightarrow> (UNAVAILABLE, r)
                | (st, Some capabilities) \<Rightarrow>
                   if \<not> ok st \<or> en_provider_version entity = [] then (UNAVAILABLE, r)
                   else (SUCCESS, r\<lparr>cr_route_provider_id := en_provider_version entity,
                           cr_route_entity := Some (en_ref entity),
                           cr_route_metrics := set (map ci_id
                             (filter (\<lambda>i. ci_kind i = CP_Metric \<and> ci_supported i) (cs_items capabilities)))\<rparr>))"

definition allocateRequestId :: "collection_runtime \<Rightarrow> u64 \<times> collection_runtime" where
  "allocateRequestId r =
    (let request_id = cr_next_request_id r
     in if request_id = 0 \<or> request_id = u64_max then (0, r)
        else (request_id, r\<lparr>cr_next_request_id := request_id + 1\<rparr>))"

section \<open>The scheduler\<close>

definition job_request :: "collection_plan \<Rightarrow> collection_job \<Rightarrow> u64 \<Rightarrow> i64 \<Rightarrow> i64 \<Rightarrow> provider_read_request" where
  "job_request plan job request_id scheduled deadline =
     \<lparr>rq_request_id = request_id, rq_plan_generation = pl_version plan,
      rq_catalog_generation = pl_catalog_generation plan, rq_scheduled_time = scheduled, rq_deadline = deadline,
      rq_items = map (\<lambda>item. \<lparr>ri_entity = wk_entity (pi_key item), ri_kind = wk_kind (pi_key item),
                              ri_data_id = wk_data_id (pi_key item)\<rparr>) (jb_items job)\<rparr>"

definition job_keys :: "collection_job \<Rightarrow> data_key list" where
  "job_keys job = map (\<lambda>item. DataKey (wk_entity (pi_key item)) (wk_data_id (pi_key item))) (jb_items job)"

definition deadline_window :: "collection_job \<Rightarrow> i64" where
  "deadline_window job =
     fold (\<lambda>item window. min window (pi_freshness item)) (jb_items job) (pi_freshness (hd (jb_items job)))"

record due_state =
  ds_summary :: scheduler_run_summary
  ds_results :: "logical_result list"
  ds_runtime :: collection_runtime

text \<open>One iteration of the loop over the jobs of the plan, \<open>current\<close> in the source.\<close>

definition due_job :: "collection_plan \<Rightarrow> i64 \<Rightarrow> collection_job \<Rightarrow> due_state \<Rightarrow> due_state" where
  "due_job plan now job s =
    (let r = ds_runtime s; sum = ds_summary s
     in case map_of (cr_next_due r) (jb_id job) of
          None \<Rightarrow> s
        | Some due \<Rightarrow>
           if now < due then s
           else
            let steps = (now - due) div jb_period job + 1;
                scheduled = due + jb_period job * (steps - 1);
                sum = sum\<lparr>sr_missed_periods := sr_missed_periods sum + nat (steps - 1)\<rparr>;
                r = r\<lparr>cr_next_due := omap_put (jb_id job) (due + jb_period job * steps) (cr_next_due r)\<rparr>;
                (request_id, r) = allocateRequestId r;
                task = \<lparr>ta_ptr = cr_next_ptr r, ta_plan = plan, ta_job = job,
                        ta_request = job_request plan job request_id scheduled (scheduled + deadline_window job),
                        ta_keys = job_keys job, ta_priority = jb_priority job, ta_fresh_signature = None,
                        ta_completion = False\<rparr>;
                r = r\<lparr>cr_next_ptr := cr_next_ptr r + 1\<rparr>;
                note = (\<lambda>n. [\<lparr>lr_job = job, lr_first_scheduled_time = due, lr_sample_count = to_u64 n\<rparr>])
            in if request_id = 0
               then s\<lparr>ds_summary := sum\<lparr>sr_queue_rejections := sr_queue_rejections sum + 1\<rparr>,
                      ds_results := ds_results s @ note steps, ds_runtime := r\<rparr>
               else
                let (queued, r) = enqueueLocked task r
                in s\<lparr>ds_summary :=
                       (case queued of
                          ER_Accepted \<Rightarrow> sum\<lparr>sr_enqueued_jobs := sr_enqueued_jobs sum + 1\<rparr>
                        | ER_Busy \<Rightarrow> sum\<lparr>sr_busy_jobs := sr_busy_jobs sum + 1\<rparr>
                        | _ \<Rightarrow> sum\<lparr>sr_queue_rejections := sr_queue_rejections sum + 1\<rparr>),
                     ds_results := ds_results s @
                       (if queued = ER_Accepted then (if steps > 1 then note (steps - 1) else []) else note steps),
                     ds_runtime := r\<rparr>)"

definition empty_summary :: scheduler_run_summary where
  "empty_summary =
     \<lparr>sr_status = SUCCESS, sr_enqueued_jobs = 0, sr_missed_periods = 0, sr_busy_jobs = 0, sr_queue_rejections = 0\<rparr>"

definition due_jobs :: "collection_plan \<Rightarrow> i64 \<Rightarrow> collection_runtime \<Rightarrow> due_state" where
  "due_jobs plan now r =
    (let r = (if cr_scheduled_plan_version r \<noteq> pl_version plan then installPlan plan r else r)
     in fold (due_job plan now) (pl_jobs plan) \<lparr>ds_summary = empty_summary, ds_results = [], ds_runtime = r\<rparr>)"

text \<open>
  \<open>runDue\<close> from the lock to its release, with the plan that was read before: the summary, what is
  to be noted for the watches afterwards, and the runtime.
\<close>

definition runDue ::
  "collection_plan \<Rightarrow> i64 \<Rightarrow> collection_runtime \<Rightarrow> (scheduler_run_summary \<times> logical_result list) \<times> collection_runtime" where
  "runDue plan now r =
    (if now < 0 then ((empty_summary\<lparr>sr_status := INVALID_ARGUMENT\<rparr>, []), r)
     else if cr_shutdown r then ((empty_summary\<lparr>sr_status := NOT_INITIALIZED\<rparr>, []), r)
     else
      let s = due_jobs plan now r; sum = ds_summary s
      in ((sum\<lparr>sr_status := (if sr_busy_jobs sum = 0 \<and> sr_queue_rejections sum = 0 then SUCCESS else PARTIAL_RESULT)\<rparr>,
           ds_results s), ds_runtime s))"

section \<open>Fresh reads\<close>

definition fresh_item :: "string \<Rightarrow> data_manager \<Rightarrow> data_key \<Rightarrow> collection_plan_item" where
  "fresh_item provider_id m key =
     \<lparr>pi_key = EffectiveWatchKey provider_id (dk_entity key) PD_Metric (dk_metric key) 0, pi_period = 0,
      pi_freshness = (case metricDescriptor (dk_metric key) m of None \<Rightarrow> 0 | Some d \<Rightarrow> to_i64 (md_freshness_ns d)),
      pi_priority = WP_Normal, pi_logical_watches = []\<rparr>"

definition fresh_task ::
  "data_key list \<Rightarrow> u64 \<Rightarrow> i64 \<Rightarrow> i64 \<Rightarrow> u64 \<Rightarrow> data_manager \<Rightarrow> collection_runtime \<Rightarrow> collection_task" where
  "fresh_task keys generation deadline now request_id m r =
    (let plan = (if pl_catalog_generation (cr_plan r) \<noteq> generation
                 then (cr_plan r)\<lparr>pl_catalog_generation := generation\<rparr> else cr_plan r)
     in \<lparr>ta_ptr = cr_next_ptr r, ta_plan = plan,
         ta_job = default_collection_job\<lparr>jb_provider_id := cr_route_provider_id r, jb_kind := PD_Metric, jb_priority := WP_Normal,
           jb_items := map (fresh_item (cr_route_provider_id r) m) keys\<rparr>,
         ta_request = \<lparr>rq_request_id = request_id, rq_plan_generation = pl_version plan,
           rq_catalog_generation = generation, rq_scheduled_time = now, rq_deadline = deadline,
           rq_items = map (\<lambda>key. \<lparr>ri_entity = dk_entity key, ri_kind = PD_Metric, ri_data_id = dk_metric key\<rparr>) keys\<rparr>,
         ta_keys = keys, ta_priority = WP_Normal, ta_fresh_signature = Some (FreshSignature generation keys), ta_completion = True\<rparr>)"

text \<open>A call of \<open>freshRead\<close> waits for the completion of a task.\<close>

definition await_task :: "nat \<Rightarrow> collection_runtime \<Rightarrow> collection_runtime" where
  "await_task p r = r\<lparr>cr_fresh_waiters := cr_fresh_waiters r + 1, cr_waiting := p # cr_waiting r\<rparr>"

text \<open>The end of the first locked block: a new task, or why there is none.\<close>

definition fresh_enqueue ::
  "data_key list \<Rightarrow> u64 \<Rightarrow> i64 \<Rightarrow> i64 \<Rightarrow> data_manager \<Rightarrow> collection_runtime \<Rightarrow> (pdcm_status + nat) \<times> collection_runtime" where
  "fresh_enqueue keys generation deadline now m r =
    (let (request_id, r) = allocateRequestId r;
         task = fresh_task keys generation deadline now request_id m r;
         r = r\<lparr>cr_next_ptr := cr_next_ptr r + 1\<rparr>
     in if request_id = 0 then (Inl RESOURCE_EXHAUSTED, r)
        else
         let (queued, r) = enqueueLocked task r
         in if queued \<noteq> ER_Accepted then (Inl RESOURCE_EXHAUSTED, r)
            else (Inr (ta_ptr task), await_task (ta_ptr task) r))"

text \<open>The checks of \<open>freshRead\<close>, on its arguments and then under the lock.\<close>

definition freshRead_check ::
  "data_key list \<Rightarrow> u64 \<Rightarrow> i64 \<Rightarrow> i64 \<Rightarrow> data_manager \<Rightarrow> collection_runtime \<Rightarrow> pdcm_status" where
  "freshRead_check keys generation deadline now m r =
    (if keys = [] \<or> generation = 0 then INVALID_ARGUMENT
     else if length keys > kl_max_batch_items (cr_limits r) then RESOURCE_EXHAUSTED
     else if deadline \<le> now then TIMEOUT
     else if adjacent_find (sort keys) then INVALID_ARGUMENT
     else if cr_shutdown r then NOT_INITIALIZED
     else if generation \<noteq> cr_route_generation r \<or> cr_route_entity r = None then STALE_GENERATION
     else if list_ex (\<lambda>key. Some (dk_entity key) \<noteq> cr_route_entity r \<or> dk_metric key \<notin> cr_route_metrics r \<or>
                            metricDescriptor (dk_metric key) m = None) (sort keys)
     then UNSUPPORTED
     else if cr_fresh_waiters r = kl_max_fresh_waiters (cr_limits r) then RESOURCE_EXHAUSTED
     else SUCCESS)"

text \<open>
  \<open>freshRead\<close> until it blocks: a status, or the task it waits for. The clock is read twice.
\<close>

definition freshRead_begin ::
  "data_key list \<Rightarrow> u64 \<Rightarrow> i64 \<Rightarrow> i64 \<Rightarrow> i64 \<Rightarrow> data_manager \<Rightarrow> collection_runtime \<Rightarrow>
   (pdcm_status + nat) \<times> collection_runtime" where
  "freshRead_begin keys generation deadline now1 now2 m r =
    (let st = freshRead_check keys generation deadline now1 m r; keys = sort keys
     in if st \<noteq> SUCCESS then (Inl st, r)
        else
         case map_of (cr_fresh_tasks r) (FreshSignature generation keys) of
           None \<Rightarrow> fresh_enqueue keys generation deadline now2 m r
         | Some p \<Rightarrow>
            (case lock_task p r of
               None \<Rightarrow>
                fresh_enqueue keys generation deadline now2 m
                  (r\<lparr>cr_fresh_tasks := omap_erase (FreshSignature generation keys) (cr_fresh_tasks r)\<rparr>)
             | Some t \<Rightarrow>
                if rq_deadline (ta_request t) \<ge> deadline then (Inr p, await_task p r)
                else (Inl RESOURCE_EXHAUSTED, r)))"

text \<open>The end of \<open>freshRead\<close>, when the completion is done or the deadline has passed.\<close>

definition freshRead_end :: "nat \<Rightarrow> collection_runtime \<Rightarrow> pdcm_status \<times> collection_runtime" where
  "freshRead_end p r =
     ((case map_of (cr_completions r) p of None \<Rightarrow> TIMEOUT | Some st \<Rightarrow> st),
      r\<lparr>cr_fresh_waiters := szsub (cr_fresh_waiters r) 1, cr_waiting := remove1 p (cr_waiting r)\<rparr>)"

section \<open>The worker\<close>

definition worker_take :: "collection_runtime \<Rightarrow> collection_runtime" where
  "worker_take r =
    (case (cr_worker r, cr_queue r) of
       (WS_Idle, t # queue) \<Rightarrow>
        r\<lparr>cr_queue := queue, cr_provider_in_flight := cr_provider_in_flight r + 1, cr_worker := WS_Running t\<rparr>
     | _ \<Rightarrow> r)"

definition worker_release :: "pdcm_status \<Rightarrow> collection_runtime \<Rightarrow> collection_runtime" where
  "worker_release run_status r =
    (case cr_worker r of
       WS_Running t \<Rightarrow>
        releaseTaskLocked t (r\<lparr>cr_provider_in_flight := szsub (cr_provider_in_flight r) 1,
          cr_worker := WS_Releasing t run_status\<rparr>)
     | _ \<Rightarrow> r)"

definition worker_complete :: "collection_runtime \<Rightarrow> collection_runtime" where
  "worker_complete r =
    (case cr_worker r of
       WS_Releasing t run_status \<Rightarrow> setCompletion t run_status (r\<lparr>cr_worker := WS_Idle\<rparr>)
     | _ \<Rightarrow> r)"

section \<open>Starting and stopping\<close>

definition startScheduler :: "collection_runtime \<Rightarrow> pdcm_status \<times> collection_runtime" where
  "startScheduler r =
    (if cr_shutdown r then (NOT_INITIALIZED, r)
     else if cr_scheduler_running r then (SUCCESS, r)
     else (SUCCESS, r\<lparr>cr_scheduler_stop := False, cr_scheduler_running := True\<rparr>))"

text \<open>\<open>stopScheduler\<close> with the join of the scheduler thread.\<close>

definition stopScheduler :: "collection_runtime \<Rightarrow> collection_runtime" where
  "stopScheduler r =
    (if \<not> cr_scheduler_running r then r else r\<lparr>cr_scheduler_stop := True, cr_scheduler_running := False\<rparr>)"

definition cancel_task :: "collection_task \<Rightarrow> collection_runtime \<Rightarrow> collection_runtime" where
  "cancel_task t r = setCompletion t NOT_INITIALIZED (releaseTaskLocked t r)"

definition cancel_queue :: "collection_task list \<Rightarrow> collection_runtime \<Rightarrow> collection_runtime" where
  "cancel_queue = fold (\<lambda>t r. cancel_task t (r\<lparr>cr_queue := tl (cr_queue r)\<rparr>))"

text \<open>\<open>shutdownAll\<close> until it waits for the worker.\<close>

definition shutdownAll :: "collection_runtime \<Rightarrow> collection_runtime" where
  "shutdownAll r =
    (let r = (stopScheduler r)\<lparr>cr_shutdown := True\<rparr>
     in cancel_queue (cr_queue r) r)"

section \<open>Invariant\<close>

text \<open>The tasks whose keys are busy, and the tasks that exist.\<close>

definition held :: "collection_runtime \<Rightarrow> collection_task list" where
  "held r = cr_queue r @ (case cr_worker r of WS_Running t \<Rightarrow> [t] | _ \<Rightarrow> [])"

definition live :: "collection_runtime \<Rightarrow> collection_task list" where
  "live r = cr_queue r @ worker_tasks (cr_worker r)"

text \<open>The order in which the worker takes tasks: by priority, then in order of arrival.\<close>

definition served_before :: "collection_task \<Rightarrow> collection_task \<Rightarrow> bool" where
  "served_before a b \<longleftrightarrow> ta_priority b < ta_priority a \<or> ta_priority a = ta_priority b \<and> ta_ptr a < ta_ptr b"

definition task_ok :: "collection_limits \<Rightarrow> collection_task \<Rightarrow> bool" where
  "task_ok l t \<longleftrightarrow> ta_keys t \<noteq> [] \<and> distinct (ta_keys t) \<and> length (ta_keys t) \<le> kl_max_batch_items l \<and>
     map (\<lambda>i. DataKey (ri_entity i) (ri_data_id i)) (rq_items (ta_request t)) = ta_keys t \<and>
     rq_request_id (ta_request t) \<noteq> 0 \<and>
     rq_catalog_generation (ta_request t) = pl_catalog_generation (ta_plan t) \<and>
     (\<forall>s. ta_fresh_signature t = Some s \<longrightarrow>
        ta_completion t \<and> s = FreshSignature (rq_catalog_generation (ta_request t)) (ta_keys t))"

definition keys_ok :: "collection_task list \<Rightarrow> data_key set \<Rightarrow> bool" where
  "keys_ok ts busy \<longleftrightarrow> distinct (concat (map ta_keys ts)) \<and> busy = set (concat (map ta_keys ts))"

definition fresh_ok :: "collection_task list \<Rightarrow> (fresh_signature \<times> nat) list \<Rightarrow> bool" where
  "fresh_ok ts fresh \<longleftrightarrow>
     (\<forall>s p. map_of fresh s = Some p \<longleftrightarrow> (\<exists>t \<in> set ts. ta_ptr t = p \<and> ta_fresh_signature t = Some s))"

definition ptrs_ok :: "collection_task list \<Rightarrow> (nat \<times> pdcm_status) list \<Rightarrow> nat \<Rightarrow> bool" where
  "ptrs_ok ts completions next_ptr \<longleftrightarrow> distinct (map ta_ptr ts) \<and> (\<forall>t \<in> set ts. ta_ptr t < next_ptr) \<and>
     (\<forall>c \<in> set completions. fst c < next_ptr \<and> fst c \<notin> ta_ptr ` set ts)"

definition waiters_ok :: "collection_task list \<Rightarrow> (nat \<times> pdcm_status) list \<Rightarrow> nat list \<Rightarrow> bool" where
  "waiters_ok ts completions waiting \<longleftrightarrow>
     (\<forall>p \<in> set waiting. (\<exists>t \<in> set ts. ta_ptr t = p \<and> ta_completion t) \<or> p \<in> fst ` set completions)"

abbreviation known_plans :: "collection_runtime \<Rightarrow> collection_plan list" where
  "known_plans r \<equiv> cr_plan r # cr_readers r"

definition plan_ok :: "collection_limits \<Rightarrow> collection_plan \<Rightarrow> bool" where
  "plan_ok l plan \<longleftrightarrow> list_all (job_ok l) (pl_jobs plan) \<and> distinct (map jb_id (pl_jobs plan))"

text \<open>
  What the due times mean: a version names one plan, none is newer than the published one, and
  each job of the plan whose version is scheduled is due some periods after that plan's creation.
\<close>

definition on_grid :: "collection_plan \<Rightarrow> (u64, i64) omap \<Rightarrow> bool" where
  "on_grid plan dues \<longleftrightarrow>
     (\<forall>job \<in> set (pl_jobs plan). \<exists>k \<ge> 1. map_of dues (jb_id job) = Some (pl_created_at plan + k * jb_period job))"

definition sched_ok :: "collection_plan list \<Rightarrow> u64 \<Rightarrow> u64 \<Rightarrow> (u64, i64) omap \<Rightarrow> bool" where
  "sched_ok plans newest version dues \<longleftrightarrow>
     (\<exists>P. (\<forall>p \<in> set plans. P (pl_version p) = p \<and> pl_version p \<le> newest) \<and> version \<le> newest \<and>
        on_grid (P version) dues)"

definition rt_base :: "collection_runtime \<Rightarrow> bool" where
  "rt_base r \<longleftrightarrow>
     sorted_wrt served_before (cr_queue r) \<and> length (cr_queue r) \<le> kl_max_provider_queue (cr_limits r) \<and>
     list_all (task_ok (cr_limits r)) (live r) \<and> keys_ok (held r) (cr_busy_keys r) \<and>
     fresh_ok (held r) (cr_fresh_tasks r) \<and> ptrs_ok (live r) (cr_completions r) (cr_next_ptr r) \<and>
     waiters_ok (live r) (cr_completions r) (cr_waiting r) \<and>
     cr_fresh_waiters r = length (cr_waiting r) \<and> cr_fresh_waiters r \<le> kl_max_fresh_waiters (cr_limits r) \<and>
     cr_provider_in_flight r = (case cr_worker r of WS_Running t \<Rightarrow> 1 | _ \<Rightarrow> 0) \<and>
     CollectionLimits_validate (cr_limits r) = SUCCESS \<and> list_all (plan_ok (cr_limits r)) (known_plans r) \<and>
     omap_ok (cr_next_due r)"

definition rt_inv :: "collection_runtime \<Rightarrow> bool" where
  "rt_inv r \<longleftrightarrow> rt_base r \<and> (cr_shutdown r \<longrightarrow> cr_queue r = []) \<and>
     (\<forall>plan. cr_installing r = Some plan \<longrightarrow> plan = cr_plan r) \<and>
     sched_ok (known_plans r) (pl_version (cr_plan r)) (cr_scheduled_plan_version r) (cr_next_due r)"

lemma held_live: "set (held r) \<subseteq> set (live r)"
  by (auto simp: held_def live_def worker_tasks_def split: worker_state.splits)

subsection \<open>A task leaves\<close>

lemma keys_ok_remove: "keys_ok (xs @ t # ys) busy \<Longrightarrow> keys_ok (xs @ ys) (busy - set (ta_keys t))"
  by (auto simp: keys_ok_def)

lemma fresh_ok_remove:
  assumes "fresh_ok (xs @ t # ys) fresh" "distinct (map ta_ptr (xs @ t # ys))"
  shows "fresh_ok (xs @ ys) (case ta_fresh_signature t of None \<Rightarrow> fresh | Some s \<Rightarrow> omap_erase s fresh)"
proof -
  have entry: "map_of fresh s = Some p \<longleftrightarrow> (\<exists>u \<in> insert t (set (xs @ ys)). ta_ptr u = p \<and> ta_fresh_signature u = Some s)" for s p
    using assms(1) by (auto simp: fresh_ok_def)
  have "ta_ptr t \<notin> ta_ptr ` set (xs @ ys)" using assms(2) by (simp add: image_Un)
  then have "u \<in> set (xs @ ys) \<Longrightarrow> ta_ptr u \<noteq> ta_ptr t" for u by (metis imageI)
  moreover have "u \<in> set (xs @ ys) \<Longrightarrow> ta_fresh_signature u = ta_fresh_signature t \<Longrightarrow> ta_fresh_signature u = Some s \<Longrightarrow>
      ta_ptr u = ta_ptr t" for u s
    using entry [of s "ta_ptr u"] entry [of s "ta_ptr t"] by force
  ultimately show ?thesis
    unfolding fresh_ok_def by (cases "ta_fresh_signature t") (use entry in \<open>force split: if_splits\<close>)+
qed

lemma releaseTaskLocked_eq:
  assumes "fresh_ok ts (cr_fresh_tasks r)" "t \<in> set ts"
  shows "releaseTaskLocked t r = r\<lparr>cr_busy_keys := cr_busy_keys r - set (ta_keys t),
    cr_fresh_tasks := (case ta_fresh_signature t of None \<Rightarrow> cr_fresh_tasks r | Some s \<Rightarrow> omap_erase s (cr_fresh_tasks r))\<rparr>"
proof (cases "ta_fresh_signature t")
  case (Some s)
  then have "map_of (cr_fresh_tasks r) s = Some (ta_ptr t)" using assms by (auto simp: fresh_ok_def)
  with Some show ?thesis by (simp add: releaseTaskLocked_def Let_def)
qed (simp add: releaseTaskLocked_def Let_def)

lemma ptrs_ok_remove:
  "ptrs_ok (xs @ t # ys) cs n \<Longrightarrow> ptrs_ok (xs @ ys) (if ta_completion t then (ta_ptr t, st) # cs else cs) n"
  by (auto simp: ptrs_ok_def)

lemma waiters_ok_remove:
  "ptrs_ok (xs @ t # ys) cs n \<Longrightarrow> waiters_ok (xs @ t # ys) cs w \<Longrightarrow>
   waiters_ok (xs @ ys) (if ta_completion t then (ta_ptr t, st) # cs else cs) w"
  unfolding waiters_ok_def by fastforce

text \<open>Taking a task out of the queue, releasing it and setting its completion.\<close>

lemma rt_base_cancel:
  assumes "rt_base r" "cr_queue r = xs @ t # ys"
  shows "rt_base (setCompletion t st (releaseTaskLocked t (r\<lparr>cr_queue := xs @ ys\<rparr>)))"
proof -
  let ?w = "case cr_worker r of WS_Running t \<Rightarrow> [t] | _ \<Rightarrow> []" and ?v = "worker_tasks (cr_worker r)"
  have held: "held r = xs @ t # (ys @ ?w)" and live: "live r = xs @ t # (ys @ ?v)"
    by (simp_all add: held_def live_def assms(2))
  have b: "keys_ok (xs @ t # (ys @ ?w)) (cr_busy_keys r)" "fresh_ok (xs @ t # (ys @ ?w)) (cr_fresh_tasks r)"
    "ptrs_ok (xs @ t # (ys @ ?v)) (cr_completions r) (cr_next_ptr r)"
    "waiters_ok (xs @ t # (ys @ ?v)) (cr_completions r) (cr_waiting r)"
    using assms(1) by (auto simp: rt_base_def held live)
  have "distinct (map ta_ptr (xs @ t # (ys @ ?w)))"
    using b(3) by (auto simp: ptrs_ok_def worker_tasks_def split: worker_state.splits)
  note parts = keys_ok_remove [OF b(1)] fresh_ok_remove [OF b(2) this] ptrs_ok_remove [OF b(3), of st] waiters_ok_remove [OF b(3,4), of st]
  have eq: "releaseTaskLocked t (r\<lparr>cr_queue := xs @ ys\<rparr>) =
      r\<lparr>cr_queue := xs @ ys, cr_busy_keys := cr_busy_keys r - set (ta_keys t),
        cr_fresh_tasks := (case ta_fresh_signature t of None \<Rightarrow> cr_fresh_tasks r | Some s \<Rightarrow> omap_erase s (cr_fresh_tasks r))\<rparr>"
    using releaseTaskLocked_eq [of "held r" "r\<lparr>cr_queue := xs @ ys\<rparr>" t] b(2)
    by (cases "ta_fresh_signature t") (simp_all add: held)
  from assms(1) have "sorted_wrt served_before (xs @ ys)" by (auto simp: rt_base_def assms(2) sorted_wrt_append)
  with parts assms show ?thesis
    unfolding eq setCompletion_def rt_base_def by (cases "ta_completion t") (simp_all add: held_def live_def)
qed

lemma rt_base_evict:
  assumes "rt_base r" "cr_queue r \<noteq> []"
  shows "rt_base (evict_task r)"
  using rt_base_cancel [OF assms(1), of "butlast (cr_queue r)" "last (cr_queue r)" "[]" RESOURCE_EXHAUSTED] assms(2)
  by (simp add: evict_task_def Let_def)

subsection \<open>A task arrives\<close>

lemma insert_task_sorted:
  assumes "sorted_wrt served_before queue" "\<forall>q \<in> set queue. ta_ptr q < ta_ptr t"
  shows "sorted_wrt served_before (insert_task t queue) \<and> set (insert_task t queue) = insert t (set queue) \<and>
    length (insert_task t queue) = Suc (length queue)"
proof -
  let ?P = "\<lambda>q. \<not> ta_priority q < ta_priority t"
  let ?a = "takeWhile ?P queue" and ?b = "dropWhile ?P queue"
  have split: "queue = ?a @ ?b" by simp
  then have s: "sorted_wrt served_before ?a" "sorted_wrt served_before ?b" "\<forall>x \<in> set ?a. \<forall>y \<in> set ?b. served_before x y"
    using assms(1) sorted_wrt_append [of served_before ?a ?b] by simp_all
  have "x \<in> set ?a \<Longrightarrow> served_before x t" for x
    using set_takeWhileD [of x ?P queue] assms(2) by (auto simp: served_before_def)
  moreover have "served_before t y" if "y \<in> set ?b" for y
  proof (cases "dropWhile ?P queue")
    case Nil
    then show ?thesis using that by (simp only: list.set(1) empty_iff)
  next
    case (Cons z zs)
    then have "ta_priority z < ta_priority t" by (simp add: dropWhile_eq_Cons_conv)
    moreover have "y = z \<or> served_before z y" using that Cons s(2) by auto
    ultimately show ?thesis by (auto simp: served_before_def)
  qed
  moreover have "set queue = set ?a \<union> set ?b" "length queue = length ?a + length ?b"
    by (subst split, simp del: takeWhile_dropWhile_id)+
  ultimately show ?thesis using s by (auto simp: insert_task_def Let_def sorted_wrt_append)
qed

lemma mset_insert_task: "mset (insert_task t queue) = add_mset t (mset queue)"
proof -
  have "mset (takeWhile P queue) + mset (dropWhile P queue) = mset queue" for P
    by (metis mset_append takeWhile_dropWhile_id)
  then show ?thesis by (simp add: insert_task_def Let_def)
qed

lemma keys_ok_perm:
  assumes "mset ts = mset us"
  shows "keys_ok ts busy \<longleftrightarrow> keys_ok us busy"
proof -
  have "mset (concat (map ta_keys ts)) = mset (concat (map ta_keys us))"
    using assms by (simp add: mset_concat flip: sum_mset_sum_list)
  then show ?thesis
    unfolding keys_ok_def using mset_eq_imp_distinct_iff mset_eq_setD by (metis (no_types, lifting))
qed

lemma ptrs_ok_perm:
  assumes "mset ts = mset us"
  shows "ptrs_ok ts cs n \<longleftrightarrow> ptrs_ok us cs n"
proof -
  have "distinct (map ta_ptr ts) = distinct (map ta_ptr us)"
    by (rule mset_eq_imp_distinct_iff) (simp add: assms)
  with mset_eq_setD [OF assms] show ?thesis by (simp add: ptrs_ok_def)
qed

lemma fresh_ok_add:
  assumes "fresh_ok ts fresh" "set us = insert t (set ts)"
    and none: "\<forall>s. ta_fresh_signature t = Some s \<longrightarrow> map_of fresh s = None"
  shows "fresh_ok us (case ta_fresh_signature t of None \<Rightarrow> fresh | Some s \<Rightarrow> (s, ta_ptr t) # omap_erase s fresh)"
proof (cases "ta_fresh_signature t")
  case (Some s)
  then have "ta_fresh_signature u \<noteq> Some s" if "u \<in> set ts" for u
    using that none assms(1) by (force simp: fresh_ok_def)
  with Some assms(1,2) show ?thesis by (auto simp: fresh_ok_def)
qed (use assms(1,2) in \<open>auto simp: fresh_ok_def\<close>)

lemma rt_base_admit:
  assumes "rt_base r" "task_ok (cr_limits r) t" "length (cr_queue r) < kl_max_provider_queue (cr_limits r)"
    and busy: "set (ta_keys t) \<inter> cr_busy_keys r = {}"
    and fresh: "\<forall>s. ta_fresh_signature t = Some s \<longrightarrow> map_of (cr_fresh_tasks r) s = None"
    and ptr: "ta_ptr t < cr_next_ptr r" "\<forall>u \<in> set (live r). ta_ptr u < ta_ptr t" "ta_ptr t \<notin> fst ` set (cr_completions r)"
  shows "rt_base (admit_task t r)"
proof -
  let ?q = "insert_task t (cr_queue r)" and ?r = "admit_task t r"
  let ?w = "case cr_worker r of WS_Running t \<Rightarrow> [t] | _ \<Rightarrow> []" and ?v = "worker_tasks (cr_worker r)"
  have older: "\<forall>q \<in> set (cr_queue r). ta_ptr q < ta_ptr t" using ptr(2) by (simp add: live_def)
  have q: "sorted_wrt served_before ?q" "set ?q = insert t (set (cr_queue r))" "length ?q = Suc (length (cr_queue r))"
    using insert_task_sorted [OF _ older] assms(1) by (auto simp: rt_base_def)
  have b: "keys_ok (held r) (cr_busy_keys r)" "fresh_ok (held r) (cr_fresh_tasks r)"
    "ptrs_ok (live r) (cr_completions r) (cr_next_ptr r)" "waiters_ok (live r) (cr_completions r) (cr_waiting r)"
    using assms(1) by (auto simp: rt_base_def)
  have k: "keys_ok (?q @ ?w) (cr_busy_keys r \<union> set (ta_keys t))"
  proof (subst keys_ok_perm [of _ "t # held r"])
    show "keys_ok (t # held r) (cr_busy_keys r \<union> set (ta_keys t))"
      using b(1) busy assms(2) by (auto simp: keys_ok_def task_ok_def)
  qed (simp add: held_def mset_insert_task)
  have p: "ptrs_ok (?q @ ?v) (cr_completions r) (cr_next_ptr r)"
  proof (subst ptrs_ok_perm [of _ "t # live r"])
    show "ptrs_ok (t # live r) (cr_completions r) (cr_next_ptr r)"
      using b(3) ptr by (simp add: ptrs_ok_def) (metis (no_types, lifting) image_iff less_irrefl)
  qed (simp add: live_def mset_insert_task)
  have f: "fresh_ok (?q @ ?w) (case ta_fresh_signature t of None \<Rightarrow> cr_fresh_tasks r |
      Some s \<Rightarrow> (s, ta_ptr t) # omap_erase s (cr_fresh_tasks r))"
    by (rule fresh_ok_add [OF b(2) _ fresh]) (simp add: q(2) held_def)
  have w: "waiters_ok (?q @ ?v) (cr_completions r) (cr_waiting r)"
    using b(4) by (auto simp: waiters_ok_def q(2) live_def)
  have eq: "?r = r\<lparr>cr_busy_keys := cr_busy_keys r \<union> set (ta_keys t),
      cr_fresh_tasks := (case ta_fresh_signature t of None \<Rightarrow> cr_fresh_tasks r |
        Some s \<Rightarrow> (s, ta_ptr t) # omap_erase s (cr_fresh_tasks r)), cr_queue := ?q\<rparr>"
    by (simp add: admit_task_def split: option.split)
  from k p f w q assms(1-3) show ?thesis
    unfolding eq rt_base_def by (simp add: held_def live_def list_all_iff)
qed

lemma releaseTaskLocked_frame [simp]:
  "cr_readers (releaseTaskLocked t r) = cr_readers r" "cr_installing (releaseTaskLocked t r) = cr_installing r"
  "cr_scheduled_plan_version (releaseTaskLocked t r) = cr_scheduled_plan_version r"
  "cr_limits (releaseTaskLocked t r) = cr_limits r" "cr_plan (releaseTaskLocked t r) = cr_plan r"
  "cr_queue (releaseTaskLocked t r) = cr_queue r" "cr_worker (releaseTaskLocked t r) = cr_worker r"
  "cr_shutdown (releaseTaskLocked t r) = cr_shutdown r" "cr_next_ptr (releaseTaskLocked t r) = cr_next_ptr r"
  "cr_next_due (releaseTaskLocked t r) = cr_next_due r" "cr_completions (releaseTaskLocked t r) = cr_completions r"
  "cr_waiting (releaseTaskLocked t r) = cr_waiting r"
  by (simp_all add: releaseTaskLocked_def Let_def split: option.split)

lemma releaseTaskLocked_shrinks:
  "cr_busy_keys (releaseTaskLocked t r) = cr_busy_keys r - set (ta_keys t)"
  "map_of (cr_fresh_tasks r) s = None \<Longrightarrow> map_of (cr_fresh_tasks (releaseTaskLocked t r)) s = None"
  by (auto simp: releaseTaskLocked_def Let_def split: option.split)

lemma setCompletion_frame [simp]:
  "cr_readers (setCompletion t st r) = cr_readers r" "cr_installing (setCompletion t st r) = cr_installing r"
  "cr_scheduled_plan_version (setCompletion t st r) = cr_scheduled_plan_version r"
  "cr_limits (setCompletion t st r) = cr_limits r" "cr_plan (setCompletion t st r) = cr_plan r"
  "cr_queue (setCompletion t st r) = cr_queue r" "cr_worker (setCompletion t st r) = cr_worker r"
  "cr_shutdown (setCompletion t st r) = cr_shutdown r" "cr_next_ptr (setCompletion t st r) = cr_next_ptr r"
  "cr_next_due (setCompletion t st r) = cr_next_due r" "cr_busy_keys (setCompletion t st r) = cr_busy_keys r"
  "cr_fresh_tasks (setCompletion t st r) = cr_fresh_tasks r" "cr_waiting (setCompletion t st r) = cr_waiting r"
  by (simp_all add: setCompletion_def)

lemma evict_task_frame [simp]:
  "cr_readers (evict_task r) = cr_readers r" "cr_installing (evict_task r) = cr_installing r"
  "cr_scheduled_plan_version (evict_task r) = cr_scheduled_plan_version r"
  "cr_limits (evict_task r) = cr_limits r" "cr_plan (evict_task r) = cr_plan r"
  "cr_queue (evict_task r) = butlast (cr_queue r)" "cr_worker (evict_task r) = cr_worker r"
  "cr_shutdown (evict_task r) = cr_shutdown r" "cr_next_ptr (evict_task r) = cr_next_ptr r"
  "cr_next_due (evict_task r) = cr_next_due r" "cr_waiting (evict_task r) = cr_waiting r"
  by (simp_all add: evict_task_def Let_def)

lemma admit_task_frame [simp]:
  "cr_readers (admit_task t r) = cr_readers r" "cr_installing (admit_task t r) = cr_installing r"
  "cr_scheduled_plan_version (admit_task t r) = cr_scheduled_plan_version r"
  "cr_limits (admit_task t r) = cr_limits r" "cr_plan (admit_task t r) = cr_plan r"
  "cr_queue (admit_task t r) = insert_task t (cr_queue r)" "cr_worker (admit_task t r) = cr_worker r"
  "cr_shutdown (admit_task t r) = cr_shutdown r" "cr_next_ptr (admit_task t r) = cr_next_ptr r"
  "cr_next_due (admit_task t r) = cr_next_due r" "cr_completions (admit_task t r) = cr_completions r"
  "cr_waiting (admit_task t r) = cr_waiting r"
  by (simp_all add: admit_task_def Let_def split: option.split)

lemma enqueueLocked_frame [simp]:
  "cr_limits (snd (enqueueLocked t r)) = cr_limits r" "cr_plan (snd (enqueueLocked t r)) = cr_plan r"
  "cr_shutdown (snd (enqueueLocked t r)) = cr_shutdown r" "cr_next_due (snd (enqueueLocked t r)) = cr_next_due r"
  "cr_next_ptr (snd (enqueueLocked t r)) = cr_next_ptr r" "cr_worker (snd (enqueueLocked t r)) = cr_worker r"
  "cr_scheduled_plan_version (snd (enqueueLocked t r)) = cr_scheduled_plan_version r"
  "cr_waiting (snd (enqueueLocked t r)) = cr_waiting r"
  "cr_readers (snd (enqueueLocked t r)) = cr_readers r" "cr_installing (snd (enqueueLocked t r)) = cr_installing r"
  by (simp_all add: enqueueLocked_def)

text \<open>The caller's side of \<open>enqueueLocked\<close>: a well-formed task with a new address.\<close>

definition task_new :: "collection_task \<Rightarrow> collection_runtime \<Rightarrow> bool" where
  "task_new t r \<longleftrightarrow> task_ok (cr_limits r) t \<and> ta_ptr t < cr_next_ptr r \<and> (\<forall>u \<in> set (live r). ta_ptr u < ta_ptr t) \<and>
     ta_ptr t \<notin> fst ` set (cr_completions r) \<and>
     (\<forall>s. ta_fresh_signature t = Some s \<longrightarrow> map_of (cr_fresh_tasks r) s = None)"

lemma task_new_evict:
  assumes "task_new t r" "cr_queue r \<noteq> []"
  shows "task_new t (evict_task r)"
proof -
  have "set (live (evict_task r)) \<subseteq> set (live r)" by (auto simp: live_def dest: in_set_butlastD)
  moreover have "ta_ptr (last (cr_queue r)) < ta_ptr t" using assms by (simp add: task_new_def live_def)
  ultimately show ?thesis
    using assms(1) by (auto simp: task_new_def evict_task_def Let_def releaseTaskLocked_shrinks setCompletion_def)
qed

lemma rt_base_enqueue:
  assumes "rt_base r" "task_new t r"
  shows "rt_base (snd (enqueueLocked t r))"
proof -
  have room: "length (cr_queue r) \<le> kl_max_provider_queue (cr_limits r)" using assms(1) by (simp add: rt_base_def)
  have admit: "rt_base (admit_task t s)" if "rt_base s" "task_new t s" "length (cr_queue s) < kl_max_provider_queue (cr_limits s)"
    "set (ta_keys t) \<inter> cr_busy_keys s = {}" for s
    using rt_base_admit [OF that(1) _ that(3,4)] that(2) by (simp add: task_new_def)
  have "rt_base (admit_task t (evict_task r))"
    if "cr_queue r \<noteq> []" "length (cr_queue r) = kl_max_provider_queue (cr_limits r)" "set (ta_keys t) \<inter> cr_busy_keys r = {}"
    using rt_base_evict [OF assms(1) that(1)] task_new_evict [OF assms(2) that(1)] that
    by (intro admit) (auto simp: evict_task_def Let_def releaseTaskLocked_shrinks simp flip: length_greater_0_conv)
  moreover have "set (ta_keys t) \<inter> cr_busy_keys r = {}" if "\<not> list_ex (\<lambda>k. k \<in> cr_busy_keys r) (ta_keys t)"
    using that by (auto simp: list_ex_iff)
  ultimately show ?thesis using assms room admit [OF assms] by (auto simp: enqueueLocked_def)
qed

lemma rt_base_update [simp]:
  "rt_base (r\<lparr>cr_next_request_id := n\<rparr>) = rt_base r"
  "rt_base (r\<lparr>cr_shutdown := b\<rparr>) = rt_base r"
  "rt_base (r\<lparr>cr_scheduled_plan_version := v\<rparr>) = rt_base r"
  "rt_base (r\<lparr>cr_scheduler_stop := b\<rparr>) = rt_base r"
  "rt_base (r\<lparr>cr_scheduler_running := b\<rparr>) = rt_base r"
  "rt_base (r\<lparr>cr_route_generation := g\<rparr>) = rt_base r"
  "rt_base (r\<lparr>cr_route_provider_id := i\<rparr>) = rt_base r"
  "rt_base (r\<lparr>cr_route_entity := e\<rparr>) = rt_base r"
  "rt_base (r\<lparr>cr_route_metrics := ms\<rparr>) = rt_base r"
  "rt_base (r\<lparr>cr_installing := pl\<rparr>) = rt_base r"
  by (simp_all add: rt_base_def held_def live_def)

lemma rt_base_due: "rt_base r \<Longrightarrow> omap_ok d \<Longrightarrow> rt_base (r\<lparr>cr_next_due := d\<rparr>)"
  by (simp add: rt_base_def held_def live_def)

lemma ptrs_ok_Suc: "ptrs_ok ts cs n \<Longrightarrow> ptrs_ok ts cs (Suc n)"
  by (simp add: ptrs_ok_def less_SucI)

lemma rt_base_ptr: "rt_base r \<Longrightarrow> rt_base (r\<lparr>cr_next_ptr := Suc (cr_next_ptr r)\<rparr>)"
  by (simp add: rt_base_def held_def live_def ptrs_ok_Suc)

text \<open>A task just allocated at the next address.\<close>

lemma task_new_fresh_ptr:
  assumes "rt_base r" "task_ok (cr_limits r) t" "ta_ptr t = cr_next_ptr r"
    and "\<forall>s. ta_fresh_signature t = Some s \<longrightarrow> map_of (cr_fresh_tasks r) s = None"
  shows "task_new t (r\<lparr>cr_next_ptr := Suc (cr_next_ptr r)\<rparr>)"
  using assms by (auto simp: task_new_def rt_base_def ptrs_ok_def live_def)

lemma job_task_ok:
  assumes "job_ok l job" "request_id \<noteq> 0"
  shows "task_ok l \<lparr>ta_ptr = p, ta_plan = plan, ta_job = job, ta_request = job_request plan job request_id scheduled deadline,
    ta_keys = job_keys job, ta_priority = jb_priority job, ta_fresh_signature = None, ta_completion = False\<rparr>"
proof -
  have "distinct (map pi_key (jb_items job))" using assms(1) by (simp add: job_ok_def strict_sorted_iff)
  then have inj: "inj_on pi_key (set (jb_items job))" and items: "distinct (jb_items job)" by (auto simp: distinct_map)
  have "inj_on (\<lambda>i. DataKey (wk_entity (pi_key i)) (wk_data_id (pi_key i))) (set (jb_items job))"
  proof (rule inj_onI)
    fix x y
    assume x: "x \<in> set (jb_items job)" and y: "y \<in> set (jb_items job)"
      and eq: "DataKey (wk_entity (pi_key x)) (wk_data_id (pi_key x)) = DataKey (wk_entity (pi_key y)) (wk_data_id (pi_key y))"
    from x y assms(1) eq have "pi_key x = pi_key y"
      by (cases "pi_key x", cases "pi_key y") (simp add: job_ok_def, metis effective_watch_key.sel)
    with inj x y show "x = y" by (simp add: inj_onD)
  qed
  with items assms show ?thesis
    by (simp add: task_ok_def job_ok_def job_keys_def job_request_def distinct_map comp_def)
qed

subsection \<open>Scheduling\<close>

lemma allocateRequestId_cases:
  obtains "allocateRequestId r = (0, r)"
  | "cr_next_request_id r \<noteq> 0" "allocateRequestId r = (cr_next_request_id r, r\<lparr>cr_next_request_id := cr_next_request_id r + 1\<rparr>)"
  by (cases "cr_next_request_id r = 0 \<or> cr_next_request_id r = u64_max") (simp_all add: allocateRequestId_def Let_def)

definition due_task :: "collection_plan \<Rightarrow> i64 \<Rightarrow> collection_job \<Rightarrow> u64 \<Rightarrow> collection_runtime \<Rightarrow> collection_task" where
  "due_task plan scheduled job request_id r =
     \<lparr>ta_ptr = cr_next_ptr r, ta_plan = plan, ta_job = job,
      ta_request = job_request plan job request_id scheduled (scheduled + deadline_window job),
      ta_keys = job_keys job, ta_priority = jb_priority job, ta_fresh_signature = None, ta_completion = False\<rparr>"

text \<open>The three ways an iteration ends.\<close>

lemma due_job_cases:
  fixes s :: due_state
  defines "r \<equiv> ds_runtime s"
  obtains (idle) "due_job plan now job s = s" "\<forall>due. map_of (cr_next_due r) (jb_id job) = Some due \<longrightarrow> now < due"
  | (no_id) due r' where "map_of (cr_next_due r) (jb_id job) = Some due" "due \<le> now" "fst (allocateRequestId r) = 0"
      "r' = r\<lparr>cr_next_due := omap_put (jb_id job) (due + jb_period job * ((now - due) div jb_period job + 1)) (cr_next_due r),
              cr_next_ptr := Suc (cr_next_ptr r)\<rparr>"
      "due_job plan now job s = s\<lparr>ds_summary := (ds_summary s)
         \<lparr>sr_missed_periods := sr_missed_periods (ds_summary s) + nat ((now - due) div jb_period job),
          sr_queue_rejections := sr_queue_rejections (ds_summary s) + 1\<rparr>,
         ds_results := ds_results s @ [\<lparr>lr_job = job, lr_first_scheduled_time = due, lr_sample_count = to_u64 ((now - due) div jb_period job + 1)\<rparr>],
         ds_runtime := r'\<rparr>"
  | (queued) due r' t res r'' where "map_of (cr_next_due r) (jb_id job) = Some due" "due \<le> now"
      "cr_next_request_id r \<noteq> 0"
      "r' = r\<lparr>cr_next_request_id := cr_next_request_id r + 1,
              cr_next_due := omap_put (jb_id job) (due + jb_period job * ((now - due) div jb_period job + 1)) (cr_next_due r),
              cr_next_ptr := Suc (cr_next_ptr r)\<rparr>"
      "t = due_task plan (due + jb_period job * ((now - due) div jb_period job)) job (cr_next_request_id r) r"
      "enqueueLocked t r' = (res, r'')"
      "ds_runtime (due_job plan now job s) = r''"
      "ds_results (due_job plan now job s) = ds_results s @
         (let n = (now - due) div jb_period job + (if res = ER_Accepted then 0 else 1)
          in if 0 < n \<or> res \<noteq> ER_Accepted
             then [\<lparr>lr_job = job, lr_first_scheduled_time = due, lr_sample_count = to_u64 n\<rparr>] else [])"
      "sr_missed_periods (ds_summary (due_job plan now job s)) =
         sr_missed_periods (ds_summary s) + nat ((now - due) div jb_period job)"
      "sr_enqueued_jobs (ds_summary (due_job plan now job s)) =
         sr_enqueued_jobs (ds_summary s) + (if res = ER_Accepted then 1 else 0)"
proof (cases "\<forall>due. map_of (cr_next_due r) (jb_id job) = Some due \<longrightarrow> now < due")
  case True
  then show thesis by (intro idle) (auto simp: due_job_def r_def Let_def split: option.split)
next
  case False
  then obtain due where due: "map_of (cr_next_due r) (jb_id job) = Some due" "due \<le> now" by auto
  let ?r1 = "r\<lparr>cr_next_due := omap_put (jb_id job) (due + jb_period job * ((now - due) div jb_period job + 1)) (cr_next_due r)\<rparr>"
  show thesis
  proof (cases rule: allocateRequestId_cases [of ?r1])
    case 1
    have id0: "fst (allocateRequestId r) = 0" using 1 by (auto simp: allocateRequestId_def Let_def split: if_splits)
    from 1 show thesis
      using due by (intro no_id [OF due id0 refl]) (simp add: due_job_def r_def Let_def)
  next
    case 2
    let ?t = "due_task plan (due + jb_period job * ((now - due) div jb_period job)) job (cr_next_request_id r) r"
    let ?r2 = "r\<lparr>cr_next_request_id := cr_next_request_id r + 1,
              cr_next_due := omap_put (jb_id job) (due + jb_period job * ((now - due) div jb_period job + 1)) (cr_next_due r),
              cr_next_ptr := Suc (cr_next_ptr r)\<rparr>"
    have alloc: "allocateRequestId ?r1 = (cr_next_request_id r,
        r\<lparr>cr_next_request_id := cr_next_request_id r + 1,
          cr_next_due := omap_put (jb_id job) (due + jb_period job * ((now - due) div jb_period job + 1)) (cr_next_due r)\<rparr>)"
      and id: "cr_next_request_id r \<noteq> 0"
      using 2 by simp_all
    obtain res r'' where enq: "enqueueLocked ?t ?r2 = (res, r'')" by force
    show thesis
      using due id alloc enq
      by (intro queued [OF due id refl refl enq]; cases res) (simp_all add: due_job_def due_task_def r_def Let_def)
  qed
qed

lemma rt_base_due_job:
  assumes "rt_base (ds_runtime s)" "job_ok (cr_limits (ds_runtime s)) job"
  shows "rt_base (ds_runtime (due_job plan now job s)) \<and> cr_limits (ds_runtime (due_job plan now job s)) = cr_limits (ds_runtime s) \<and>
    cr_plan (ds_runtime (due_job plan now job s)) = cr_plan (ds_runtime s) \<and>
    cr_shutdown (ds_runtime (due_job plan now job s)) = cr_shutdown (ds_runtime s) \<and>
    cr_scheduled_plan_version (ds_runtime (due_job plan now job s)) = cr_scheduled_plan_version (ds_runtime s) \<and>
    cr_readers (ds_runtime (due_job plan now job s)) = cr_readers (ds_runtime s) \<and>
    cr_installing (ds_runtime (due_job plan now job s)) = cr_installing (ds_runtime s)"
proof (cases rule: due_job_cases [of plan now job s])
  case (no_id due r')
  have "omap_ok (cr_next_due (ds_runtime s))" using assms(1) by (simp add: rt_base_def)
  with rt_base_ptr [OF rt_base_due [OF assms(1)]] no_id show ?thesis by simp
next
  case (queued due r' t res r'')
  have "omap_ok (cr_next_due (ds_runtime s))" using assms(1) by (simp add: rt_base_def)
  let ?r = "(ds_runtime s)\<lparr>cr_next_request_id := cr_next_request_id (ds_runtime s) + 1,
    cr_next_due := omap_put (jb_id job) (due + jb_period job * ((now - due) div jb_period job + 1)) (cr_next_due (ds_runtime s))\<rparr>"
  have r: "rt_base ?r"
    using assms(1) \<open>omap_ok _\<close> rt_base_due [of "(ds_runtime s)\<lparr>cr_next_request_id := cr_next_request_id (ds_runtime s) + 1\<rparr>"] by simp
  have "task_ok (cr_limits ?r) t"
    using job_task_ok [OF assms(2) queued(3)] by (simp add: queued(5) due_task_def)
  with task_new_fresh_ptr [OF r, of t] have "task_new t r'" by (simp add: queued(4,5) due_task_def)
  moreover have "rt_base r'" using rt_base_ptr [OF r] by (simp add: queued(4))
  ultimately have "rt_base r''" using rt_base_enqueue [of r' t] queued(6) by simp
  moreover have "cr_limits r'' = cr_limits r'" "cr_plan r'' = cr_plan r'" "cr_shutdown r'' = cr_shutdown r'"
    "cr_scheduled_plan_version r'' = cr_scheduled_plan_version r'" "cr_readers r'' = cr_readers r'"
    "cr_installing r'' = cr_installing r'"
    using enqueueLocked_frame [of t r'] queued(6) by simp_all
  ultimately show ?thesis using queued(4,7) by simp
qed (use assms in simp)

lemma rt_base_due_jobs:
  assumes "rt_base (ds_runtime s)" "list_all (job_ok (cr_limits (ds_runtime s))) jobs"
  shows "rt_base (ds_runtime (fold (due_job plan now) jobs s)) \<and>
    cr_plan (ds_runtime (fold (due_job plan now) jobs s)) = cr_plan (ds_runtime s) \<and>
    cr_shutdown (ds_runtime (fold (due_job plan now) jobs s)) = cr_shutdown (ds_runtime s) \<and>
    cr_scheduled_plan_version (ds_runtime (fold (due_job plan now) jobs s)) = cr_scheduled_plan_version (ds_runtime s) \<and>
    cr_readers (ds_runtime (fold (due_job plan now) jobs s)) = cr_readers (ds_runtime s) \<and>
    cr_installing (ds_runtime (fold (due_job plan now) jobs s)) = cr_installing (ds_runtime s)"
  using assms
proof (induction jobs arbitrary: s)
  case (Cons job jobs)
  then show ?case using rt_base_due_job [of s job plan now] Cons.IH [of "due_job plan now job s"] by simp
qed simp

subsection \<open>Due times\<close>

definition advance :: "i64 \<Rightarrow> i64 \<Rightarrow> i64 \<Rightarrow> i64" where
  "advance now period due = (if due \<le> now then due + period * ((now - due) div period + 1) else due)"

definition due_periods :: "i64 \<Rightarrow> (u64, i64) omap \<Rightarrow> collection_job \<Rightarrow> int" where
  "due_periods now dues job =
    (case map_of dues (jb_id job) of
       None \<Rightarrow> 0 | Some due \<Rightarrow> if due \<le> now then (now - due) div jb_period job + 1 else 0)"

definition noted :: "logical_result list \<Rightarrow> int" where
  "noted results = sum_list (map (\<lambda>x. uint (lr_sample_count x)) results)"

lemma due_job_due:
  assumes "omap_ok (cr_next_due (ds_runtime s))"
  shows "map_of (cr_next_due (ds_runtime (due_job plan now job s))) k =
    (if k = jb_id job then map_option (advance now (jb_period job)) (map_of (cr_next_due (ds_runtime s)) k)
     else map_of (cr_next_due (ds_runtime s)) k)"
proof (cases rule: due_job_cases [of plan now job s])
  case idle
  then show ?thesis by (cases "map_of (cr_next_due (ds_runtime s)) (jb_id job)") (auto simp: advance_def)
next
  case (no_id due r')
  then show ?thesis using assms by (simp add: map_of_omap_put advance_def)
next
  case (queued due r' t res r'')
  have "cr_next_due r'' = cr_next_due r'" using enqueueLocked_frame(4) [of t r'] queued(6) by simp
  with queued assms show ?thesis by (simp add: map_of_omap_put advance_def)
qed

lemma find_job_None: "k \<notin> jb_id ` set jobs \<Longrightarrow> find (\<lambda>j. jb_id j = k) jobs = None"
  by (auto simp: find_None_iff image_iff)

lemma due_jobs_due:
  assumes "rt_base (ds_runtime s)" "list_all (job_ok (cr_limits (ds_runtime s))) jobs" "distinct (map jb_id jobs)"
  shows "map_of (cr_next_due (ds_runtime (fold (due_job plan now) jobs s))) k =
    (case find (\<lambda>j. jb_id j = k) jobs of
       None \<Rightarrow> map_of (cr_next_due (ds_runtime s)) k
     | Some job \<Rightarrow> map_option (advance now (jb_period job)) (map_of (cr_next_due (ds_runtime s)) k))"
  using assms
proof (induction jobs arbitrary: s)
  case (Cons job jobs)
  let ?s = "due_job plan now job s"
  have step: "rt_base (ds_runtime ?s)" "cr_limits (ds_runtime ?s) = cr_limits (ds_runtime s)"
    using rt_base_due_job [of s job plan now] Cons.prems by simp_all
  have other: "find (\<lambda>j. jb_id j = k) jobs = None" if "k = jb_id job"
    using that Cons.prems(3) by (simp add: find_job_None)
  have "omap_ok (cr_next_due (ds_runtime s))" using Cons.prems(1) by (simp add: rt_base_def)
  from due_job_due [OF this, of plan now job k] Cons.IH [OF step(1)] Cons.prems step(2) other show ?case
    by (cases "k = jb_id job") (auto split: option.split)
qed simp

lemma advance_grid:
  assumes "0 < period"
  shows "now < advance now period due \<and> period dvd advance now period due - due \<and>
    (if due \<le> now then advance now period due \<le> now + period else advance now period due = due)"
proof -
  have "period * ((now - due) div period) + (now - due) mod period = now - due" by simp
  moreover have "0 \<le> (now - due) mod period" "(now - due) mod period < period" using assms by simp_all
  ultimately have "due + period * ((now - due) div period) \<le> now" "now < due + period * ((now - due) div period) + period"
    by linarith+
  then show ?thesis by (auto simp: advance_def distrib_left)
qed

lemma due_job_accounted:
  assumes "0 < jb_period job" "now < i64_max" "\<forall>due. map_of (cr_next_due (ds_runtime s)) (jb_id job) = Some due \<longrightarrow> 0 \<le> due"
  shows "int (sr_enqueued_jobs (ds_summary (due_job plan now job s))) + noted (ds_results (due_job plan now job s)) =
    int (sr_enqueued_jobs (ds_summary s)) + noted (ds_results s) + due_periods now (cr_next_due (ds_runtime s)) job"
proof -
  have count: "uint (to_u64 n) = n" if "due \<le> now" "0 \<le> due" "0 \<le> n" "n \<le> (now - due) div jb_period job + 1" for n due
  proof (rule uint_to_u64 [OF that(3)])
    have "(now - due) div jb_period job \<le> (now - due) div 1"
      using assms(1) that(1) by (intro zdiv_mono2) simp_all
    with that assms(2) show "n \<le> i64_max" by (simp only: div_by_1)
  qed
  have pos: "0 \<le> (now - due) div jb_period job" if "due \<le> now" for due
    using that assms(1) by (simp add: pos_imp_zdiv_nonneg_iff)
  show ?thesis
  proof (cases rule: due_job_cases [of plan now job s])
    case idle
    then show ?thesis by (auto simp: due_periods_def split: option.split)
  next
    case (no_id due r')
    then show ?thesis using count [of due] pos [of due] assms(3) by (simp add: due_periods_def noted_def)
  next
    case (queued due r' t res r'')
    then show ?thesis using count [of due] pos [of due] assms(3) by (simp add: due_periods_def noted_def Let_def)
  qed
qed

lemma due_jobs_accounted:
  assumes "rt_base (ds_runtime s)" "list_all (job_ok (cr_limits (ds_runtime s))) jobs" "distinct (map jb_id jobs)"
    and "now < i64_max"
    and "list_all (\<lambda>j. \<forall>due. map_of (cr_next_due (ds_runtime s)) (jb_id j) = Some due \<longrightarrow> 0 \<le> due) jobs"
  shows "int (sr_enqueued_jobs (ds_summary (fold (due_job plan now) jobs s))) + noted (ds_results (fold (due_job plan now) jobs s)) =
    int (sr_enqueued_jobs (ds_summary s)) + noted (ds_results s) +
    sum_list (map (due_periods now (cr_next_due (ds_runtime s))) jobs)"
  using assms
proof (induction jobs rule: rev_induct)
  case (snoc job jobs)
  let ?s = "fold (due_job plan now) jobs s"
  have "map_of (cr_next_due (ds_runtime ?s)) (jb_id job) = map_of (cr_next_due (ds_runtime s)) (jb_id job)"
    using due_jobs_due [OF snoc.prems(1), of jobs plan now "jb_id job"] snoc.prems(2,3) by (simp add: find_job_None)
  moreover have "0 \<le> due" if "map_of (cr_next_due (ds_runtime s)) (jb_id job) = Some due" for due
    using snoc.prems(5) that by simp
  moreover have "0 < jb_period job" using snoc.prems(2) by (simp add: job_ok_def)
  ultimately show ?case
    using due_job_accounted [of job now ?s plan] snoc by (simp add: due_periods_def)
qed simp

lemma find_job:
  "distinct (map jb_id jobs) \<Longrightarrow> job \<in> set jobs \<Longrightarrow> find (\<lambda>j. jb_id j = jb_id job) jobs = Some job"
  by (induction jobs) auto

lemma evict_forgets:
  assumes "rt_base r" "cr_queue r \<noteq> []" "t = last (cr_queue r)" "\<not> ta_completion t"
  shows "t \<in> set (live r)" "t \<notin> set (live (evict_task r))" "cr_completions (evict_task r) = cr_completions r"
    "ta_ptr t < cr_next_ptr r"
proof -
  have queue: "cr_queue r = butlast (cr_queue r) @ [t]" using assms(2,3) by simp
  have ptrs: "ptrs_ok (live r) (cr_completions r) (cr_next_ptr r)" using assms(1) by (simp add: rt_base_def)
  then have "distinct (live r)" by (simp add: ptrs_ok_def distinct_map)
  then have "distinct ((butlast (cr_queue r) @ [t]) @ worker_tasks (cr_worker r))" by (metis queue live_def)
  then show "t \<notin> set (live (evict_task r))" by (auto simp: live_def)
  show live: "t \<in> set (live r)" using assms(2,3) by (simp add: live_def)
  then show "ta_ptr t < cr_next_ptr r" using ptrs by (simp add: ptrs_ok_def)
  show "cr_completions (evict_task r) = cr_completions r"
    using assms(3,4) by (simp add: evict_task_def setCompletion_def Let_def)
qed

lemma map_of_emplaced_due:
  assumes "omap_ok m" "distinct (map jb_id jobs)" "\<forall>j \<in> set jobs. map_of m (jb_id j) = None" "job \<in> set jobs"
  shows "map_of (fold (\<lambda>j. omap_emplace (jb_id j) (t + jb_period j)) jobs m) (jb_id job) = Some (t + jb_period job)"
proof -
  have other: "map_of (fold (\<lambda>j. omap_emplace (jb_id j) (t + jb_period j)) js m) k = map_of m k"
    if "omap_ok m" "k \<notin> jb_id ` set js" for js k and m :: "(u64, i64) omap"
    using that by (induction js arbitrary: m) (auto simp: map_of_omap_emplace)
  show ?thesis using assms
  proof (induction jobs arbitrary: m)
    case (Cons j jobs)
    let ?m = "omap_emplace (jb_id j) (t + jb_period j) m"
    have m: "omap_ok ?m" "map_of ?m (jb_id j) = Some (t + jb_period j)" "\<forall>i \<in> set jobs. map_of ?m (jb_id i) = None"
      using Cons.prems(1-3) by (auto simp: map_of_omap_emplace dest: sym)
    show ?case
    proof (cases "job = j")
      case True
      then show ?thesis using other [OF m(1), of "jb_id j" jobs] Cons.prems(2) m(2) by simp
    next
      case False
      then show ?thesis using Cons.IH [OF m(1) _ m(3)] Cons.prems(2,4) by simp
    qed
  qed simp
qed

lemma map_of_install_due:
  "distinct (map jb_id (pl_jobs plan)) \<Longrightarrow> job \<in> set (pl_jobs plan) \<Longrightarrow>
   map_of (install_due plan) (jb_id job) = Some (pl_created_at plan + jb_period job)"
  unfolding install_due_def by (rule map_of_emplaced_due) simp_all

lemma on_grid_install: "distinct (map jb_id (pl_jobs plan)) \<Longrightarrow> on_grid plan (install_due plan)"
  unfolding on_grid_def by (intro ballI exI [of _ 1]) (simp add: map_of_install_due)

lemma on_grid_advance:
  assumes "on_grid plan dues" "plan_ok l plan"
    and "\<And>job. job \<in> set (pl_jobs plan) \<Longrightarrow>
      map_of dues' (jb_id job) = map_option (advance now (jb_period job)) (map_of dues (jb_id job))"
  shows "on_grid plan dues'"
  unfolding on_grid_def
proof
  fix job assume job: "job \<in> set (pl_jobs plan)"
  then obtain k where k: "1 \<le> k" "map_of dues (jb_id job) = Some (pl_created_at plan + k * jb_period job)"
    using assms(1) by (auto simp: on_grid_def)
  let ?due = "pl_created_at plan + k * jb_period job"
  let ?n = "if ?due \<le> now then (now - ?due) div jb_period job + 1 else 0"
  have "0 < jb_period job" using assms(2) job by (auto simp: plan_ok_def list_all_iff job_ok_def)
  then have "0 \<le> ?n" by (simp add: pos_imp_zdiv_nonneg_iff)
  moreover have "advance now (jb_period job) ?due = pl_created_at plan + (k + ?n) * jb_period job"
    by (simp add: advance_def algebra_simps)
  ultimately show "\<exists>k \<ge> 1. map_of dues' (jb_id job) = Some (pl_created_at plan + k * jb_period job)"
    using k assms(3) [OF job] by (intro exI [of _ "k + ?n"]) simp
qed

lemma sched_ok_current:
  "sched_ok plans newest (pl_version plan) dues \<Longrightarrow> plan \<in> set plans \<Longrightarrow> on_grid plan dues"
  by (auto simp: sched_ok_def)

lemma sched_ok_dues:
  "sched_ok plans newest v dues \<Longrightarrow> plan \<in> set plans \<Longrightarrow> on_grid plan dues' \<Longrightarrow>
   sched_ok plans newest (pl_version plan) dues'"
  by (auto simp: sched_ok_def)

lemma sched_ok_subset: "sched_ok plans newest v dues \<Longrightarrow> set plans' \<subseteq> set plans \<Longrightarrow> sched_ok plans' newest v dues"
  unfolding sched_ok_def by blast

lemma sched_ok_publish:
  assumes "sched_ok plans newest v dues" "newest < pl_version plan"
  shows "sched_ok (plan # plans) (pl_version plan) v dues"
proof -
  obtain P where P: "\<forall>p \<in> set plans. P (pl_version p) = p \<and> pl_version p \<le> newest" "v \<le> newest" "on_grid (P v) dues"
    using assms(1) by (auto simp: sched_ok_def)
  have "\<forall>p \<in> set (plan # plans). (P(pl_version plan := plan)) (pl_version p) = p \<and> pl_version p \<le> pl_version plan"
    using P(1) assms(2) by fastforce
  moreover have "v \<noteq> pl_version plan" "v \<le> pl_version plan" using P(2) assms(2) by auto
  ultimately show ?thesis unfolding sched_ok_def using P(3) by (intro exI [of _ "P(pl_version plan := plan)"]) simp
qed

text \<open>The due times a run of the scheduler with the plan \<open>plan\<close> starts from.\<close>

definition scheduled_dues :: "collection_plan \<Rightarrow> collection_runtime \<Rightarrow> (u64, i64) omap" where
  "scheduled_dues plan r = (if cr_scheduled_plan_version r \<noteq> pl_version plan then install_due plan else cr_next_due r)"

lemma install_due_ok: "omap_ok (install_due plan)"
proof -
  have "omap_ok m \<Longrightarrow> omap_ok (fold (\<lambda>job. omap_emplace (jb_id job) (pl_created_at plan + jb_period job)) jobs m)" for jobs m
    by (induction jobs arbitrary: m) simp_all
  from this [of "[]" "pl_jobs plan"] show ?thesis by (simp add: install_due_def)
qed

lemma rt_base_install: "rt_base r \<Longrightarrow> rt_base (installPlan plan r)"
  using rt_base_due [of "r\<lparr>cr_scheduled_plan_version := pl_version plan\<rparr>" "install_due plan"] install_due_ok
  by (simp add: installPlan_def)

lemma due_jobs_eq:
  "due_jobs plan now r = fold (due_job plan now) (pl_jobs plan) \<lparr>ds_summary = empty_summary, ds_results = [],
     ds_runtime = r\<lparr>cr_scheduled_plan_version := pl_version plan, cr_next_due := scheduled_dues plan r\<rparr>\<rparr>"
proof (cases "cr_scheduled_plan_version r = pl_version plan")
  case True
  have "r\<lparr>cr_scheduled_plan_version := pl_version plan, cr_next_due := scheduled_dues plan r\<rparr> = r"
    by (rule collection_runtime.equality) (simp_all add: True scheduled_dues_def)
  then show ?thesis using True by (simp only: due_jobs_def Let_def if_False simp_thms)
qed (simp add: due_jobs_def scheduled_dues_def installPlan_def Let_def)

lemma known_plan_ok: "rt_inv r \<Longrightarrow> plan \<in> set (known_plans r) \<Longrightarrow> plan_ok (cr_limits r) plan"
  by (auto simp: rt_inv_def rt_base_def list_all_iff)

lemma scheduled_on_grid:
  assumes "rt_inv r" "plan \<in> set (known_plans r)"
  shows "on_grid plan (scheduled_dues plan r)"
  using assms known_plan_ok [OF assms]
  by (auto simp: scheduled_dues_def rt_inv_def plan_ok_def intro: on_grid_install sched_ok_current)

lemma scheduled_start:
  assumes "rt_inv r" "plan \<in> set (known_plans r)"
    and "s = \<lparr>ds_summary = empty_summary, ds_results = [],
      ds_runtime = r\<lparr>cr_scheduled_plan_version := pl_version plan, cr_next_due := scheduled_dues plan r\<rparr>\<rparr>"
  shows "rt_base (ds_runtime s)" "list_all (job_ok (cr_limits (ds_runtime s))) (pl_jobs plan)"
    "distinct (map jb_id (pl_jobs plan))"
proof -
  have "rt_base r" "omap_ok (cr_next_due r)" using assms(1) by (auto simp: rt_inv_def rt_base_def)
  then show "rt_base (ds_runtime s)"
    using rt_base_due [of "r\<lparr>cr_scheduled_plan_version := pl_version plan\<rparr>" "scheduled_dues plan r"] install_due_ok
    by (simp add: assms(3) scheduled_dues_def)
  show "list_all (job_ok (cr_limits (ds_runtime s))) (pl_jobs plan)" "distinct (map jb_id (pl_jobs plan))"
    using known_plan_ok [OF assms(1,2)] by (simp_all add: plan_ok_def assms(3))
qed

lemma runDue_due:
  assumes "rt_inv r" "plan \<in> set (known_plans r)" "0 \<le> now" "\<not> cr_shutdown r" "job \<in> set (pl_jobs plan)"
  shows "map_of (cr_next_due (snd (runDue plan now r))) (jb_id job) =
    map_option (advance now (jb_period job)) (map_of (scheduled_dues plan r) (jb_id job))"
proof -
  note start = scheduled_start [OF assms(1,2) refl]
  have "find (\<lambda>j. jb_id j = jb_id job) (pl_jobs plan) = Some job" by (rule find_job [OF start(3) assms(5)])
  with due_jobs_due [OF start, of plan now "jb_id job"] assms(3,4) show ?thesis
    by (simp add: runDue_def due_jobs_eq Let_def)
qed

lemma rt_inv_runDue:
  assumes "rt_inv r" "plan \<in> set (known_plans r)"
  shows "rt_inv (snd (runDue plan now r))"
proof (cases "now < 0 \<or> cr_shutdown r")
  case False
  let ?r = "snd (runDue plan now r)"
  have "?r = ds_runtime (due_jobs plan now r)" using False by (simp add: runDue_def Let_def)
  then have frame: "rt_base ?r" "cr_plan ?r = cr_plan r" "\<not> cr_shutdown ?r" "cr_readers ?r = cr_readers r"
    "cr_installing ?r = cr_installing r" "cr_scheduled_plan_version ?r = pl_version plan"
    using rt_base_due_jobs [OF scheduled_start(1,2) [OF assms refl], of plan now] False by (simp_all add: due_jobs_eq)
  have "on_grid plan (cr_next_due ?r)"
    by (rule on_grid_advance [OF scheduled_on_grid [OF assms] known_plan_ok [OF assms]])
      (use runDue_due [OF assms] False in simp)
  moreover have "sched_ok (known_plans r) (pl_version (cr_plan r)) (cr_scheduled_plan_version r) (cr_next_due r)"
    using assms(1) by (simp add: rt_inv_def)
  ultimately show ?thesis
    using sched_ok_dues [OF _ assms(2)] frame assms(1) unfolding rt_inv_def by metis
qed (use assms in \<open>auto simp: runDue_def\<close>)

subsection \<open>Fresh reads, worker and shutdown\<close>

lemma fresh_task_ok:
  assumes "keys \<noteq> []" "distinct keys" "length keys \<le> kl_max_batch_items (cr_limits r)" "request_id \<noteq> 0"
  shows "task_ok (cr_limits r) (fresh_task keys generation deadline now request_id m r')"
  using assms by (simp add: task_ok_def fresh_task_def Let_def comp_def)

lemma rt_base_await:
  assumes "rt_base r" "cr_fresh_waiters r < kl_max_fresh_waiters (cr_limits r)"
    and "(\<exists>t \<in> set (live r). ta_ptr t = p \<and> ta_completion t) \<or> p \<in> fst ` set (cr_completions r)"
  shows "rt_base (await_task p r)"
  using assms by (simp add: rt_base_def await_task_def held_def live_def waiters_ok_def)

lemma enqueue_accepted_live:
  assumes "enqueueLocked t r = (ER_Accepted, r')"
  shows "t \<in> set (live r') \<and> cr_fresh_waiters r' = cr_fresh_waiters r"
proof -
  have "r' = admit_task t r \<or> r' = admit_task t (evict_task r)" using assms by (auto simp: enqueueLocked_def split: if_splits)
  moreover have "t \<in> set (insert_task t q)" for q by (simp add: insert_task_def Let_def)
  moreover have "cr_fresh_waiters (admit_task t s) = cr_fresh_waiters s" "cr_fresh_waiters (evict_task s) = cr_fresh_waiters s" for s
    by (simp_all add: admit_task_def evict_task_def setCompletion_def releaseTaskLocked_def Let_def split: option.split)
  ultimately show ?thesis by (auto simp: live_def)
qed

lemma rt_base_fresh_enqueue:
  assumes r: "rt_base r" and keys: "keys \<noteq> []" "distinct keys" "length keys \<le> kl_max_batch_items (cr_limits r)"
    and none: "map_of (cr_fresh_tasks r) (FreshSignature generation keys) = None"
    and room: "cr_fresh_waiters r < kl_max_fresh_waiters (cr_limits r)"
  shows "rt_base (snd (fresh_enqueue keys generation deadline now m r)) \<and>
    cr_shutdown (snd (fresh_enqueue keys generation deadline now m r)) = cr_shutdown r \<and>
    cr_plan (snd (fresh_enqueue keys generation deadline now m r)) = cr_plan r \<and>
    cr_scheduled_plan_version (snd (fresh_enqueue keys generation deadline now m r)) = cr_scheduled_plan_version r \<and>
    cr_readers (snd (fresh_enqueue keys generation deadline now m r)) = cr_readers r \<and>
    cr_installing (snd (fresh_enqueue keys generation deadline now m r)) = cr_installing r \<and>
    cr_next_due (snd (fresh_enqueue keys generation deadline now m r)) = cr_next_due r"
proof (cases rule: allocateRequestId_cases [of r])
  case 1
  then show ?thesis using rt_base_ptr [OF r] by (simp add: fresh_enqueue_def Let_def)
next
  case 2
  let ?r = "r\<lparr>cr_next_request_id := cr_next_request_id r + 1\<rparr>"
  let ?t = "fresh_task keys generation deadline now (cr_next_request_id r) m ?r"
  let ?r' = "?r\<lparr>cr_next_ptr := Suc (cr_next_ptr ?r)\<rparr>"
  have sig: "ta_fresh_signature ?t = Some (FreshSignature generation keys)" "ta_ptr ?t = cr_next_ptr ?r" "ta_completion ?t"
    by (simp_all add: fresh_task_def Let_def)
  have ok: "task_ok (cr_limits ?r) ?t" using fresh_task_ok [OF keys 2(1)] by simp
  have b: "rt_base ?r" using r by simp
  have new: "task_new ?t ?r'" by (rule task_new_fresh_ptr [OF b ok sig(2)]) (simp add: sig(1) none)
  obtain res r'' where enq: "enqueueLocked ?t ?r' = (res, r'')" by force
  have r'': "rt_base r''" using rt_base_enqueue [OF rt_base_ptr [OF b] new] enq by simp
  have frame: "cr_limits r'' = cr_limits r" "cr_plan r'' = cr_plan r" "cr_shutdown r'' = cr_shutdown r"
    "cr_scheduled_plan_version r'' = cr_scheduled_plan_version r" "cr_readers r'' = cr_readers r"
    "cr_installing r'' = cr_installing r" "cr_next_due r'' = cr_next_due r"
    using enqueueLocked_frame [of ?t ?r'] unfolding enq by simp_all
  show ?thesis
  proof (cases "res = ER_Accepted")
    case True
    then have "?t \<in> set (live r'')" "cr_fresh_waiters r'' = cr_fresh_waiters r" using enqueue_accepted_live [of ?t ?r' r''] enq by simp_all
    then have "rt_base (await_task (ta_ptr ?t) r'')" using r'' frame room sig(3) by (intro rt_base_await) auto
    then show ?thesis using True 2 enq frame by (simp add: fresh_enqueue_def Let_def await_task_def)
  next
    case False
    then show ?thesis using 2 enq r'' frame by (simp add: fresh_enqueue_def Let_def)
  qed
qed

lemma lock_task_fresh:
  assumes "rt_base r" "map_of (cr_fresh_tasks r) s = Some p"
  obtains t where "lock_task p r = Some t" "t \<in> set (live r)" "ta_ptr t = p" "ta_completion t"
proof -
  have fresh: "fresh_ok (held r) (cr_fresh_tasks r)" and tasks: "list_all (task_ok (cr_limits r)) (live r)"
    and ptrs: "distinct (map ta_ptr (live r))"
    using assms(1) by (auto simp: rt_base_def ptrs_ok_def)
  obtain t where t: "t \<in> set (held r)" "ta_ptr t = p" "ta_fresh_signature t = Some s"
    using fresh assms(2) by (auto simp: fresh_ok_def)
  then have live: "t \<in> set (live r)" using held_live by blast
  have "lock_task p r \<noteq> None" using live t(2) by (auto simp: lock_task_def find_None_iff live_def)
  then obtain u where u: "lock_task p r = Some u" "u \<in> set (live r)" "ta_ptr u = p"
    unfolding lock_task_def live_def using find_Some_iff [of "\<lambda>t. ta_ptr t = p"] nth_mem by (metis option.exhaust)
  have "inj_on ta_ptr (set (live r))" using ptrs by (simp add: distinct_map)
  then have "u = t" by (rule inj_onD) (use u live t(2) in simp_all)
  moreover have "ta_completion t" using tasks live t(3) by (auto simp: list_all_iff task_ok_def)
  ultimately show thesis using u by (intro that [of t]) simp_all
qed

lemma freshRead_check_elim:
  assumes "freshRead_check keys generation deadline now m r = SUCCESS"
  shows "sort keys \<noteq> []" "distinct (sort keys)" "length (sort keys) \<le> kl_max_batch_items (cr_limits r)"
    "\<not> cr_shutdown r" "cr_fresh_waiters r \<noteq> kl_max_fresh_waiters (cr_limits r)"
  using assms by (auto simp: freshRead_check_def split: if_splits)

lemma rt_inv_fresh:
  assumes "rt_inv r"
  shows "rt_inv (snd (freshRead_begin keys generation deadline now1 now2 m r))"
proof -
  let ?call = "freshRead_begin keys generation deadline now1 now2 m r"
  have r: "rt_base r" using assms by (simp add: rt_inv_def)
  show ?thesis
  proof (cases "freshRead_check keys generation deadline now1 m r = SUCCESS")
    case True
    note check = freshRead_check_elim [OF this]
    have room: "cr_fresh_waiters r < kl_max_fresh_waiters (cr_limits r)" using check(5) r by (simp add: rt_base_def)
    show ?thesis
    proof (cases "map_of (cr_fresh_tasks r) (FreshSignature generation (sort keys))")
      case None
      with True have "?call = fresh_enqueue (sort keys) generation deadline now2 m r" by (simp add: freshRead_begin_def Let_def)
      with rt_base_fresh_enqueue [OF r check(1-3) None room] check(4) assms show ?thesis by (simp add: rt_inv_def)
    next
      case (Some p)
      obtain t where t: "lock_task p r = Some t" "t \<in> set (live r)" "ta_ptr t = p" "ta_completion t"
        by (rule lock_task_fresh [OF r Some]) (rule that)
      then have "rt_base (await_task p r)" using r room by (intro rt_base_await) auto
      with True Some t(1) assms check(4) show ?thesis
        by (simp add: freshRead_begin_def Let_def rt_inv_def await_task_def)
    qed
  qed (use assms in \<open>simp add: freshRead_begin_def Let_def\<close>)
qed

lemma waiters_ok_subset: "waiters_ok ts cs w \<Longrightarrow> set v \<subseteq> set w \<Longrightarrow> waiters_ok ts cs v"
  by (auto simp: waiters_ok_def)

lemma rt_inv_answer:
  assumes r: "rt_inv r" and p: "p \<in> set (cr_waiting r)"
  shows "rt_inv (snd (freshRead_end p r))"
proof -
  have "waiters_ok (live r) (cr_completions r) (cr_waiting r)" using r by (simp add: rt_inv_def rt_base_def)
  from waiters_ok_subset [OF this set_remove1_subset]
  have "waiters_ok (live r) (cr_completions r) (remove1 p (cr_waiting r))" .
  moreover have "length (remove1 p (cr_waiting r)) = length (cr_waiting r) - 1" "1 \<le> length (cr_waiting r)"
    "length (cr_waiting r) - 1 \<le> kl_max_fresh_waiters (cr_limits r)"
    using p r length_pos_if_in_set [OF p] by (auto simp: length_remove1 rt_inv_def rt_base_def Suc_le_eq)
  ultimately show ?thesis
    using r by (simp add: rt_inv_def rt_base_def freshRead_end_def held_def live_def)
qed

lemma rt_inv_take:
  assumes "rt_inv r"
  shows "rt_inv (worker_take r)"
proof (cases "cr_worker r = WS_Idle \<and> cr_queue r \<noteq> []")
  case True
  then obtain t queue where q: "cr_worker r = WS_Idle" "cr_queue r = t # queue" by (cases "cr_queue r") auto
  have perm: "mset (queue @ [t]) = mset (t # queue)" by simp
  have b: "keys_ok (queue @ [t]) (cr_busy_keys r)" "fresh_ok (queue @ [t]) (cr_fresh_tasks r)"
    "ptrs_ok (queue @ [t]) (cr_completions r) (cr_next_ptr r)" "waiters_ok (queue @ [t]) (cr_completions r) (cr_waiting r)"
    unfolding keys_ok_perm [OF perm] ptrs_ok_perm [OF perm]
    using assms q by (simp_all add: rt_inv_def rt_base_def held_def live_def worker_tasks_def fresh_ok_def waiters_ok_def disj_commute)
  with assms q show ?thesis
    by (simp add: worker_take_def rt_inv_def rt_base_def held_def live_def worker_tasks_def)
next
  case False
  then have "worker_take r = r" by (auto simp: worker_take_def split: worker_state.split list.split)
  with assms show ?thesis by simp
qed

lemma rt_inv_release:
  assumes "rt_inv r"
  shows "rt_inv (worker_release st r)"
proof (cases "cr_worker r")
  case (WS_Running t)
  let ?r = "r\<lparr>cr_provider_in_flight := szsub (cr_provider_in_flight r) 1, cr_worker := WS_Releasing t st\<rparr>"
  have b: "keys_ok (cr_queue r @ t # []) (cr_busy_keys r)" "fresh_ok (cr_queue r @ t # []) (cr_fresh_tasks r)"
    "distinct (map ta_ptr (cr_queue r @ t # []))"
    using assms WS_Running by (simp_all add: rt_inv_def rt_base_def held_def live_def worker_tasks_def ptrs_ok_def)
  note parts = keys_ok_remove [OF b(1)] fresh_ok_remove [OF b(2,3)]
  have "releaseTaskLocked t ?r = ?r\<lparr>cr_busy_keys := cr_busy_keys r - set (ta_keys t),
      cr_fresh_tasks := (case ta_fresh_signature t of None \<Rightarrow> cr_fresh_tasks r | Some s \<Rightarrow> omap_erase s (cr_fresh_tasks r))\<rparr>"
    using releaseTaskLocked_eq [of "cr_queue r @ [t]" ?r t] b(2) by (cases "ta_fresh_signature t") simp_all
  with parts assms WS_Running show ?thesis
    by (simp add: worker_release_def rt_inv_def rt_base_def held_def live_def worker_tasks_def)
qed (use assms in \<open>simp_all add: worker_release_def\<close>)

lemma rt_inv_complete:
  assumes "rt_inv r"
  shows "rt_inv (worker_complete r)"
proof (cases "cr_worker r")
  case (WS_Releasing t st)
  have b: "ptrs_ok (cr_queue r @ t # []) (cr_completions r) (cr_next_ptr r)"
    "waiters_ok (cr_queue r @ t # []) (cr_completions r) (cr_waiting r)"
    using assms WS_Releasing by (simp_all add: rt_inv_def rt_base_def live_def worker_tasks_def)
  from ptrs_ok_remove [OF b(1), of st] waiters_ok_remove [OF b, of st] assms WS_Releasing show ?thesis
    by (cases "ta_completion t")
      (simp_all add: worker_complete_def setCompletion_def rt_inv_def rt_base_def held_def live_def worker_tasks_def)
qed (use assms in \<open>simp_all add: worker_complete_def\<close>)

lemma stopScheduler_frame [simp]:
  "cr_readers (stopScheduler r) = cr_readers r" "cr_installing (stopScheduler r) = cr_installing r"
  "rt_base (stopScheduler r) = rt_base r" "cr_queue (stopScheduler r) = cr_queue r"
  "cr_shutdown (stopScheduler r) = cr_shutdown r" "cr_worker (stopScheduler r) = cr_worker r"
  "cr_next_due (stopScheduler r) = cr_next_due r"
  "cr_plan (stopScheduler r) = cr_plan r" "cr_waiting (stopScheduler r) = cr_waiting r"
  "cr_scheduled_plan_version (stopScheduler r) = cr_scheduled_plan_version r"
  by (simp_all add: stopScheduler_def)

lemma cancel_all:
  assumes "rt_base r" "cr_queue r = queue"
  shows "rt_base (cancel_queue queue r) \<and>
    cr_queue (cancel_queue queue r) = [] \<and>
    cr_worker (cancel_queue queue r) = cr_worker r \<and>
    cr_shutdown (cancel_queue queue r) = cr_shutdown r \<and> cr_plan (cancel_queue queue r) = cr_plan r \<and>
    cr_scheduled_plan_version (cancel_queue queue r) = cr_scheduled_plan_version r \<and>
    cr_waiting (cancel_queue queue r) = cr_waiting r \<and> cr_readers (cancel_queue queue r) = cr_readers r \<and>
    cr_installing (cancel_queue queue r) = cr_installing r \<and> cr_next_due (cancel_queue queue r) = cr_next_due r"
  using assms
proof (induction queue arbitrary: r)
  case (Cons t queue)
  let ?r = "cancel_task t (r\<lparr>cr_queue := tl (cr_queue r)\<rparr>)"
  have "rt_base ?r" using rt_base_cancel [OF Cons.prems(1), of "[]" t queue] Cons.prems(2) by (simp add: cancel_task_def)
  moreover have "cr_queue ?r = queue" "cr_worker ?r = cr_worker r" "cr_shutdown ?r = cr_shutdown r" "cr_plan ?r = cr_plan r"
    "cr_scheduled_plan_version ?r = cr_scheduled_plan_version r" "cr_waiting ?r = cr_waiting r"
    "cr_readers ?r = cr_readers r" "cr_installing ?r = cr_installing r" "cr_next_due ?r = cr_next_due r"
    using Cons.prems(2) by (simp_all add: cancel_task_def)
  ultimately show ?case using Cons.IH [of ?r] by (simp add: cancel_queue_def)
qed (simp add: cancel_queue_def)

lemma shutdownAll_spec:
  assumes "rt_base r"
  shows "rt_base (shutdownAll r)" "cr_queue (shutdownAll r) = []" "cr_shutdown (shutdownAll r)"
    "cr_worker (shutdownAll r) = cr_worker r" "cr_plan (shutdownAll r) = cr_plan r"
    "cr_scheduled_plan_version (shutdownAll r) = cr_scheduled_plan_version r" "cr_waiting (shutdownAll r) = cr_waiting r"
    "cr_readers (shutdownAll r) = cr_readers r" "cr_installing (shutdownAll r) = cr_installing r"
    "cr_next_due (shutdownAll r) = cr_next_due r"
  using cancel_all [of "(stopScheduler r)\<lparr>cr_shutdown := True\<rparr>" "cr_queue r"] assms
  by (simp_all add: shutdownAll_def Let_def)

section \<open>Executions\<close>

datatype runtime_op =
    RT_publish i64 "watch_snapshot option" data_manager
  | RT_install
  | RT_activate "catalog_view option" data_manager
  | RT_request
  | RT_readPlan
  | RT_runDue nat i64
  | RT_fresh "data_key list" u64 i64 i64 i64 data_manager
  | RT_answer nat
  | RT_take
  | RT_release pdcm_status
  | RT_complete
  | RT_startScheduler
  | RT_stopScheduler
  | RT_shutdown

text \<open>
  A publication waits while another call holds \<open>plan_writer_mutex_\<close>. \<open>RT_runDue i now\<close> is the
  locked part of the \<open>i\<close>-th call of \<open>runDue\<close> in progress.
\<close>

fun rt_step :: "runtime_op \<Rightarrow> collection_runtime \<Rightarrow> collection_runtime" where
  "rt_step (RT_publish now watches m) r =
     (if cr_installing r = None then snd (publishPlan now watches m r) else r)"
| "rt_step RT_install r = installPublished r"
| "rt_step (RT_activate catalog m) r = snd (activateRoutes catalog m r)"
| "rt_step RT_request r = snd (allocateRequestId r)"
| "rt_step RT_readPlan r = r\<lparr>cr_readers := cr_readers r @ [cr_plan r]\<rparr>"
| "rt_step (RT_runDue i now) r =
     (if i < length (cr_readers r)
      then (snd (runDue (cr_readers r ! i) now r))\<lparr>cr_readers := take i (cr_readers r) @ drop (Suc i) (cr_readers r)\<rparr>
      else r)"
| "rt_step (RT_fresh keys generation deadline now1 now2 m) r =
     snd (freshRead_begin keys generation deadline now1 now2 m r)"
| "rt_step (RT_answer p) r = (if p \<in> set (cr_waiting r) then snd (freshRead_end p r) else r)"
| "rt_step RT_take r = worker_take r"
| "rt_step (RT_release st) r = worker_release st r"
| "rt_step RT_complete r = worker_complete r"
| "rt_step RT_startScheduler r = snd (startScheduler r)"
| "rt_step RT_stopScheduler r = stopScheduler r"
| "rt_step RT_shutdown r = shutdownAll r"

lemma compiled_plan_ok:
  assumes "CollectionLimits_validate l = SUCCESS" "compile_plan l now watches m = Inr plan"
  shows "plan_ok l plan"
proof -
  obtain ws where "watches = Some ws" using assms(2) by (cases watches) (auto simp: compile_plan_def)
  then have plan: "list_all (job_ok l) (pl_jobs plan)"
    "map (\<lambda>j. unat (jb_id j)) (pl_jobs plan) = [1 ..< Suc (length (pl_jobs plan))]"
    using compiled_plan [OF assms(1)] assms(2) by auto
  then have "distinct (map unat (map jb_id (pl_jobs plan)))" by (simp add: comp_def)
  then have "distinct (map jb_id (pl_jobs plan))" using distinct_map by blast
  with plan(1) show ?thesis by (simp add: plan_ok_def)
qed

lemma rt_inv_publish:
  assumes "rt_inv r" "cr_installing r = None"
  shows "rt_inv (snd (publishPlan now watches m r))"
proof (cases "compile_plan (cr_limits r) now watches m")
  case (Inr plan)
  show ?thesis
  proof (cases "pl_version (cr_plan r) = u64_max")
    case False
    let ?plan = "plan\<lparr>pl_version := pl_version (cr_plan r) + 1\<rparr>"
    let ?r = "r\<lparr>cr_plan := ?plan, cr_installing := Some ?plan\<rparr>"
    have r: "rt_base r" "CollectionLimits_validate (cr_limits r) = SUCCESS"
      "sched_ok (known_plans r) (pl_version (cr_plan r)) (cr_scheduled_plan_version r) (cr_next_due r)"
      using assms by (auto simp: rt_inv_def rt_base_def)
    have "plan_ok (cr_limits r) ?plan" using compiled_plan_ok [OF r(2) Inr] by (simp add: plan_ok_def)
    then have "rt_base ?r" using r(1) by (simp add: rt_base_def held_def live_def)
    moreover have "sched_ok (known_plans ?r) (pl_version ?plan) (cr_scheduled_plan_version r) (cr_next_due r)"
      using sched_ok_subset [OF sched_ok_publish [OF r(3)], of ?plan "?plan # cr_readers r"] less_inc [OF False] by auto
    ultimately have "rt_inv ?r" using assms(1) by (simp add: rt_inv_def)
    with Inr False show ?thesis by (simp add: publishPlan_def Let_def)
  qed (use Inr assms in \<open>simp add: publishPlan_def\<close>)
qed (use assms in \<open>simp add: publishPlan_def\<close>)

lemma rt_inv_install:
  assumes "rt_inv r"
  shows "rt_inv (installPublished r)"
proof (cases "cr_installing r")
  case (Some plan)
  then have plan: "plan = cr_plan r" using assms by (simp add: rt_inv_def)
  have "rt_base (installPublished r)" using Some rt_base_install [of r plan] assms by (simp add: installPublished_def rt_inv_def)
  moreover have "on_grid plan (install_due plan)"
    using known_plan_ok [OF assms, of plan] plan by (intro on_grid_install) (simp add: plan_ok_def)
  moreover have "sched_ok (known_plans r) (pl_version (cr_plan r)) (cr_scheduled_plan_version r) (cr_next_due r)"
    "cr_shutdown r \<longrightarrow> cr_queue r = []" using assms by (simp_all add: rt_inv_def)
  ultimately show ?thesis
    using sched_ok_dues [of "known_plans r" _ _ _ plan "install_due plan"] Some plan
    by (simp add: rt_inv_def installPublished_def installPlan_def)
qed (use assms in \<open>simp add: installPublished_def\<close>)

lemma rt_inv_readers:
  assumes "rt_inv r" "set ps \<subseteq> set (known_plans r)"
  shows "rt_inv (r\<lparr>cr_readers := ps\<rparr>)"
proof -
  have "list_all (plan_ok (cr_limits r)) ps" using assms known_plan_ok by (auto simp: list_all_iff)
  moreover have "sched_ok (cr_plan r # ps) (pl_version (cr_plan r)) (cr_scheduled_plan_version r) (cr_next_due r)"
    using assms sched_ok_subset [of "known_plans r"] by (auto simp: rt_inv_def)
  ultimately show ?thesis using assms(1) by (simp add: rt_inv_def rt_base_def held_def live_def)
qed

lemma rt_inv_due_step:
  assumes "rt_inv r" "i < length (cr_readers r)"
  shows "rt_inv ((snd (runDue (cr_readers r ! i) now r))\<lparr>cr_readers := take i (cr_readers r) @ drop (Suc i) (cr_readers r)\<rparr>)"
proof (rule rt_inv_readers)
  have known: "cr_readers r ! i \<in> set (known_plans r)" using assms(2) by simp
  show "rt_inv (snd (runDue (cr_readers r ! i) now r))" by (rule rt_inv_runDue [OF assms(1) known])
  have "cr_readers (snd (runDue (cr_readers r ! i) now r)) = cr_readers r"
    using rt_base_due_jobs [OF scheduled_start(1,2) [OF assms(1) known refl], of "cr_readers r ! i" now]
    by (auto simp: runDue_def due_jobs_eq Let_def)
  then show "set (take i (cr_readers r) @ drop (Suc i) (cr_readers r)) \<subseteq> set (known_plans (snd (runDue (cr_readers r ! i) now r)))"
    by (auto dest: in_set_takeD in_set_dropD)
qed

lemma rt_inv_activate: "rt_inv r \<Longrightarrow> rt_inv (snd (activateRoutes catalog m r))"
  by (auto simp: activateRoutes_def rt_inv_def Let_def split: option.split prod.split)

lemma rt_inv_step: "rt_inv r \<Longrightarrow> rt_inv (rt_step op r)"
proof (cases op)
  case RT_request
  assume "rt_inv r"
  then show ?thesis unfolding RT_request by (cases rule: allocateRequestId_cases [of r]) (simp_all add: rt_inv_def)
next
  case RT_shutdown
  assume "rt_inv r"
  then show ?thesis unfolding RT_shutdown using shutdownAll_spec [of r] by (simp add: rt_inv_def)
next
  case RT_readPlan
  assume "rt_inv r"
  then show ?thesis unfolding RT_readPlan by (simp add: rt_inv_readers)
qed (simp_all add: rt_inv_publish rt_inv_install rt_inv_due_step rt_inv_activate rt_inv_fresh rt_inv_answer rt_inv_take
  rt_inv_release rt_inv_complete, simp_all add: startScheduler_def rt_inv_def)

lemma rt_inv_start: "CollectionLimits_validate l = SUCCESS \<Longrightarrow> rt_inv (collection_runtime_start l)"
  by (simp add: rt_inv_def rt_base_def collection_runtime_start_def held_def live_def worker_tasks_def keys_ok_def
    fresh_ok_def ptrs_ok_def waiters_ok_def default_collection_plan_def plan_ok_def sched_ok_def on_grid_def exI [of _ "\<lambda>_. default_collection_plan"])

text \<open>Executions of a runtime whose limits its constructor accepts.\<close>

interpretation crt: component "CollectionRuntime l" "\<lambda>op. map_option (rt_step op)"
  "\<lambda>s. case s of None \<Rightarrow> True | Some r \<Rightarrow> rt_inv r"
  by unfold_locales
    (auto simp: CollectionRuntime_def ok_def rt_inv_start rt_inv_step split: option.splits)

definition runtime_reachable :: "collection_limits \<Rightarrow> runtime_op list \<Rightarrow> collection_runtime option" where
  "runtime_reachable l ops = map_option (fold rt_step ops) (CollectionRuntime l)"

lemma runtime_reachable_inv:
  assumes "runtime_reachable l ops = Some r"
  shows "rt_inv r"
proof -
  have "fold (\<lambda>op. map_option (rt_step op)) ops s = map_option (fold rt_step ops) s" for s
    by (induction ops arbitrary: s) (simp_all add: option.map_comp comp_def option.map_id)
  with crt.inv_reach [of ops l] assms show ?thesis by (auto simp: runtime_reachable_def)
qed

section \<open>Draining\<close>

text \<open>The worker finishes its task and then runs \<open>n\<close> more.\<close>

definition drain_ops :: "pdcm_status \<Rightarrow> nat \<Rightarrow> runtime_op list" where
  "drain_ops st n = RT_release st # RT_complete # concat (replicate n [RT_take, RT_release st, RT_complete])"

lemma worker_finishes:
  assumes "r' = worker_complete (worker_release st r)"
  shows "cr_worker r' = WS_Idle \<and> cr_queue r' = cr_queue r \<and> cr_waiting r' = cr_waiting r"
  unfolding assms by (cases "cr_worker r") (simp_all add: worker_complete_def worker_release_def)

lemma worker_drains:
  assumes "cr_worker r = WS_Idle" "length (cr_queue r) = n"
    and "r' = fold rt_step (concat (replicate n [RT_take, RT_release st, RT_complete])) r"
  shows "cr_worker r' = WS_Idle \<and> cr_queue r' = [] \<and> cr_waiting r' = cr_waiting r"
  using assms(1,2) unfolding assms(3)
proof (induction n arbitrary: r)
  case (Suc n)
  then obtain t queue where q: "cr_queue r = t # queue" "length queue = n" by (cases "cr_queue r") auto
  let ?r = "worker_complete (worker_release st (worker_take r))"
  have "cr_worker ?r = WS_Idle" "cr_queue ?r = queue" "cr_waiting ?r = cr_waiting r"
    using worker_finishes [OF refl, of st "worker_take r"] q(1) Suc.prems(1) by (simp_all add: worker_take_def)
  with Suc.IH [of ?r] q(2) show ?case by simp
qed simp

lemma idle_answered:
  assumes "rt_inv r" "cr_worker r = WS_Idle" "cr_queue r = []"
  shows "list_all (\<lambda>p. map_of (cr_completions r) p \<noteq> None) (cr_waiting r) \<and> cr_busy_keys r = {} \<and>
    (\<forall>s. map_of (cr_fresh_tasks r) s = None)"
proof -
  have "held r = []" "live r = []" using assms(2,3) by (simp_all add: held_def live_def worker_tasks_def)
  with assms(1) show ?thesis
    by (auto simp: rt_inv_def rt_base_def waiters_ok_def keys_ok_def fresh_ok_def list_all_iff map_of_eq_None_iff image_iff)
qed

section \<open>Properties\<close>

text \<open>
  C10: Nothing is read twice at the same time. In every execution the tasks in the queue and
  the one the worker runs have pairwise different data keys, the busy keys are exactly theirs,
  and each task's request asks for exactly its keys, within the batch limit and with a request
  identifier.
\<close>

theorem collected_keys_exclusive:
  assumes "runtime_reachable l ops = Some r"
  shows "distinct (concat (map ta_keys (held r))) \<and> cr_busy_keys r = set (concat (map ta_keys (held r))) \<and>
    list_all (task_ok (cr_limits r)) (held r)"
  using runtime_reachable_inv [OF assms] held_live [of r]
  by (auto simp: rt_inv_def rt_base_def keys_ok_def list_all_iff)

text \<open>
  C26: Order and bounds of the queue. In every execution the queue is sorted by priority and,
  within a priority, by arrival; queue, fresh waiters and provider calls stay within their
  limits; and the task the worker takes next is served before every other one in the queue.
\<close>

theorem worker_queue_discipline:
  assumes "runtime_reachable l ops = Some r"
  shows "sorted_wrt served_before (cr_queue r) \<and> length (cr_queue r) \<le> kl_max_provider_queue (cr_limits r) \<and>
    cr_fresh_waiters r \<le> kl_max_fresh_waiters (cr_limits r) \<and>
    cr_provider_in_flight r \<le> kl_max_provider_in_flight (cr_limits r) \<and>
    (\<forall>t. cr_worker r = WS_Idle \<and> cr_worker (worker_take r) = WS_Running t \<longrightarrow>
       list_all (served_before t) (cr_queue (worker_take r)))"
proof -
  have r: "rt_base r" using runtime_reachable_inv [OF assms] by (simp add: rt_inv_def)
  then have "kl_max_provider_in_flight (cr_limits r) = 1"
    by (auto simp: rt_base_def CollectionLimits_validate_def split: if_splits)
  with r show ?thesis
    by (auto simp: rt_base_def worker_take_def list_all_iff split: worker_state.splits list.splits)
qed

text \<open>
  C11: No fresh read waits for ever. From any reachable state, once the worker has finished its
  task and those in the queue, every blocked call has its answer; and after a shutdown this is
  so as soon as the worker has finished the one task it runs. No key stays busy and no fresh
  read stays registered.
\<close>

theorem fresh_waiters_answered:
  assumes "runtime_reachable l ops = Some r"
    and "r' = fold rt_step (drain_ops st (length (cr_queue r))) r \<or>
         r' = fold rt_step (RT_shutdown # drain_ops st 0) r"
  shows "list_all (\<lambda>p. map_of (cr_completions r') p \<noteq> None) (cr_waiting r) \<and> cr_waiting r' = cr_waiting r \<and>
    cr_queue r' = [] \<and> cr_worker r' = WS_Idle \<and> cr_busy_keys r' = {} \<and> (\<forall>s. map_of (cr_fresh_tasks r') s = None)"
proof -
  have r: "rt_inv r" by (rule runtime_reachable_inv [OF assms(1)])
  have steps: "rt_inv (fold rt_step os s)" if "rt_inv s" for os s
    using that by (induction os arbitrary: s) (simp_all add: rt_inv_step)
  have "rt_inv r'" using assms(2) steps [OF r] by blast
  moreover have "cr_worker r' = WS_Idle \<and> cr_queue r' = [] \<and> cr_waiting r' = cr_waiting r"
    using assms(2)
  proof
    assume "r' = fold rt_step (drain_ops st (length (cr_queue r))) r"
    then show ?thesis
      using worker_finishes [OF refl, of st r] worker_drains [OF _ _ refl, of "worker_complete (worker_release st r)" _ st]
      by (simp add: drain_ops_def)
  next
    assume "r' = fold rt_step (RT_shutdown # drain_ops st 0) r"
    moreover have "rt_base r" using r by (simp add: rt_inv_def)
    ultimately show ?thesis
      using worker_finishes [OF refl, of st "shutdownAll r"] shutdownAll_spec [of r] by (simp add: drain_ops_def)
  qed
  ultimately show ?thesis using idle_answered [of r'] by simp
qed

text \<open>
  C27: Schedules do not drift. Let a call of \<open>runDue\<close> have read a plan, at any earlier moment, and
  let it get the lock and run at \<open>now\<close>. Then every job of that plan is afterwards due at a whole
  number of periods after the plan's creation, later than \<open>now\<close>: a job that was due at the moment
  of the lock moves to the first such instant, at most one period away, however late the
  scheduler is, and a job that was not due keeps its due time. The due times the run starts from
  are those in force, unless they belong to another plan; then the run first puts back those of
  the plan it has read, one period after its creation.
\<close>

theorem schedule_keeps_grid:
  assumes "runtime_reachable l ops = Some r" "plan \<in> set (cr_readers r)" "0 \<le> now" "\<not> cr_shutdown r"
    and "job \<in> set (pl_jobs plan)"
  shows "\<exists>due due' k. map_of (scheduled_dues plan r) (jb_id job) = Some due \<and>
    map_of (cr_next_due (snd (runDue plan now r))) (jb_id job) = Some due' \<and> now < due' \<and>
    1 \<le> k \<and> due' = pl_created_at plan + k * jb_period job \<and>
    (if due \<le> now then due' \<le> now + jb_period job else due' = due)"
proof -
  have r: "rt_inv r" and known: "plan \<in> set (known_plans r)"
    using runtime_reachable_inv [OF assms(1)] assms(2) by simp_all
  note run = runDue_due [OF r known assms(3,4)]
  have "on_grid plan (cr_next_due (snd (runDue plan now r)))"
    by (rule on_grid_advance [OF scheduled_on_grid [OF r known] known_plan_ok [OF r known] run])
  then obtain k where k: "1 \<le> k"
      "map_of (cr_next_due (snd (runDue plan now r))) (jb_id job) = Some (pl_created_at plan + k * jb_period job)"
    using assms(5) by (auto simp: on_grid_def)
  then obtain due where due: "map_of (scheduled_dues plan r) (jb_id job) = Some due"
      "advance now (jb_period job) due = pl_created_at plan + k * jb_period job"
    using run [OF assms(5)] by auto
  have "0 < jb_period job" using known_plan_ok [OF r known] assms(5) by (auto simp: plan_ok_def list_all_iff job_ok_def)
  from advance_grid [OF this, of now due] k due show ?thesis by auto
qed

text \<open>
  C28: Every period is accounted for. In a run of \<open>runDue\<close> at \<open>now\<close> with a plan it has read, the
  periods that have become due by \<open>now\<close>, over all jobs of the plan and from the due times the run
  starts from, are exactly those for which a task was queued and those reported to the watches
  as results without a value. The due times in force are those the run starts from, unless they
  belong to another plan: a run that was overtaken by a change of the plan starts from the first
  due times of its own plan, so it accounts once more for periods that earlier runs of that plan
  have accounted for.
\<close>

theorem due_periods_accounted:
  assumes "runtime_reachable l ops = Some r" "plan \<in> set (cr_readers r)" "0 \<le> now" "now < i64_max" "\<not> cr_shutdown r"
    and "0 \<le> pl_created_at plan" "runDue plan now r = ((summary, results), r')"
  shows "int (sr_enqueued_jobs summary) + noted results =
    sum_list (map (due_periods now (scheduled_dues plan r)) (pl_jobs plan))"
proof -
  have r: "rt_inv r" and known: "plan \<in> set (known_plans r)"
    using runtime_reachable_inv [OF assms(1)] assms(2) by simp_all
  let ?r = "r\<lparr>cr_scheduled_plan_version := pl_version plan, cr_next_due := scheduled_dues plan r\<rparr>"
  let ?s = "\<lparr>ds_summary = empty_summary, ds_results = [], ds_runtime = ?r\<rparr>"
  note start = scheduled_start [OF r known refl]
  have "0 < jb_period job" if "job \<in> set (pl_jobs plan)" for job
    using known_plan_ok [OF r known] that by (auto simp: plan_ok_def list_all_iff job_ok_def)
  then have "list_all (\<lambda>j. \<forall>due. map_of (cr_next_due (ds_runtime ?s)) (jb_id j) = Some due \<longrightarrow> 0 \<le> due) (pl_jobs plan)"
    using scheduled_on_grid [OF r known] assms(6) by (force simp: list_all_iff on_grid_def)
  from due_jobs_accounted [OF start assms(4) this, of plan]
  have "int (sr_enqueued_jobs (ds_summary (due_jobs plan now r))) + noted (ds_results (due_jobs plan now r)) =
      sum_list (map (due_periods now (scheduled_dues plan r)) (pl_jobs plan))"
    unfolding due_jobs_eq by (simp add: empty_summary_def noted_def)
  then show ?thesis using assms(3,5,7) by (auto simp: runDue_def Let_def)
qed

text \<open>
  C39: A scheduled period can vanish. When the queue is full and a due job has a higher priority
  than the last task, that task is removed; if it was scheduled, nothing remembers it: it is
  neither queued nor run, no completion is set, and what the scheduler reports for the watches
  concerns only the job that took its place.
\<close>

theorem evicted_period_not_noted:
  assumes "runtime_reachable l ops = Some (ds_runtime s)" "\<not> cr_shutdown (ds_runtime s)" "job_ok (cr_limits (ds_runtime s)) job"
    and "map_of (cr_next_due (ds_runtime s)) (jb_id job) = Some due" "due \<le> now"
    and "fst (allocateRequestId (ds_runtime s)) \<noteq> 0"
    and "length (cr_queue (ds_runtime s)) = kl_max_provider_queue (cr_limits (ds_runtime s))"
    and "t = last (cr_queue (ds_runtime s))" "\<not> ta_completion t" "ta_priority t < jb_priority job"
    and "\<not> list_ex (\<lambda>k. k \<in> cr_busy_keys (ds_runtime s)) (job_keys job)"
    and "s' = due_job plan now job s"
  shows "t \<in> set (live (ds_runtime s)) \<and> t \<notin> set (live (ds_runtime s')) \<and>
    cr_completions (ds_runtime s') = cr_completions (ds_runtime s) \<and>
    (\<exists>new. ds_results s' = ds_results s @ new \<and> list_all (\<lambda>x. lr_job x = job) new)"
proof (cases rule: due_job_cases [of plan now job s])
  case (queued d r' u res r'')
  let ?r = "ds_runtime s"
  have r: "rt_base ?r" using runtime_reachable_inv [OF assms(1)] by (simp add: rt_inv_def)
  then have "0 < kl_max_provider_queue (cr_limits ?r)"
    by (auto simp: rt_base_def CollectionLimits_validate_def split: if_splits)
  then have queue: "cr_queue ?r \<noteq> []" using assms(7) by auto
  note gone = evict_forgets [OF r queue assms(8,9)]
  have u: "ta_priority u = jb_priority job" "ta_keys u = job_keys job" "ta_ptr u = cr_next_ptr ?r"
    by (simp_all add: queued(5) due_task_def)
  have same: "cr_queue r' = cr_queue ?r" "cr_worker r' = cr_worker ?r" "cr_limits r' = cr_limits ?r"
    "cr_shutdown r' = cr_shutdown ?r" "cr_busy_keys r' = cr_busy_keys ?r" "cr_completions r' = cr_completions ?r"
    by (simp_all add: queued(4))
  have "enqueueLocked u r' = (ER_Accepted, admit_task u (evict_task r'))"
    using assms(2,7,8,10,11) queue by (simp add: enqueueLocked_def same u)
  then have r'': "r'' = admit_task u (evict_task r')" using queued(6) by simp
  have "cr_completions (evict_task r') = cr_completions ?r"
    using gone(3) assms(8,9) by (simp add: evict_task_def setCompletion_def Let_def same)
  moreover have "t \<notin> set (live r'')"
  proof -
    have "t \<noteq> u" using gone(4) u(3) by auto
    moreover have "set (insert_task u q) = insert u (set q)" for q
      using mset_insert_task [of u q] by (metis set_mset_add_mset_insert set_mset_mset)
    ultimately show ?thesis using gone(2) by (simp add: r'' live_def same)
  qed
  ultimately show ?thesis
    using gone(1) queued(7,8) by (simp add: assms(12) r'' Let_def)
qed (use assms(4-6) in auto)

text \<open>
  C40: A plan change restarts every schedule. When the plan published by \<open>applyWatchSnapshot\<close> is
  installed, each of its jobs becomes due one period after the plan's creation, whatever was due
  before, so periods that were already due are lost. Until the first of these due times, a call
  of \<open>runDue\<close> with the published plan, run right after the installation, queues nothing, reports
  nothing for the watches and changes nothing.
\<close>

theorem plan_change_restarts_schedule:
  assumes "runtime_reachable l ops = Some r" "cr_installing r = Some plan" "r' = rt_step RT_install r"
    and "job \<in> set (pl_jobs plan)"
  shows "map_of (cr_next_due r') (jb_id job) = Some (pl_created_at plan + jb_period job) \<and> cr_plan r' = plan \<and>
    (list_all (\<lambda>j. later < pl_created_at plan + jb_period j) (pl_jobs plan) \<longrightarrow>
      snd (runDue (cr_plan r') later r') = r' \<and> snd (fst (runDue (cr_plan r') later r')) = [])"
proof -
  have r: "rt_inv r" by (rule runtime_reachable_inv [OF assms(1)])
  then have plan: "cr_plan r = plan" using assms(2) by (simp add: rt_inv_def)
  then have jobs: "distinct (map jb_id (pl_jobs plan))" using known_plan_ok [OF r, of plan] by (simp add: plan_ok_def)
  have r': "cr_next_due r' = install_due plan" "cr_scheduled_plan_version r' = pl_version plan" "cr_plan r' = plan"
    using assms(2,3) plan by (simp_all add: installPublished_def installPlan_def)
  have due: "map_of (cr_next_due r') (jb_id j) = Some (pl_created_at plan + jb_period j)" if "j \<in> set (pl_jobs plan)" for j
    using map_of_install_due [OF jobs that] r'(1) by simp
  let ?s = "\<lparr>ds_summary = empty_summary, ds_results = [], ds_runtime = r'\<rparr>"
  have idle: "due_job plan later j ?s = ?s" if "j \<in> set (pl_jobs plan)" "later < pl_created_at plan + jb_period j" for j
    using due [OF that(1)] that(2) by (simp add: due_job_def Let_def)
  have "fold (due_job plan later) js ?s = ?s"
    if "set js \<subseteq> set (pl_jobs plan)" "list_all (\<lambda>j. later < pl_created_at plan + jb_period j) js" for js
    using that by (induction js) (simp_all add: idle)
  with due [OF assms(4)] r' show ?thesis by (simp add: runDue_def due_jobs_def Let_def)
qed

definition witness_run :: "collection_limits \<Rightarrow> runtime_op list \<Rightarrow> collection_runtime" where
  "witness_run l ops = fold rt_step ops (collection_runtime_start l)"

lemma witness_run_reachable:
  "CollectionLimits_validate l = SUCCESS \<Longrightarrow> runtime_reachable l ops = Some (witness_run l ops)"
  by (simp add: runtime_reachable_def CollectionRuntime_def ok_def witness_run_def)

text \<open>A plan of one job, created at 4; then a call of \<open>runDue\<close> that has read it.\<close>

definition witness_plan_ops :: "runtime_op list" where
  "witness_plan_ops = [RT_publish 4 (Some witness_watch_snapshot) witness_base, RT_install, RT_readPlan]"

definition witness_planned :: collection_runtime where
  "witness_planned = witness_run witness_collection_limits witness_plan_ops"

definition witness_runtime :: collection_runtime where
  "witness_runtime = witness_run witness_collection_limits (witness_plan_ops @ [RT_runDue 0 14])"

text \<open>
  A run at 37, a second call that has read the same plan, and a change of the plan at 40 before
  that call gets the lock.
\<close>

definition witness_overtaken :: collection_runtime where
  "witness_overtaken = witness_run witness_collection_limits
     (witness_plan_ops @ [RT_runDue 0 37, RT_readPlan, RT_publish 40 (Some witness_watch_snapshot) witness_base, RT_install])"

lemma witness_overtaken_reachable: "\<exists>ops. runtime_reachable witness_collection_limits ops = Some witness_overtaken"
  unfolding witness_overtaken_def using witness_run_reachable [OF witness_collection_limits_ok] by blast

lemma witness_planned_reachable: "\<exists>ops. runtime_reachable witness_collection_limits ops = Some witness_planned"
  unfolding witness_planned_def using witness_run_reachable [OF witness_collection_limits_ok] by blast

lemma witness_runtime_reachable: "\<exists>ops. runtime_reachable witness_collection_limits ops = Some witness_runtime"
  unfolding witness_runtime_def using witness_run_reachable [OF witness_collection_limits_ok] by blast

lemma witness_held:
  "map ta_keys (held witness_runtime) = [[DataKey (EntityRef EK_Device 0 1) 7]] \<and>
   cr_limits witness_runtime = witness_collection_limits"
  by code_simp

theorem collected_keys_exclusive_witness:
  "held witness_runtime \<noteq> [] \<and> distinct (concat (map ta_keys (held witness_runtime))) \<and>
   cr_busy_keys witness_runtime = {DataKey (EntityRef EK_Device 0 1) 7}"
  using witness_runtime_reachable collected_keys_exclusive [of witness_collection_limits _ witness_runtime] witness_held
  by auto

theorem worker_queue_discipline_witness:
  "sorted_wrt served_before (cr_queue witness_runtime) \<and> length (cr_queue witness_runtime) \<le> 2"
  using witness_runtime_reachable worker_queue_discipline [of witness_collection_limits _ witness_runtime] witness_held
  by (auto simp: witness_collection_limits_def)

text \<open>A fresh read that waits.\<close>

definition witness_route_view :: catalog_view where
  "witness_route_view =
     witness_view\<lparr>cv_entities := map (\<lambda>e. e\<lparr>en_provider_version := ''p''\<rparr>) (cv_entities witness_view),
       cv_capability_sets :=
        [\<lparr>cs_entity = EntityRef EK_Device 0 1, cs_catalog_generation = 1,
          cs_items = [\<lparr>ci_kind = CP_Metric, ci_id = 7, ci_supported = True, ci_reason = CR_Supported,
                       ci_semantic_version = 1, ci_catalog_generation = 1\<rparr>]\<rparr>]\<rparr>"

definition witness_fresh :: collection_runtime where
  "witness_fresh = witness_run witness_collection_limits
     [RT_activate (Some witness_route_view) witness_base, RT_fresh [DataKey (EntityRef EK_Device 0 1) 7] 1 100 5 6 witness_base]"

lemma witness_fresh_reachable: "\<exists>ops. runtime_reachable witness_collection_limits ops = Some witness_fresh"
  unfolding witness_fresh_def using witness_run_reachable [OF witness_collection_limits_ok] by blast

lemma witness_fresh_waits: "cr_waiting witness_fresh = [0] \<and> cr_completions witness_fresh = []"
  by code_simp

theorem fresh_waiters_answered_witness:
  "\<exists>st. map_of (cr_completions (fold rt_step (drain_ops SUCCESS (length (cr_queue witness_fresh))) witness_fresh)) 0 = Some st"
  using witness_fresh_reachable fresh_waiters_answered [of witness_collection_limits _ witness_fresh, OF _ disjI1 [OF refl], of _ SUCCESS]
    witness_fresh_waits by auto

definition one_job_read :: "collection_runtime \<Rightarrow> bool" where
  "one_job_read r \<longleftrightarrow> \<not> cr_shutdown r \<and>
     map (\<lambda>p. (pl_created_at p, map (\<lambda>j. (jb_id j, jb_period j)) (pl_jobs p))) (cr_readers r) = [(4, [(1, 10)])] \<and>
     map_of (scheduled_dues (hd (cr_readers r)) r) 1 = Some 14"

lemma one_job_readE:
  assumes "one_job_read r"
  obtains plan job where "cr_readers r = [plan]" "pl_jobs plan = [job]" "pl_created_at plan = 4" "jb_id job = 1"
    "jb_period job = 10" "\<not> cr_shutdown r" "map_of (scheduled_dues plan r) 1 = Some 14"
proof -
  obtain plan where plan: "cr_readers r = [plan]" using assms by (cases "cr_readers r") (auto simp: one_job_read_def)
  then obtain job where "pl_jobs plan = [job]" using assms by (cases "pl_jobs plan") (auto simp: one_job_read_def)
  with plan assms that show thesis by (auto simp: one_job_read_def)
qed

lemma witness_planned_read: "one_job_read witness_planned \<and> cr_next_due witness_planned = [(1, 14)]"
  by code_simp

lemma witness_overtaken_read: "one_job_read witness_overtaken \<and> cr_next_due witness_overtaken = [(1, 50)]"
  by code_simp

theorem schedule_keeps_grid_witness:
  "\<exists>due'. map_of (cr_next_due (snd (runDue (hd (cr_readers witness_planned)) 37 witness_planned))) 1 = Some due' \<and>
     37 < due' \<and> 10 dvd due' - 4 \<and> due' \<le> 47"
proof -
  obtain plan job where p: "cr_readers witness_planned = [plan]" "pl_jobs plan = [job]" "pl_created_at plan = 4" "jb_id job = 1"
    "jb_period job = 10" "\<not> cr_shutdown witness_planned" "map_of (scheduled_dues plan witness_planned) 1 = Some 14"
    by (rule one_job_readE [of witness_planned]) (use witness_planned_read in auto)
  obtain ops where "runtime_reachable witness_collection_limits ops = Some witness_planned"
    using witness_planned_reachable by blast
  from schedule_keeps_grid [OF this, of plan 37 job] p show ?thesis by auto
qed

theorem due_periods_accounted_witness:
  "int (sr_enqueued_jobs (fst (fst (runDue (hd (cr_readers witness_planned)) 37 witness_planned)))) +
     noted (snd (fst (runDue (hd (cr_readers witness_planned)) 37 witness_planned))) = 3 \<and>
   cr_next_due witness_overtaken = [(1, 50)] \<and>
   int (sr_enqueued_jobs (fst (fst (runDue (hd (cr_readers witness_overtaken)) 41 witness_overtaken)))) +
     noted (snd (fst (runDue (hd (cr_readers witness_overtaken)) 41 witness_overtaken))) = 3"
proof -
  have count: "int (sr_enqueued_jobs (fst (fst (runDue (hd (cr_readers r)) now r)))) +
      noted (snd (fst (runDue (hd (cr_readers r)) now r))) = (now - 14) div 10 + 1"
    if r: "\<exists>ops. runtime_reachable witness_collection_limits ops = Some r" "one_job_read r" and now: "14 \<le> now" "now < 100" for r now
  proof -
    obtain plan job where "cr_readers r = [plan]" "pl_jobs plan = [job]" "pl_created_at plan = 4" "jb_id job = 1"
      "jb_period job = 10" "\<not> cr_shutdown r" "map_of (scheduled_dues plan r) 1 = Some 14"
      by (rule one_job_readE [OF r(2)])
    with r(1) now show ?thesis
      using due_periods_accounted [of witness_collection_limits _ r plan now "fst (fst (runDue plan now r))"
          "snd (fst (runDue plan now r))" "snd (runDue plan now r)"]
      by (auto simp: due_periods_def i64_max_def)
  qed
  show ?thesis
    using count [OF witness_planned_reachable, of 37] count [OF witness_overtaken_reachable, of 41]
      witness_planned_read witness_overtaken_read by simp
qed

definition witness_published :: collection_runtime where
  "witness_published = rt_step (RT_publish 13 (Some witness_watch_snapshot) witness_base) witness_planned"

lemma witness_published_reachable: "\<exists>ops. runtime_reachable witness_collection_limits ops = Some witness_published"
proof -
  have "witness_published = witness_run witness_collection_limits
      (witness_plan_ops @ [RT_publish 13 (Some witness_watch_snapshot) witness_base])"
    by (simp add: witness_published_def witness_planned_def witness_run_def)
  then show ?thesis using witness_run_reachable [OF witness_collection_limits_ok] by metis
qed

lemma witness_published_plan:
  "map_option (\<lambda>p. (pl_created_at p, map (\<lambda>j. (jb_id j, jb_period j)) (pl_jobs p))) (cr_installing witness_published) =
     Some (13, [(1, 10)])"
  by code_simp

theorem plan_change_restarts_schedule_witness:
  "map_of (cr_next_due witness_published) 1 = Some 14 \<and> map_of (cr_next_due (rt_step RT_install witness_published)) 1 = Some 23 \<and>
   snd (fst (runDue (cr_plan (rt_step RT_install witness_published)) 22 (rt_step RT_install witness_published))) = []"
proof -
  obtain plan where plan: "cr_installing witness_published = Some plan" "pl_created_at plan = 13"
    "map (\<lambda>j. (jb_id j, jb_period j)) (pl_jobs plan) = [(1, 10)]" using witness_published_plan by auto
  then obtain job where "pl_jobs plan = [job]" "jb_id job = 1" "jb_period job = 10" by (cases "pl_jobs plan") auto
  moreover have "map_of (cr_next_due witness_published) 1 = Some 14" by code_simp
  ultimately show ?thesis
    using witness_published_reachable plan
      plan_change_restarts_schedule [of witness_collection_limits _ witness_published plan _ job 22, OF _ _ refl]
    by auto
qed

text \<open>A queue of one, a normal job queued, and a high one due.\<close>

definition witness_narrow :: collection_limits where
  "witness_narrow = witness_collection_limits\<lparr>kl_max_provider_queue := 1\<rparr>"

definition witness_two_watches :: watch_snapshot where
  "witness_two_watches = witness_watch_snapshot\<lparr>ws_effective_watches :=
     [witness_effective_watch,
      witness_effective_watch\<lparr>ew_key := EffectiveWatchKey ''p'' (EntityRef EK_Device 1 1) PD_Metric 7 0, ew_period := 20,
        ew_priority := WP_High\<rparr>]\<rparr>"

definition witness_full :: due_state where
  "witness_full = \<lparr>ds_summary = empty_summary, ds_results = [],
     ds_runtime = witness_run witness_narrow [RT_publish 4 (Some witness_two_watches) witness_base, RT_install, RT_readPlan, RT_runDue 0 14]\<rparr>"

definition witness_eviction :: "collection_runtime \<Rightarrow> collection_job \<Rightarrow> bool" where
  "witness_eviction r job \<longleftrightarrow>
     map ta_completion (cr_queue r) = [False] \<and> \<not> cr_shutdown r \<and> map ta_priority (cr_queue r) = [WP_Normal] \<and>
     jb_priority job = WP_High \<and> map_of (cr_next_due r) (jb_id job) = Some 24 \<and> fst (allocateRequestId r) \<noteq> 0 \<and>
     kl_max_provider_queue (cr_limits r) = 1 \<and> \<not> list_ex (\<lambda>k. k \<in> cr_busy_keys r) (job_keys job) \<and> job_ok (cr_limits r) job"

definition witness_high_job :: "collection_runtime \<Rightarrow> collection_job" where
  "witness_high_job r = pl_jobs (cr_plan r) ! 1"

definition witness_evicts :: "collection_runtime \<Rightarrow> bool" where
  "witness_evicts r \<longleftrightarrow> witness_eviction r (witness_high_job r)"

lemma witness_full_reachable: "\<exists>ops. runtime_reachable witness_narrow ops = Some (ds_runtime witness_full)"
proof -
  have "CollectionLimits_validate witness_narrow = SUCCESS"
    by (simp add: CollectionLimits_validate_def witness_narrow_def witness_collection_limits_def)
  from witness_run_reachable [OF this] show ?thesis by (auto simp: witness_full_def)
qed

lemma witness_full_evicts: "witness_evicts (ds_runtime witness_full)"
  by code_simp

theorem evicted_period_not_noted_witness:
  "last (cr_queue (ds_runtime witness_full)) \<in> set (live (ds_runtime witness_full)) \<and>
   last (cr_queue (ds_runtime witness_full)) \<notin>
     set (live (ds_runtime (due_job (cr_plan (ds_runtime witness_full)) 24 (witness_high_job (ds_runtime witness_full)) witness_full)))"
proof -
  let ?r = "ds_runtime witness_full"
  have e: "map ta_completion (cr_queue ?r) = [False]" "\<not> cr_shutdown ?r" "map ta_priority (cr_queue ?r) = [WP_Normal]"
    "jb_priority (witness_high_job ?r) = WP_High" "map_of (cr_next_due ?r) (jb_id (witness_high_job ?r)) = Some 24"
    "fst (allocateRequestId ?r) \<noteq> 0" "kl_max_provider_queue (cr_limits ?r) = 1"
    "\<not> list_ex (\<lambda>k. k \<in> cr_busy_keys ?r) (job_keys (witness_high_job ?r))" "job_ok (cr_limits ?r) (witness_high_job ?r)"
    using witness_full_evicts by (simp_all add: witness_evicts_def witness_eviction_def)
  obtain t where t: "cr_queue ?r = [t]" using e(1) by (cases "cr_queue ?r") auto
  obtain ops where ops: "runtime_reachable witness_narrow ops = Some ?r" using witness_full_reachable by blast
  have "ta_priority (last (cr_queue ?r)) < jb_priority (witness_high_job ?r)"
    using e(3,4) by (simp add: t less_watch_priority_def)
  moreover have "\<not> ta_completion (last (cr_queue ?r))" "length (cr_queue ?r) = kl_max_provider_queue (cr_limits ?r)"
    using e(1,7) by (simp_all add: t)
  ultimately show ?thesis
    using evicted_period_not_noted [OF ops e(2,9,5) order_refl e(6) _ refl _ _ e(8) refl] by blast
qed

end
