(* ===== verification/Subscriptions.thy ===== *)
theory Subscriptions
  imports DataStore_Health
begin

text \<open>
  \<open>src/product/src/data/subscription_manager.*\<close>: filters, the bounded delivery queue of a
  subscription with its loss marker, and the manager that dispatches stored events to the
  queues. \<open>shared_ptr<const PdcmEvent>\<close> are immutable, so a queue holds event values.
\<close>

section \<open>Filters\<close>

record subscription_filter =
  sf_event_types :: "event_type list"
  sf_entity :: "entity_ref option"
  sf_metrics :: "metric_id list"
  sf_health_subsystem :: "u32 option"
  sf_minimum_severity :: event_severity
  sf_follow_rediscovery :: bool

record subscription_limits =
  sbl_max_events :: size_t
  sbl_max_bytes :: size_t

definition severityAtLeast :: "event_severity \<Rightarrow> event_severity \<Rightarrow> bool" where
  "severityAtLeast actual minimum \<longleftrightarrow> severity_num minimum \<le> severity_num actual"

definition droppable :: "pdcm_event \<Rightarrow> bool" where
  "droppable e \<longleftrightarrow> \<not> isNonDroppable (pv_type e)"

definition SubscriptionLimits_validate :: "subscription_limits \<Rightarrow> pdcm_status" where
  "SubscriptionLimits_validate l =
     (if sbl_max_events l = 0 \<or> sbl_max_bytes l = 0 then INVALID_ARGUMENT else SUCCESS)"

text \<open>\<open>validateFilter\<close> sorts the filter in place; the sorted filter is returned with the status.\<close>

definition validateFilter :: "subscription_filter \<Rightarrow> pdcm_status \<times> subscription_filter" where
  "validateFilter f =
    (if sf_event_types f = [] \<or>
        (case sf_health_subsystem f of None \<Rightarrow> False | Some h \<Rightarrow> h \<noteq> kFirmwareHeartbeatHealthId)
     then (INVALID_ARGUMENT, f)
     else
      let f = f\<lparr>sf_event_types := sort (sf_event_types f)\<rparr>
      in if adjacent_find (sf_event_types f) then (INVALID_ARGUMENT, f)
         else
          let f = f\<lparr>sf_metrics := sort (sf_metrics f)\<rparr>
          in if adjacent_find (sf_metrics f) then (INVALID_ARGUMENT, f) else (SUCCESS, f))"

text \<open>\<open>std::binary_search\<close>: the lower bound of a sorted range, compared once more.\<close>

definition binary_search :: "'a::linorder list \<Rightarrow> 'a \<Rightarrow> bool" where
  "binary_search xs x = (case dropWhile (\<lambda>y. y < x) xs of [] \<Rightarrow> False | y # _ \<Rightarrow> \<not> x < y)"

definition matches :: "subscription_filter \<Rightarrow> pdcm_event \<Rightarrow> bool" where
  "matches f e \<longleftrightarrow>
    (if \<not> binary_search (sf_event_types f) (pv_type e) \<or>
        \<not> severityAtLeast (pv_severity e) (sf_minimum_severity f) then False
     else if (case sf_entity f of None \<Rightarrow> False
              | Some wanted \<Rightarrow>
                 (case pv_entity e of None \<Rightarrow> True
                  | Some actual \<Rightarrow>
                     let exact = wanted = actual;
                         rebound = sf_follow_rediscovery f \<and> er_kind wanted = er_kind actual \<and>
                           er_id wanted = er_id actual
                     in \<not> exact \<and> \<not> rebound)) then False
     else if sf_metrics f \<noteq> [] \<and>
             (case pv_metric e of None \<Rightarrow> True | Some m \<Rightarrow> \<not> binary_search (sf_metrics f) m) then False
     else if sf_health_subsystem f \<noteq> None \<and> pv_health_subsystem e \<noteq> sf_health_subsystem f then False
     else True)"

section \<open>The queue of a subscription\<close>

record subscription =
  sub_filter :: subscription_filter
  sub_limits :: subscription_limits
  sub_pending :: "pdcm_event list"
  sub_pending_bytes :: size_t
  sub_active_deliveries :: size_t
  sub_closing :: bool
  sub_closed :: bool

definition make_subscription :: "subscription_filter \<Rightarrow> subscription_limits \<Rightarrow> subscription" where
  "make_subscription f l =
     \<lparr>sub_filter = f, sub_limits = l, sub_pending = [], sub_pending_bytes = 0,
      sub_active_deliveries = 0, sub_closing = False, sub_closed = False\<rparr>"

definition sameMetricKey :: "pdcm_event \<Rightarrow> pdcm_event \<Rightarrow> bool" where
  "sameMetricKey a b \<longleftrightarrow>
     pv_type a = ET_MetricUpdate \<and> pv_type b = ET_MetricUpdate \<and>
     pv_entity a = pv_entity b \<and> pv_metric a = pv_metric b"

text \<open>
  \<open>lossMarker\<close>: a new marker for one dropped event, or the existing marker extended by it.
  \<open>std::get\<close> throws when the existing marker carries another payload: \<open>None\<close>.
\<close>

definition new_marker :: "pdcm_event \<Rightarrow> pdcm_event" where
  "new_marker dropped =
     \<lparr>pv_boot_epoch = pv_boot_epoch dropped, pv_sequence = pv_sequence dropped,
      pv_type = ET_SubscriptionLossMarker, pv_severity = SV_Warning, pv_entity = None,
      pv_metric = None, pv_health_subsystem = None,
      pv_occurrence_time_ns = pv_occurrence_time_ns dropped,
      pv_catalog_generation = pv_catalog_generation dropped,
      pv_payload = P_SubscriptionLoss
        \<lparr>sl_first_dropped_sequence = pv_sequence dropped,
         sl_last_dropped_sequence = pv_sequence dropped, sl_dropped_count = 1\<rparr>\<rparr>"

definition lossMarker :: "pdcm_event \<Rightarrow> pdcm_event option \<Rightarrow> pdcm_event option" where
  "lossMarker dropped existing =
    (case existing of None \<Rightarrow> Some (new_marker dropped)
     | Some old \<Rightarrow>
        (case pv_payload old of
           P_SubscriptionLoss p \<Rightarrow>
             Some ((new_marker dropped)
               \<lparr>pv_sequence := pv_sequence old,
                pv_occurrence_time_ns := pv_occurrence_time_ns old,
                pv_payload := P_SubscriptionLoss
                  \<lparr>sl_first_dropped_sequence = min (sl_first_dropped_sequence p) (pv_sequence dropped),
                   sl_last_dropped_sequence = max (sl_last_dropped_sequence p) (pv_sequence dropped),
                   sl_dropped_count = sl_dropped_count p + 1\<rparr>\<rparr>)
         | _ \<Rightarrow> None))"

fun foldMarker :: "pdcm_event list \<Rightarrow> pdcm_event option \<Rightarrow> pdcm_event option option" where
  "foldMarker [] marker = Some marker"
| "foldMarker (d # ds) marker =
    (case lossMarker d marker of None \<Rightarrow> None | Some m \<Rightarrow> foldMarker ds (Some m))"

abbreviation is_marker :: "pdcm_event \<Rightarrow> bool" where
  "is_marker e \<equiv> pv_type e = ET_SubscriptionLossMarker"

definition exceeds_limits ::
  "subscription_limits \<Rightarrow> size_t \<Rightarrow> size_t \<Rightarrow> bool \<Rightarrow> size_t \<Rightarrow> size_t \<Rightarrow> bool" where
  "exceeds_limits l incoming marker_reserve needs_marker pending pending_bytes \<longleftrightarrow>
    (let reserved = (if needs_marker then marker_reserve else 0);
         event_limit = pending + 1 + (if needs_marker then 1 else 0) > sbl_max_events l;
         byte_limit =
           incoming > szsub (sbl_max_bytes l) pending_bytes \<or>
           reserved > szsub (szsub (sbl_max_bytes l) pending_bytes) incoming
     in event_limit \<or> byte_limit)"

definition candidate :: "pdcm_event \<Rightarrow> pdcm_event \<Rightarrow> bool" where
  "candidate event queued \<longleftrightarrow>
    (if pv_type event = ET_MetricUpdate then sameMetricKey queued event else droppable queued)"

text \<open>
  The eviction loop of \<open>enqueue\<close>: \<open>None\<close> when nothing may be dropped, otherwise the dropped
  events in order, the remaining queue and its byte count.
\<close>

function evictPending ::
  "subscription_limits \<Rightarrow> pdcm_event \<Rightarrow> bool \<Rightarrow> pdcm_event list \<Rightarrow> pdcm_event list \<Rightarrow> size_t \<Rightarrow>
   (pdcm_event list \<times> pdcm_event list \<times> size_t) option" where
  "evictPending l event no_marker dropped pending bytes =
    (if exceeds_limits l (eventBytes event) (eventBytes (new_marker event))
          (no_marker \<and> dropped \<noteq> []) (length pending) bytes
     then
      (case find (candidate event) pending of None \<Rightarrow> None
       | Some c \<Rightarrow>
          evictPending l event no_marker (dropped @ [c]) (erase_first (candidate event) pending)
            (szsub bytes (eventBytes c)))
     else Some (dropped, pending, bytes))"
  by pat_completeness auto

termination
  by (relation "measure (\<lambda>(_, _, _, _, pending, _). length pending)") (auto dest: length_erase_first)

declare evictPending.simps [simp del]

text \<open>\<open>*marker_position = marker\<close>: replace the first marker of the queue.\<close>

fun replace_marker :: "pdcm_event \<Rightarrow> pdcm_event list \<Rightarrow> pdcm_event list" where
  "replace_marker m [] = []"
| "replace_marker m (e # es) = (if is_marker e then m # es else e # replace_marker m es)"

definition close_overflow :: "subscription \<Rightarrow> subscription" where
  "close_overflow s = s\<lparr>sub_pending := [], sub_pending_bytes := 0, sub_closed := True\<rparr>"

text \<open>
  \<open>enqueue\<close>. The flag says that \<open>lossMarker\<close> threw; the queue is then what the eviction loop
  left of it.
\<close>

definition enqueue :: "pdcm_event \<Rightarrow> subscription \<Rightarrow> bool \<times> subscription" where
  "enqueue event s =
    (if sub_closing s \<or> sub_closed s then (False, s)
     else
      let incoming = eventBytes event in
      if incoming > sbl_max_bytes (sub_limits s) then (False, close_overflow s)
      else
       let marker = find is_marker (sub_pending s) in
       (case evictPending (sub_limits s) event (marker = None) [] (sub_pending s) (sub_pending_bytes s) of
          None \<Rightarrow> (False, close_overflow s)
        | Some (dropped, pending, bytes) \<Rightarrow>
           (case foldMarker dropped marker of
              None \<Rightarrow> (True, s\<lparr>sub_pending := pending, sub_pending_bytes := bytes\<rparr>)
            | Some marker' \<Rightarrow>
               let (pending, bytes) =
                 (if dropped = [] then (pending, bytes)
                  else
                   case find is_marker pending of
                     Some old \<Rightarrow>
                       (replace_marker (the marker') pending,
                        szsub bytes (eventBytes old) + eventBytes (the marker'))
                   | None \<Rightarrow> (pending @ [the marker'], bytes + eventBytes (the marker')))
               in if length pending \<ge> sbl_max_events (sub_limits s) \<or>
                     bytes > szsub (sbl_max_bytes (sub_limits s)) incoming
                  then (False, close_overflow s)
                  else (False, s\<lparr>sub_pending := pending @ [event], sub_pending_bytes := bytes + incoming\<rparr>))))"

section \<open>The manager\<close>

text \<open>
  \<open>sbm_objects\<close> are the \<open>Subscription\<close> objects by identifier (\<open>known_subscriptions_\<close>);
  \<open>sbm_subscriptions\<close> are the identifiers still registered in \<open>subscriptions_\<close>. An object
  that is no longer registered is kept: a weak pointer that has expired and an object that
  was closed answer \<open>pendingCount\<close>, \<open>pendingBytes\<close> and \<open>isClosed\<close> alike.
\<close>

record subscription_manager =
  sbm_max_subscriptions :: size_t
  sbm_objects :: "(u64, subscription) omap"
  sbm_subscriptions :: "u64 list"
  sbm_next_subscription_id :: u64
  sbm_last_seen_sequence :: u64
  sbm_draining :: bool

definition subscription_manager_start :: "size_t \<Rightarrow> subscription_manager" where
  "subscription_manager_start n =
     \<lparr>sbm_max_subscriptions = n, sbm_objects = [], sbm_subscriptions = [],
      sbm_next_subscription_id = 1, sbm_last_seen_sequence = 0, sbm_draining = False\<rparr>"

definition SubscriptionManager :: "size_t \<Rightarrow> subscription_manager option" where
  "SubscriptionManager n = (if n = 0 then None else Some (subscription_manager_start n))"

definition subscribe ::
  "subscription_filter \<Rightarrow> subscription_limits \<Rightarrow> subscription_manager \<Rightarrow>
   (pdcm_status \<times> u64) \<times> subscription_manager" where
  "subscribe f l m =
    (let (st, f) = validateFilter f in
     if \<not> ok st then ((st, 0), m)
     else if \<not> ok (SubscriptionLimits_validate l) then ((SubscriptionLimits_validate l, 0), m)
     else if sbm_draining m then ((UNAVAILABLE, 0), m)
     else if length (sbm_subscriptions m) \<ge> sbm_max_subscriptions m \<or>
             sbm_next_subscription_id m = u64_max then ((RESOURCE_EXHAUSTED, 0), m)
     else
      let sid = sbm_next_subscription_id m
      in ((SUCCESS, sid),
          m\<lparr>sbm_next_subscription_id := sid + 1,
            sbm_subscriptions := insort sid (sbm_subscriptions m),
            sbm_objects := omap_put sid (make_subscription f l) (sbm_objects m)\<rparr>))"

text \<open>The two loops of \<open>dispatch\<close>; the flag says that an \<open>enqueue\<close> threw, which ends both.\<close>

fun dispatchEvent ::
  "pdcm_event \<Rightarrow> u64 list \<Rightarrow> (u64, subscription) omap \<Rightarrow> bool \<times> (u64, subscription) omap" where
  "dispatchEvent e [] objs = (False, objs)"
| "dispatchEvent e (sid # sids) objs =
    (case map_of objs sid of None \<Rightarrow> dispatchEvent e sids objs
     | Some s \<Rightarrow>
        if matches (sub_filter s) e
        then (case enqueue e s of
                (True, s') \<Rightarrow> (True, omap_put sid s' objs)
              | (False, s') \<Rightarrow> dispatchEvent e sids (omap_put sid s' objs))
        else dispatchEvent e sids objs)"

fun dispatchEvents ::
  "pdcm_event list \<Rightarrow> u64 list \<Rightarrow> (u64, subscription) omap \<Rightarrow> bool \<times> (u64, subscription) omap" where
  "dispatchEvents [] sids objs = (False, objs)"
| "dispatchEvents (e # es) sids objs =
    (case dispatchEvent e sids objs of
       (True, objs') \<Rightarrow> (True, objs')
     | (False, objs') \<Rightarrow> dispatchEvents es sids objs')"

definition dispatch ::
  "data_manager \<Rightarrow> subscription_manager \<Rightarrow> pdcm_status option \<times> subscription_manager" where
  "dispatch d m =
    (let snapshot = eventsSince (sbm_last_seen_sequence m) d in
     if sn_events snapshot = [] then (Some SUCCESS, m)
     else
      let m = m\<lparr>sbm_last_seen_sequence := sn_latest_sequence snapshot\<rparr>;
          (threw, objs) = dispatchEvents (sn_events snapshot) (sbm_subscriptions m) (sbm_objects m);
          m = m\<lparr>sbm_objects := objs\<rparr>
      in (if threw then None else Some SUCCESS, m))"

text \<open>
  The critical sections of \<open>deliverNext\<close> and \<open>close\<close>. \<open>close_wait\<close> is the predicate the
  condition variable waits for.
\<close>

definition deliver_take :: "subscription \<Rightarrow> (pdcm_status \<times> pdcm_event option) \<times> subscription" where
  "deliver_take s =
    (if sub_closing s \<or> sub_closed s then ((UNAVAILABLE, None), s)
     else
      case sub_pending s of [] \<Rightarrow> ((NOT_FOUND, None), s)
      | e # es \<Rightarrow>
         ((SUCCESS, Some e),
          s\<lparr>sub_pending := es, sub_pending_bytes := szsub (sub_pending_bytes s) (eventBytes e),
            sub_active_deliveries := sub_active_deliveries s + 1\<rparr>))"

definition deliver_done :: "subscription \<Rightarrow> subscription" where
  "deliver_done s = s\<lparr>sub_active_deliveries := szsub (sub_active_deliveries s) 1\<rparr>"

definition close_mark :: "subscription \<Rightarrow> subscription" where
  "close_mark s = s\<lparr>sub_closing := True, sub_pending := [], sub_pending_bytes := 0\<rparr>"

definition close_wait :: "subscription \<Rightarrow> bool" where
  "close_wait s \<longleftrightarrow> sub_active_deliveries s = 0"

definition close_done :: "subscription \<Rightarrow> subscription" where
  "close_done s = s\<lparr>sub_closed := True\<rparr>"

text \<open>
  \<open>deliverNext\<close> run alone. The callback is absent or a function that says whether it returned
  (an exception is caught and reported).
\<close>

definition deliverNext ::
  "(pdcm_event \<Rightarrow> bool) option \<Rightarrow> u64 \<Rightarrow> subscription_manager \<Rightarrow>
   (pdcm_status \<times> pdcm_event option) \<times> subscription_manager" where
  "deliverNext callback sid m =
    (case callback of None \<Rightarrow> ((INVALID_ARGUMENT, None), m)
     | Some cb \<Rightarrow>
        if sid \<notin> set (sbm_subscriptions m) then ((NOT_FOUND, None), m)
        else
         case map_of (sbm_objects m) sid of None \<Rightarrow> ((NOT_FOUND, None), m)
         | Some s \<Rightarrow>
            (case deliver_take s of
               ((st, None), _) \<Rightarrow> ((st, None), m)
             | ((st, Some e), s') \<Rightarrow>
                ((if cb e then SUCCESS else INTERNAL, Some e),
                 m\<lparr>sbm_objects := omap_put sid (deliver_done s') (sbm_objects m)\<rparr>)))"

text \<open>\<open>close\<close> run alone; \<open>None\<close> when it would wait for a delivery that is still active.\<close>

definition Subscription_close ::
  "u64 \<Rightarrow> subscription_manager \<Rightarrow> (pdcm_status \<times> subscription_manager) option" where
  "Subscription_close sid m =
    (if sid \<notin> set (sbm_subscriptions m) then Some (NOT_FOUND, m)
     else
      case map_of (sbm_objects m) sid of None \<Rightarrow> Some (NOT_FOUND, m)
      | Some s \<Rightarrow>
         let m = m\<lparr>sbm_subscriptions := remove1 sid (sbm_subscriptions m)\<rparr>;
             s = close_mark s
         in if close_wait s
            then Some (SUCCESS, m\<lparr>sbm_objects := omap_put sid (close_done s) (sbm_objects m)\<rparr>)
            else None)"

definition drain_draft :: "i64 \<Rightarrow> data_manager \<Rightarrow> event_draft" where
  "drain_draft t d =
     default_draft\<lparr>dr_type := ET_DaemonDraining, dr_severity := SV_Warning,
       dr_occurrence_time_ns := t, dr_catalog_generation := cst_generation (dm_catalog d)\<rparr>"

definition drain ::
  "i64 \<Rightarrow> data_manager \<times> subscription_manager \<Rightarrow>
   pdcm_status option \<times> data_manager \<times> subscription_manager" where
  "drain t st =
    (let (d, m) = st in
     if t < 0 then (Some INVALID_ARGUMENT, d, m)
     else
      let m = m\<lparr>sbm_draining := True\<rparr>;
          ((published, _), d) = publishEvent (drain_draft t d) d
      in if \<not> ok published then (Some published, d, m)
         else let (r, m) = dispatch d m in (r, d, m))"

definition pendingCount :: "u64 \<Rightarrow> subscription_manager \<Rightarrow> size_t" where
  "pendingCount sid m =
     (case map_of (sbm_objects m) sid of None \<Rightarrow> 0 | Some s \<Rightarrow> length (sub_pending s))"

definition pendingBytes :: "u64 \<Rightarrow> subscription_manager \<Rightarrow> size_t" where
  "pendingBytes sid m =
     (case map_of (sbm_objects m) sid of None \<Rightarrow> 0 | Some s \<Rightarrow> sub_pending_bytes s)"

definition isClosed :: "u64 \<Rightarrow> subscription_manager \<Rightarrow> bool" where
  "isClosed sid m = (case map_of (sbm_objects m) sid of None \<Rightarrow> True | Some s \<Rightarrow> sub_closed s)"

section \<open>The eviction loop\<close>

lemma binary_search_sorted: "sorted xs \<Longrightarrow> binary_search xs x \<longleftrightarrow> x \<in> set xs"
proof (induction xs)
  case (Cons y ys)
  then show ?case by (cases "y < x") (auto simp: binary_search_def)
qed (simp add: binary_search_def)

lemma candidate_not_marker: "candidate e q \<Longrightarrow> \<not> is_marker q"
  by (auto simp: candidate_def sameMetricKey_def droppable_def isNonDroppable_def split: if_splits)

lemma filter_erase_first:
  "(\<And>x. P x \<Longrightarrow> \<not> Q x) \<Longrightarrow> filter Q (erase_first P xs) = filter Q xs"
  by (induction xs) auto

text \<open>The queue after the first \<open>k\<close> candidates were dropped, and the dropped events.\<close>

abbreviation evicted :: "pdcm_event \<Rightarrow> nat \<Rightarrow> pdcm_event list \<Rightarrow> pdcm_event list" where
  "evicted e k q \<equiv> (erase_first (candidate e) ^^ k) q"

definition overfull :: "subscription_limits \<Rightarrow> pdcm_event \<Rightarrow> bool \<Rightarrow> nat \<Rightarrow> pdcm_event list \<Rightarrow> bool" where
  "overfull l e no_marker k q \<longleftrightarrow>
     (let extra = (if no_marker \<and> 0 < k then 1 else 0) in
      length q + 1 + extra > sbl_max_events l \<or>
      events_bytes q + eventBytes e + extra * eventBytes (new_marker e) > sbl_max_bytes l)"

lemma eventBytes_marker: "eventBytes (new_marker e) = sizeof_PdcmEvent + sizeof_SubscriptionLossPayload"
  by (simp add: eventBytes_def new_marker_def)

lemma exceeds_limits_iff:
  "events_bytes q \<le> sbl_max_bytes l \<Longrightarrow>
   exceeds_limits l (eventBytes e) (eventBytes (new_marker e)) (no_marker \<and> dropped \<noteq> [])
     (length q) (events_bytes q) \<longleftrightarrow> overfull l e no_marker (length dropped) q"
  by (auto simp: exceeds_limits_def overfull_def Let_def szsub_def not_less not_le)

lemma take_Suc_filter_erase:
  "find P xs = Some c \<Longrightarrow> take (Suc k) (filter P xs) = c # take k (filter P (erase_first P xs))"
  by (induction xs) (auto split: if_splits)

lemma length_filter_erase:
  "find P xs = Some c \<Longrightarrow> length (filter P xs) = Suc (length (filter P (erase_first P xs)))"
  by (induction xs) (auto split: if_splits)

text \<open>
  What the loop returns: it drops exactly the first \<open>k\<close> candidates for the least \<open>k\<close> with
  which the queue, the loss marker it then needs and the event fit; it gives up only if no
  such \<open>k\<close> exists.
\<close>

definition evict_spec ::
  "subscription_limits \<Rightarrow> pdcm_event \<Rightarrow> bool \<Rightarrow> pdcm_event list \<Rightarrow> pdcm_event list \<Rightarrow>
   (pdcm_event list \<times> pdcm_event list \<times> size_t) option \<Rightarrow> bool" where
  "evict_spec l e no_marker dropped q r \<longleftrightarrow>
    (case r of
       None \<Rightarrow> \<forall>k \<le> length (filter (candidate e) q). overfull l e no_marker (length dropped + k) (evicted e k q)
     | Some (d, p, b) \<Rightarrow>
         \<exists>k \<le> length (filter (candidate e) q).
           d = dropped @ take k (filter (candidate e) q) \<and> p = evicted e k q \<and> b = events_bytes p \<and>
           \<not> overfull l e no_marker (length dropped + k) p \<and>
           (\<forall>j < k. overfull l e no_marker (length dropped + j) (evicted e j q)))"

lemma evict_spec_step:
  assumes c: "find (candidate e) q = Some c" and over: "overfull l e no_marker (length dropped) q"
    and spec: "evict_spec l e no_marker (dropped @ [c]) (erase_first (candidate e) q) r"
  shows "evict_spec l e no_marker dropped q r"
proof (cases r)
  case None
  have "overfull l e no_marker (length dropped + k) (evicted e k q)"
    if "k \<le> length (filter (candidate e) q)" for k
    using that spec None over length_filter_erase [OF c]
    by (cases k) (auto simp: evict_spec_def funpow_swap1)
  with None show ?thesis by (simp add: evict_spec_def)
next
  case (Some x)
  obtain d p b where x: "x = (d, p, b)" by (cases x) auto
  let ?q = "erase_first (candidate e) q"
  from spec obtain k where k: "k \<le> length (filter (candidate e) ?q)"
    "d = (dropped @ [c]) @ take k (filter (candidate e) ?q)" "p = evicted e k ?q" "b = events_bytes p"
    "\<not> overfull l e no_marker (length (dropped @ [c]) + k) p"
    "\<forall>j < k. overfull l e no_marker (length (dropped @ [c]) + j) (evicted e j ?q)"
    by (auto simp: evict_spec_def Some x)
  have "overfull l e no_marker (length dropped + j) (evicted e j q)" if "j < Suc k" for j
    using that k(6) over by (cases j) (auto simp: funpow_swap1)
  then show ?thesis
    using k length_filter_erase [OF c] take_Suc_filter_erase [OF c]
    by (auto simp: evict_spec_def Some x funpow_swap1 intro!: exI [of _ "Suc k"])
qed

lemma evictPending_exact:
  "events_bytes q \<le> sbl_max_bytes l \<Longrightarrow>
   evict_spec l e no_marker dropped q (evictPending l e no_marker dropped q (events_bytes q))"
proof (induction "length q" arbitrary: q dropped rule: less_induct)
  case less
  show ?case
  proof (cases "overfull l e no_marker (length dropped) q")
    case False
    with less.prems show ?thesis
      by (subst evictPending.simps) (auto simp: exceeds_limits_iff evict_spec_def intro: exI [of _ 0])
  next
    case over: True
    show ?thesis
    proof (cases "find (candidate e) q")
      case None
      then have "filter (candidate e) q = []" by (auto simp: find_None_iff filter_empty_conv)
      with None over less.prems show ?thesis
        by (subst evictPending.simps) (simp add: exceeds_limits_iff evict_spec_def)
    next
      case (Some c)
      let ?q = "erase_first (candidate e) q"
      have bytes: "events_bytes q = eventBytes c + events_bytes ?q"
        by (rule sum_list_erase_first [OF Some])
      have "evictPending l e no_marker dropped q (events_bytes q) =
          evictPending l e no_marker (dropped @ [c]) ?q (events_bytes ?q)"
        using over Some less.prems exceeds_limits_iff [OF less.prems, of e no_marker dropped]
        by (subst evictPending.simps) (simp add: bytes)
      moreover have "evict_spec l e no_marker (dropped @ [c]) ?q
          (evictPending l e no_marker (dropped @ [c]) ?q (events_bytes ?q))"
        using length_erase_first [OF Some] bytes less.prems by (intro less.hyps) auto
      ultimately show ?thesis by (simp add: evict_spec_step [OF Some over])
    qed
  qed
qed

lemma evicted_facts:
  "subseq (evicted e k q) q \<and> filter is_marker (evicted e k q) = filter is_marker q \<and>
   events_bytes (evicted e k q) \<le> events_bytes q"
proof (induction k)
  case (Suc k)
  have "events_bytes (erase_first P xs) \<le> events_bytes xs" for P xs
    by (induction xs) auto
  with Suc show ?case
    using subseq_order.trans [OF subseq_erase_first]
    by (auto simp: filter_erase_first candidate_not_marker intro: order_trans [rotated])
qed simp

lemma mset_evicted:
  "k \<le> length (filter (candidate e) q) \<Longrightarrow>
   mset q = mset (take k (filter (candidate e) q)) + mset (evicted e k q)"
proof (induction k arbitrary: q)
  case (Suc k)
  then obtain c where c: "find (candidate e) q = Some c"
    by (cases "find (candidate e) q") (auto simp: find_None_iff filter_False)
  then show ?case
    using Suc.IH [of "erase_first (candidate e) q"] Suc.prems mset_erase_first [OF c]
      length_filter_erase [OF c] take_Suc_filter_erase [OF c, of k]
    by (simp add: funpow_swap1)
qed simp

section \<open>Loss markers\<close>

definition marker_ok :: "pdcm_event \<Rightarrow> bool" where
  "marker_ok e \<longleftrightarrow> (is_marker e \<longrightarrow> (\<exists>p. pv_payload e = P_SubscriptionLoss p))"

text \<open>How many events an entry of the queue stands for.\<close>

definition weight :: "pdcm_event \<Rightarrow> u64" where
  "weight e = (if is_marker e then (case pv_payload e of P_SubscriptionLoss p \<Rightarrow> sl_dropped_count p | _ \<Rightarrow> 0)
     else 1)"

abbreviation weights :: "pdcm_event list \<Rightarrow> u64" where
  "weights es \<equiv> sum_list (map weight es)"

definition proper_marker :: "pdcm_event \<Rightarrow> bool" where
  "proper_marker e \<longleftrightarrow> is_marker e \<and> (\<exists>p. pv_payload e = P_SubscriptionLoss p)"

lemma proper_marker_bytes: "proper_marker m \<Longrightarrow> eventBytes m = eventBytes (new_marker e)"
  by (auto simp: proper_marker_def eventBytes_def new_marker_def)

lemma lossMarker_Some:
  assumes "lossMarker d marker = Some m" "\<forall>old. marker = Some old \<longrightarrow> is_marker old"
  shows "proper_marker m" "weight m = (case marker of None \<Rightarrow> 0 | Some old \<Rightarrow> weight old) + 1"
    "\<forall>old. marker = Some old \<longrightarrow> proper_marker old"
  using assms
  by (auto simp: lossMarker_def new_marker_def proper_marker_def weight_def
      split: option.splits event_payload.splits)

lemma foldMarker_Some:
  assumes "foldMarker ds marker = Some r" "\<forall>old. marker = Some old \<longrightarrow> is_marker old" "ds \<noteq> []"
  shows "\<exists>m. r = Some m \<and> proper_marker m \<and>
    weight m = (case marker of None \<Rightarrow> 0 | Some old \<Rightarrow> weight old) + of_nat (length ds) \<and>
    (\<forall>old. marker = Some old \<longrightarrow> proper_marker old)"
  using assms
proof (induction ds arbitrary: marker)
  case (Cons d ds)
  then obtain m where m: "lossMarker d marker = Some m" "foldMarker ds (Some m) = Some r"
    by (auto split: option.splits)
  note facts = lossMarker_Some [OF m(1) Cons.prems(2)]
  show ?case
  proof (cases "ds = []")
    case True
    with facts m show ?thesis by (intro exI [of _ m]) auto
  next
    case False
    with Cons.IH [OF m(2)] facts show ?thesis
      by (auto simp: proper_marker_def algebra_simps)
  qed
qed simp

lemma foldMarker_total:
  "\<forall>old. marker = Some old \<longrightarrow> proper_marker old \<Longrightarrow> foldMarker ds marker \<noteq> None"
proof (induction ds arbitrary: marker)
  case (Cons d ds)
  then obtain m where m: "lossMarker d marker = Some m"
    by (cases marker) (auto simp: lossMarker_def proper_marker_def)
  have "proper_marker m"
    using lossMarker_Some(1) [OF m] Cons.prems by (auto simp: proper_marker_def)
  with Cons.IH [of "Some m"] m show ?case by simp
qed simp

lemma replace_marker_facts:
  assumes "find is_marker q = Some old" "is_marker m"
  shows "events_bytes (replace_marker m q) + eventBytes old = events_bytes q + eventBytes m"
    and "length (replace_marker m q) = length q"
    and "weights (replace_marker m q) + weight old = weights q + weight m"
    and "filter (\<lambda>e. \<not> is_marker e) (replace_marker m q) = filter (\<lambda>e. \<not> is_marker e) q"
    and "set (replace_marker m q) \<subseteq> insert m (set q)"
    and "eventBytes old \<le> events_bytes q"
  using assms by (induction q) (auto split: if_splits simp: algebra_simps)

section \<open>Invariant of a queue\<close>

definition queue_inv :: "subscription \<Rightarrow> bool" where
  "queue_inv s \<longleftrightarrow>
     ok (SubscriptionLimits_validate (sub_limits s)) \<and>
     sub_pending_bytes s = events_bytes (sub_pending s) \<and>
     length (sub_pending s) \<le> sbl_max_events (sub_limits s) \<and>
     events_bytes (sub_pending s) \<le> sbl_max_bytes (sub_limits s) \<and>
     (sub_closing s \<or> sub_closed s \<longrightarrow> sub_pending s = [])"

text \<open>The queue after \<open>k\<close> drops: the marker added at the end, or updated where it is.\<close>

definition marked_queue :: "pdcm_event \<Rightarrow> nat \<Rightarrow> pdcm_event list \<Rightarrow> pdcm_event list" where
  "marked_queue e k q =
    (let d = take k (filter (candidate e) q); marker = find is_marker q in
     if k = 0 then q
     else case marker of
       None \<Rightarrow> evicted e k q @ [the (the (foldMarker d None))]
     | Some old \<Rightarrow> replace_marker (the (the (foldMarker d marker))) (evicted e k q))"

definition queue_full :: "pdcm_event \<Rightarrow> subscription \<Rightarrow> bool" where
  "queue_full e s \<longleftrightarrow>
    (\<forall>k \<le> length (filter (candidate e) (sub_pending s)).
       overfull (sub_limits s) e (find is_marker (sub_pending s) = None) k (evicted e k (sub_pending s)))"

definition least_drop :: "pdcm_event \<Rightarrow> subscription \<Rightarrow> nat \<Rightarrow> bool" where
  "least_drop e s k \<longleftrightarrow>
     (let q = sub_pending s; full = overfull (sub_limits s) e (find is_marker q = None) in
      k \<le> length (filter (candidate e) q) \<and> \<not> full k (evicted e k q) \<and>
      (\<forall>j < k. full j (evicted e j q)))"

lemma find_marker_filter: "find P xs = (case filter P xs of [] \<Rightarrow> None | x # _ \<Rightarrow> Some x)"
  by (induction xs) auto

lemma find_marker_evicted: "find is_marker (evicted e k q) = find is_marker q"
  using evicted_facts [of k e q] by (simp add: find_marker_filter)

text \<open>What dropping and marking change: bytes and length of the queue, never its total weight.\<close>

lemma weights_evicted:
  assumes "k \<le> length (filter (candidate e) q)"
  shows "weights q = of_nat k + weights (evicted e k q)"
proof -
  have "weights q = weights (take k (filter (candidate e) q)) + weights (evicted e k q)"
    using arg_cong [OF mset_evicted [OF assms], of "\<lambda>m. sum_mset (image_mset weight m)"]
    by (simp flip: sum_mset_sum_list)
  moreover have "map weight (take k (filter (candidate e) q)) = replicate k 1"
    using assms by (auto simp: weight_def intro!: replicate_eqI dest!: in_set_takeD candidate_not_marker)
  ultimately show ?thesis by (simp add: sum_list_replicate)
qed

definition marking_ok :: "pdcm_event \<Rightarrow> nat \<Rightarrow> pdcm_event list \<Rightarrow> pdcm_event list \<Rightarrow> bool" where
  "marking_ok e k q q' \<longleftrightarrow>
    (let extra = (if find is_marker q = None \<and> 0 < k then 1 else 0) in
     events_bytes q' = events_bytes (evicted e k q) + extra * eventBytes (new_marker e) \<and>
     length q' = length (evicted e k q) + extra \<and> weights q' = weights q \<and>
     filter (\<lambda>e. \<not> is_marker e) q' = filter (\<lambda>e. \<not> is_marker e) (evicted e k q) \<and>
     (\<forall>x \<in> set q'. x \<in> set q \<or> proper_marker x))"

lemma marked_queue_ok:
  assumes k: "k \<le> length (filter (candidate e) q)" and q0: "0 < k \<Longrightarrow> \<forall>old. find is_marker q = Some old \<longrightarrow> proper_marker old"
  shows "marking_ok e k q (marked_queue e k q)"
proof (cases "k = 0")
  case False
  let ?d = "take k (filter (candidate e) q)"
  have "?d \<noteq> []" using k False by auto
  have q: "\<forall>old. find is_marker q = Some old \<longrightarrow> proper_marker old" using q0 False by simp
  obtain r where r: "foldMarker ?d (find is_marker q) = Some r"
    using foldMarker_total [OF q] by blast
  obtain m where m: "r = Some m" "proper_marker m"
    "weight m = (case find is_marker q of None \<Rightarrow> 0 | Some old \<Rightarrow> weight old) + of_nat (length ?d)"
    using foldMarker_Some [OF r _ \<open>?d \<noteq> []\<close>] q by (auto simp: proper_marker_def)
  have sub: "set (evicted e k q) \<subseteq> set q"
    using evicted_facts [of k e q] by (auto dest: list_emb_set)
  show ?thesis
  proof (cases "find is_marker q")
    case None
    then have "marked_queue e k q = evicted e k q @ [m]"
      using False r m(1) by (simp add: marked_queue_def)
    then show ?thesis
      using None False k m sub weights_evicted [OF k] proper_marker_bytes [OF m(2), of e]
      by (auto simp: marking_ok_def proper_marker_def)
  next
    case (Some old)
    then have old: "find is_marker (evicted e k q) = Some old" by (simp add: find_marker_evicted)
    note rep = replace_marker_facts [OF old, of m]
    have mq: "marked_queue e k q = replace_marker m (evicted e k q)"
      using Some False r m(1) by (simp add: marked_queue_def)
    have "eventBytes old = eventBytes m"
      using q Some m(2) proper_marker_bytes by metis
    moreover have "weights (replace_marker m (evicted e k q)) + weight old = weights q + weight old"
      using rep(3) m k Some weights_evicted [OF k] by (simp add: proper_marker_def algebra_simps)
    ultimately show ?thesis
      using Some sub rep m(2) by (auto simp: marking_ok_def mq proper_marker_def)
  qed
qed (simp add: marking_ok_def marked_queue_def)

text \<open>With room for the marked queue and the event, the last check of \<open>enqueue\<close> passes.\<close>

lemma enqueue_fits:
  assumes "least_drop e s k" "marking_ok e k (sub_pending s) q"
  shows "length q < sbl_max_events (sub_limits s)"
    and "events_bytes q + eventBytes e \<le> sbl_max_bytes (sub_limits s)"
  using assms by (auto simp: least_drop_def marking_ok_def overfull_def Let_def split: if_splits)

lemma enqueue_marked:
  assumes inv: "queue_inv s" and "\<not> sub_closing s" "\<not> sub_closed s"
    and "eventBytes e \<le> sbl_max_bytes (sub_limits s)" and k: "least_drop e s k"
    and evict: "evictPending (sub_limits s) e (find is_marker (sub_pending s) = None) [] (sub_pending s)
      (sub_pending_bytes s) = Some (take k (filter (candidate e) (sub_pending s)), evicted e k (sub_pending s),
        events_bytes (evicted e k (sub_pending s)))"
    and fold: "foldMarker (take k (filter (candidate e) (sub_pending s))) (find is_marker (sub_pending s)) = Some r"
    and mk: "marking_ok e k (sub_pending s) (marked_queue e k (sub_pending s))"
  shows "enqueue e s = (False, s\<lparr>sub_pending := marked_queue e k (sub_pending s) @ [e],
    sub_pending_bytes := events_bytes (marked_queue e k (sub_pending s) @ [e])\<rparr>)"
proof -
  let ?q = "sub_pending s" and ?d = "take k (filter (candidate e) (sub_pending s))"
  have d: "?d = [] \<longleftrightarrow> k = 0" using k by (auto simp: least_drop_def Let_def)
  have step: "(if ?d = [] then (evicted e k ?q, events_bytes (evicted e k ?q))
      else case find is_marker (evicted e k ?q) of
        Some old \<Rightarrow> (replace_marker (the r) (evicted e k ?q),
          szsub (events_bytes (evicted e k ?q)) (eventBytes old) + eventBytes (the r))
      | None \<Rightarrow> (evicted e k ?q @ [the r], events_bytes (evicted e k ?q) + eventBytes (the r))) =
    (marked_queue e k ?q, events_bytes (marked_queue e k ?q))"
  proof (cases "k = 0")
    case False
    then obtain m where m: "r = Some m" "proper_marker m"
      using foldMarker_Some [OF fold] d by (auto dest: find_Some_D)
    show ?thesis
    proof (cases "find is_marker ?q")
      case None
      then show ?thesis using False d fold m by (simp add: marked_queue_def find_marker_evicted)
    next
      case (Some old)
      then have old: "find is_marker (evicted e k ?q) = Some old" by (simp add: find_marker_evicted)
      show ?thesis
        using Some old False d fold m replace_marker_facts(1,6) [OF old, of m]
        by (simp add: marked_queue_def proper_marker_def)
    qed
  qed (simp add: marked_queue_def)
  show ?thesis
    using assms enqueue_fits [OF k mk] step
    by (simp add: enqueue_def Let_def not_less not_le)
qed

lemma enqueue_elim:
  assumes inv: "queue_inv s" and eq: "enqueue e s = (threw, s')"
  obtains (ignored) "sub_closing s \<or> sub_closed s" "\<not> threw" "s' = s"
  | (rejected) "\<not> sub_closing s" "\<not> sub_closed s" "\<not> threw" "s' = close_overflow s"
      "sbl_max_bytes (sub_limits s) < eventBytes e \<or> queue_full e s"
  | (thrown) k old where "\<not> sub_closing s" "\<not> sub_closed s" "threw"
      "find is_marker (sub_pending s) = Some old" "\<not> proper_marker old"
      "s' = s\<lparr>sub_pending := evicted e k (sub_pending s),
         sub_pending_bytes := events_bytes (evicted e k (sub_pending s))\<rparr>"
  | (queued) k where "\<not> sub_closing s" "\<not> sub_closed s" "\<not> threw" "least_drop e s k"
      "marking_ok e k (sub_pending s) (marked_queue e k (sub_pending s))"
      "s' = s\<lparr>sub_pending := marked_queue e k (sub_pending s) @ [e],
         sub_pending_bytes := events_bytes (marked_queue e k (sub_pending s) @ [e])\<rparr>"
proof (cases "sub_closing s \<or> sub_closed s")
  case True
  then show ?thesis using eq by (intro ignored) (auto simp: enqueue_def)
next
  case False
  then have open_s: "\<not> sub_closing s" "\<not> sub_closed s" by auto
  let ?q = "sub_pending s" and ?r = "evictPending (sub_limits s) e (find is_marker (sub_pending s) = None) []
    (sub_pending s) (sub_pending_bytes s)"
  show ?thesis
  proof (cases "sbl_max_bytes (sub_limits s) < eventBytes e \<or> ?r = None")
    case True
    have "evict_spec (sub_limits s) e (find is_marker ?q = None) [] ?q ?r"
      using inv evictPending_exact [of ?q] by (simp add: queue_inv_def)
    then have "?r = None \<Longrightarrow> queue_full e s"
      by (simp add: evict_spec_def queue_full_def)
    with True eq open_s show ?thesis
      by (intro rejected) (auto simp: enqueue_def Let_def split: if_splits)
  next
    case fits: False
    have "evict_spec (sub_limits s) e (find is_marker ?q = None) [] ?q ?r"
      using inv evictPending_exact [of ?q] by (simp add: queue_inv_def)
    with fits obtain k where k: "least_drop e s k"
      and r: "?r = Some (take k (filter (candidate e) ?q), evicted e k ?q, events_bytes (evicted e k ?q))"
      by (auto simp: evict_spec_def least_drop_def Let_def)
    show ?thesis
    proof (cases "foldMarker (take k (filter (candidate e) ?q)) (find is_marker ?q)")
      case None
      then obtain old where "find is_marker ?q = Some old" "\<not> proper_marker old"
        using foldMarker_total by blast
      then show ?thesis
        using None eq open_s r fits by (intro thrown) (auto simp: enqueue_def Let_def)
    next
      case (Some m)
      have mk: "\<forall>old. find is_marker ?q = Some old \<longrightarrow> is_marker old" by (auto dest: find_Some_D)
      have kl: "k \<le> length (filter (candidate e) ?q)" using k by (simp add: least_drop_def Let_def)
      then have "take k (filter (candidate e) ?q) \<noteq> []" if "0 < k" using that by auto
      then have "marking_ok e k ?q (marked_queue e k ?q)"
        using foldMarker_Some [OF Some mk] by (intro marked_queue_ok [OF kl]) blast
      then show ?thesis
        using enqueue_marked [OF inv open_s _ k r Some] eq open_s k fits by (intro queued) auto
    qed
  qed
qed

lemma queue_inv_enqueue:
  assumes "queue_inv s"
  shows "queue_inv (snd (enqueue e s))"
proof -
  obtain threw s' where eq: "enqueue e s = (threw, s')" by (cases "enqueue e s") auto
  from assms eq show ?thesis
  proof (cases rule: enqueue_elim)
    case ignored
    then show ?thesis using assms eq by simp
  next
    case rejected
    then show ?thesis using assms eq by (simp add: queue_inv_def close_overflow_def)
  next
    case (thrown k old)
    have "length (evicted e k (sub_pending s)) \<le> length (sub_pending s)"
      using evicted_facts [of k e] by (blast intro: list_emb_length)
    then show ?thesis using assms eq thrown evicted_facts [of k e "sub_pending s"]
      by (auto simp: queue_inv_def)
  next
    case (queued k)
    then show ?thesis using assms eq enqueue_fits [OF queued(4,5)] by (auto simp: queue_inv_def)
  qed
qed

lemma queue_inv_take: "queue_inv s \<Longrightarrow> queue_inv (snd (deliver_take s))"
  by (auto simp: deliver_take_def queue_inv_def split: list.splits)

lemma queue_inv_done: "queue_inv s \<Longrightarrow> queue_inv (deliver_done s)"
  by (auto simp: deliver_done_def queue_inv_def)

lemma queue_inv_make: "ok (SubscriptionLimits_validate l) \<Longrightarrow> queue_inv (make_subscription f l)"
  by (simp add: queue_inv_def make_subscription_def)

text \<open>The life of one queue: events offered by dispatch, entries taken by deliveries.\<close>

datatype queue_op = Q_offer pdcm_event | Q_deliver

primrec queue_step :: "queue_op \<Rightarrow> subscription \<Rightarrow> subscription" where
  "queue_step (Q_offer e) s = snd (enqueue e s)"
| "queue_step Q_deliver s = deliver_done (snd (deliver_take s))"

interpretation sq: component "make_subscription f l" queue_step
  "\<lambda>s. ok (SubscriptionLimits_validate l) \<longrightarrow> queue_inv s" for f l
proof
  fix s op assume "ok (SubscriptionLimits_validate l) \<longrightarrow> queue_inv s"
  then show "ok (SubscriptionLimits_validate l) \<longrightarrow> queue_inv (queue_step op s)"
    by (cases op) (auto simp: queue_inv_enqueue queue_inv_take queue_inv_done)
qed (simp add: queue_inv_make)

fun offered :: "queue_op list \<Rightarrow> pdcm_event list" where
  "offered [] = []"
| "offered (Q_offer e # ops) = e # offered ops"
| "offered (Q_deliver # ops) = offered ops"

fun delivered :: "queue_op list \<Rightarrow> subscription \<Rightarrow> pdcm_event list" where
  "delivered [] s = []"
| "delivered (Q_offer e # ops) s = delivered ops (queue_step (Q_offer e) s)"
| "delivered (Q_deliver # ops) s =
     (case snd (fst (deliver_take s)) of None \<Rightarrow> [] | Some e \<Rightarrow> [e]) @ delivered ops (queue_step Q_deliver s)"

abbreviation plain :: "pdcm_event list \<Rightarrow> pdcm_event list" where
  "plain es \<equiv> filter (\<lambda>e. \<not> is_marker e) es"

abbreviation sub_open :: "subscription \<Rightarrow> bool" where
  "sub_open s \<equiv> \<not> sub_closing s \<and> \<not> sub_closed s"

lemma enqueue_closed: "\<not> sub_open s \<Longrightarrow> enqueue e s = (False, s)"
  by (auto simp: enqueue_def)

lemma deliver_pending:
  assumes "queue_inv s"
  shows "sub_pending s = (case snd (fst (deliver_take s)) of None \<Rightarrow> [] | Some e \<Rightarrow> [e]) @ sub_pending (queue_step Q_deliver s)"
    and "sub_open (queue_step Q_deliver s) = sub_open s"
  using assms by (auto simp: deliver_take_def deliver_done_def queue_inv_def split: list.splits)

lemma offer_open: "queue_inv s \<Longrightarrow> sub_open (queue_step (Q_offer e) s) \<Longrightarrow> sub_open s"
  using enqueue_closed [of s e] by (cases "sub_open s") auto

lemma open_from: "queue_inv s \<Longrightarrow> sub_open (fold queue_step ops s) \<Longrightarrow> sub_open s"
proof (induction ops arbitrary: s)
  case (Cons op ops)
  have "queue_inv (queue_step op s)"
    using Cons.prems(1) by (cases op) (auto simp: queue_inv_enqueue queue_inv_take queue_inv_done)
  then have "sub_open (queue_step op s)" using Cons by simp
  then show ?case using Cons.prems(1) offer_open deliver_pending(2) by (cases op) auto
qed simp

lemma subseq_offer:
  assumes "queue_inv s"
  shows "subseq (plain (sub_pending (queue_step (Q_offer e) s))) (plain (sub_pending s @ [e]))"
proof -
  obtain threw s' where eq: "enqueue e s = (threw, s')" by (cases "enqueue e s") auto
  have ev: "subseq (plain (evicted e k (sub_pending s))) (plain (sub_pending s))" for k
    using evicted_facts [of k e "sub_pending s"] by (intro subseq_filter) simp
  from assms eq show ?thesis
  proof (cases rule: enqueue_elim)
    case (queued k)
    then show ?thesis using eq ev [of k] by (auto simp: marking_ok_def Let_def list_emb_append_mono)
  next
    case (thrown k old)
    then show ?thesis using eq ev [of k] by (auto simp: subseq_rev_drop_many)
  qed (auto simp: eq close_overflow_def subseq_rev_drop_many)
qed

section \<open>Nothing is lost silently\<close>

abbreviation is_draining :: "pdcm_event \<Rightarrow> bool" where
  "is_draining e \<equiv> pv_type e = ET_DaemonDraining"

lemma filter_draining_plain: "filter is_draining (plain es) = filter is_draining es"
  by (induction es) auto

lemma draining_evicted: "filter is_draining (evicted e k q) = filter is_draining q"
proof (induction k)
  case (Suc k)
  have "candidate e x \<Longrightarrow> \<not> is_draining x" for x
    by (auto simp: candidate_def sameMetricKey_def droppable_def isNonDroppable_def split: if_splits)
  with Suc show ?case by (simp add: filter_erase_first)
qed simp

lemma proper_marker_ok: "marker_ok m \<Longrightarrow> is_marker m \<Longrightarrow> proper_marker m"
  by (simp add: marker_ok_def proper_marker_def)

lemma offer_accounted:
  assumes "queue_inv s" "list_all marker_ok (sub_pending s)" "marker_ok e"
    and eq: "enqueue e s = (threw, s')"
  shows "\<not> threw" "list_all marker_ok (sub_pending s')"
    and "sub_open s' \<Longrightarrow> weights (sub_pending s') = weights (sub_pending s) + weight e"
    and "sub_open s' \<Longrightarrow> filter is_draining (sub_pending s') = filter is_draining (sub_pending s @ [e])"
proof -
  have "\<not> threw \<and> list_all marker_ok (sub_pending s') \<and>
    (sub_open s' \<longrightarrow> weights (sub_pending s') = weights (sub_pending s) + weight e \<and>
      filter is_draining (sub_pending s') = filter is_draining (sub_pending s @ [e]))"
    using assms(1) eq
  proof (cases rule: enqueue_elim)
    case ignored
    then show ?thesis using assms by auto
  next
    case rejected
    then show ?thesis by (auto simp: close_overflow_def)
  next
    case (thrown k old)
    have "old \<in> set (sub_pending s)" "is_marker old" using find_Some_D [OF thrown(4)] by auto
    then show ?thesis using assms(2) thrown(5) by (auto simp: list_all_iff proper_marker_ok)
  next
    case (queued k)
    let ?q = "marked_queue e k (sub_pending s)"
    have "filter is_draining ?q = filter is_draining (sub_pending s)"
      using queued(5) filter_draining_plain [of ?q] filter_draining_plain [of "evicted e k (sub_pending s)"]
      by (simp add: marking_ok_def Let_def draining_evicted)
    moreover have "list_all marker_ok ?q"
      using queued(5) assms(2) by (auto simp: list_all_iff marking_ok_def Let_def marker_ok_def proper_marker_def)
    ultimately show ?thesis
      using queued assms(3) by (auto simp: marking_ok_def Let_def)
  qed
  then show "\<not> threw" "list_all marker_ok (sub_pending s')"
    "sub_open s' \<Longrightarrow> weights (sub_pending s') = weights (sub_pending s) + weight e"
    "sub_open s' \<Longrightarrow> filter is_draining (sub_pending s') = filter is_draining (sub_pending s @ [e])" by auto
qed

lemma queue_inv_step: "queue_inv s \<Longrightarrow> queue_inv (queue_step op s)"
  by (cases op) (auto simp: queue_inv_enqueue queue_inv_take queue_inv_done)

lemma queue_run_accounted:
  assumes "queue_inv s" "list_all marker_ok (sub_pending s)" "list_all marker_ok (offered ops)"
    and "sub_open (fold queue_step ops s)"
  shows "weights (delivered ops s) + weights (sub_pending (fold queue_step ops s)) =
      weights (sub_pending s) + weights (offered ops) \<and>
    filter is_draining (delivered ops s @ sub_pending (fold queue_step ops s)) =
      filter is_draining (sub_pending s @ offered ops)"
  using assms
proof (induction ops arbitrary: s)
  case (Cons op ops)
  have inv: "queue_inv (queue_step op s)" by (rule queue_inv_step [OF Cons.prems(1)])
  have opn: "sub_open (queue_step op s)"
    using open_from [OF inv] Cons.prems(4) by simp
  show ?case
  proof (cases op)
    case (Q_offer e)
    obtain threw s' where eq: "enqueue e s = (threw, s')" by (cases "enqueue e s") auto
    have e: "marker_ok e" using Cons.prems(3) Q_offer by simp
    note acc = offer_accounted [OF Cons.prems(1,2) e eq]
    show ?thesis
      using Cons.IH [OF inv] Cons.prems acc opn by (simp add: Q_offer eq)
  next
    case Q_deliver
    note del = deliver_pending(1) [OF Cons.prems(1)]
    let ?d = "case snd (fst (deliver_take s)) of None \<Rightarrow> [] | Some e \<Rightarrow> [e]"
    have "list_all marker_ok (sub_pending (queue_step op s))"
      using Cons.prems(2) unfolding Q_deliver by (subst (asm) del) simp
    from Cons.IH [OF inv this] Cons.prems(3,4) have
      "weights (delivered ops (queue_step op s)) + weights (sub_pending (fold queue_step ops (queue_step op s))) =
        weights (sub_pending (queue_step op s)) + weights (offered ops)"
      "filter is_draining (delivered ops (queue_step op s) @ sub_pending (fold queue_step ops (queue_step op s))) =
        filter is_draining (sub_pending (queue_step op s) @ offered ops)"
      by (simp_all add: Q_deliver)
    then show ?thesis
      by (simp add: Q_deliver del del: queue_step.simps)
  qed
qed simp

lemma queue_run_order:
  assumes "queue_inv s"
  shows "subseq (plain (delivered ops s @ sub_pending (fold queue_step ops s))) (plain (sub_pending s @ offered ops))"
  using assms
proof (induction ops arbitrary: s)
  case (Cons op ops)
  have inv: "queue_inv (queue_step op s)" by (rule queue_inv_step [OF Cons.prems])
  note IH = Cons.IH [OF inv]
  show ?case
  proof (cases op)
    case (Q_offer e)
    have "subseq (plain (sub_pending (queue_step op s) @ offered ops)) (plain ((sub_pending s @ [e]) @ offered ops))"
      unfolding filter_append [of _ "sub_pending (queue_step op s)"] filter_append [of _ "sub_pending s @ [e]"]
      by (rule list_emb_append_mono) (use subseq_offer [OF Cons.prems] Q_offer in auto)
    from subseq_order.trans [OF IH this] show ?thesis by (simp add: Q_offer)
  next
    case Q_deliver
    show ?thesis
      using list_emb_append_mono [OF subseq_order.refl IH]
      by (simp add: Q_deliver deliver_pending(1) [OF Cons.prems] del: queue_step.simps)
  qed
qed simp

section \<open>Properties\<close>
text \<open>
  The delivery queue of a subscription stays within its limits. Whatever events are
  offered and whenever entries are delivered, the queue never holds more events or bytes than
  the subscription allows, its byte counter is the size of what is queued, and a subscription
  that is closed holds nothing.
\<close>

theorem subscription_queue_bounded:
  assumes "ok (SubscriptionLimits_validate l)"
    and "s = fold queue_step ops (make_subscription f l)"
  shows "length (sub_pending s) \<le> sbl_max_events l \<and> sub_pending_bytes s \<le> sbl_max_bytes l \<and>
    sub_pending_bytes s = events_bytes (sub_pending s) \<and> (sub_closed s \<longrightarrow> sub_pending s = [])"
proof -
  have "sub_limits (fold queue_step ops t) = sub_limits t" for t
  proof (induction ops arbitrary: t)
    case (Cons op ops)
    have "sub_limits (queue_step op t) = sub_limits t"
      by (cases op) (auto simp: enqueue_def deliver_take_def deliver_done_def close_overflow_def Let_def
          split: option.splits list.splits prod.splits)
    with Cons show ?case by simp
  qed simp
  then have "sub_limits s = l" by (simp add: assms(2) make_subscription_def)
  then show ?thesis using sq.inv_reach [of l ops f] assms by (auto simp: queue_inv_def)
qed

text \<open>
  C3: No event is lost silently. While a subscription is open, the events offered to it are
  exactly those delivered, those still queued and those counted by a loss marker (a marker
  counts the events it stands for, modulo the 64-bit width of its counter), and no daemon
  draining event is ever dropped. This holds for all offered events whose loss markers, if
  any, carry a loss payload.
\<close>

theorem subscription_accounts_for_every_event:
  assumes "ok (SubscriptionLimits_validate l)" and "list_all marker_ok (offered ops)"
    and "sub_open (fold queue_step ops (make_subscription f l))"
  shows "weights (delivered ops (make_subscription f l)) +
      weights (sub_pending (fold queue_step ops (make_subscription f l))) = weights (offered ops) \<and>
    filter is_draining (delivered ops (make_subscription f l) @
      sub_pending (fold queue_step ops (make_subscription f l))) = filter is_draining (offered ops)"
  using queue_run_accounted [OF queue_inv_make [OF assms(1)] _ assms(2,3)]
  by (simp add: make_subscription_def)

definition witness_update :: "u64 \<Rightarrow> pdcm_event" where
  "witness_update n =
     \<lparr>pv_boot_epoch = 1, pv_sequence = n, pv_type = ET_MetricUpdate, pv_severity = SV_Info,
      pv_entity = Some (EntityRef EK_Device 0 1), pv_metric = Some 7, pv_health_subsystem = None,
      pv_occurrence_time_ns = 5, pv_catalog_generation = 1, pv_payload = P_None\<rparr>"

definition witness_filter :: subscription_filter where
  "witness_filter =
     \<lparr>sf_event_types = [ET_MetricUpdate], sf_entity = None, sf_metrics = [],
      sf_health_subsystem = None, sf_minimum_severity = SV_Info, sf_follow_rediscovery = False\<rparr>"

definition witness_queue :: subscription where
  "witness_queue = make_subscription witness_filter \<lparr>sbl_max_events = 2, sbl_max_bytes = 1000\<rparr>"

definition witness_ops :: "queue_op list" where
  "witness_ops = map (\<lambda>n. Q_offer (witness_update n)) [1, 2, 3] @ [Q_deliver]"

theorem subscription_accounts_for_every_event_witness:
  "weights (delivered witness_ops witness_queue) +
     weights (sub_pending (fold queue_step witness_ops witness_queue)) = 3 \<and>
   map is_marker (sub_pending (fold queue_step witness_ops witness_queue)) = [False]"
proof -
  have run: "sub_open (fold queue_step witness_ops witness_queue) \<and>
      map is_marker (sub_pending (fold queue_step witness_ops witness_queue)) = [False] \<and>
      weights (offered witness_ops) = 3 \<and>
      list_all (\<lambda>e. \<not> is_marker e) (offered witness_ops)"
    by code_simp
  moreover have "list_all marker_ok (offered witness_ops)"
    using run by (auto simp: list_all_iff marker_ok_def)
  ultimately show ?thesis
    using subscription_accounts_for_every_event [of "\<lparr>sbl_max_events = 2, sbl_max_bytes = 1000\<rparr>" witness_ops witness_filter]
    by (simp add: witness_queue_def SubscriptionLimits_validate_def ok_def)
qed

text \<open>
  A subscription is delivered its events in the order they were offered, without
  duplicates or inventions: the delivered and queued events other than loss markers are a
  subsequence of the offered ones.
\<close>

theorem subscription_order_kept:
  assumes "ok (SubscriptionLimits_validate l)"
  shows "subseq (plain (delivered ops (make_subscription f l) @
      sub_pending (fold queue_step ops (make_subscription f l)))) (plain (offered ops))"
  using queue_run_order [OF queue_inv_make [OF assms], of ops f] by (simp add: make_subscription_def)

text \<open>
  Backpressure drops as little as possible. Offering an event to an open subscription
  either queues it after dropping the least number of oldest droppable events (for a metric
  update: of the same entity and metric) with which the queue and its loss marker fit, or
  closes the subscription, and that only when the event alone exceeds the byte limit or no
  number of drops makes room.
\<close>

theorem backpressure_minimal:
  assumes "queue_inv s" and "sub_open s" and "list_all marker_ok (sub_pending s)" and "marker_ok e"
  shows "enqueue e s = (False, close_overflow s) \<and>
      (sbl_max_bytes (sub_limits s) < eventBytes e \<or> queue_full e s) \<or>
    (\<exists>k. least_drop e s k \<and>
      enqueue e s = (False, s\<lparr>sub_pending := marked_queue e k (sub_pending s) @ [e],
        sub_pending_bytes := events_bytes (marked_queue e k (sub_pending s) @ [e])\<rparr>))"
proof -
  obtain threw s' where eq: "enqueue e s = (threw, s')" by (cases "enqueue e s") auto
  have "\<not> threw" by (rule offer_accounted(1) [OF assms(1,3,4) eq])
  from assms(1) eq show ?thesis
  proof (cases rule: enqueue_elim)
    case ignored
    then show ?thesis using assms(2) by simp
  next
    case rejected
    then show ?thesis using eq by auto
  next
    case thrown
    then show ?thesis using \<open>\<not> threw\<close> by simp
  next
    case (queued k)
    then show ?thesis using eq by auto
  qed
qed

end
