(* ===== verification/Subscription_Dispatch.thy ===== *)
theory Subscription_Dispatch
  imports Subscriptions
begin

text \<open>
  The manager of \<open>subscription_manager.cpp\<close> over the data manager it reads, used by one thread
  (each call runs to its end before the next): dispatching a snapshot is the same as feeding
  every subscription its own matching events, and no operation breaks the registry. Calls that
  overlap are the subject of \<open>Subscription_Order\<close> and \<open>Subscription_Close\<close>.
\<close>

section \<open>Dispatch feeds each queue on its own\<close>

definition feed :: "pdcm_event list \<Rightarrow> subscription \<Rightarrow> subscription" where
  "feed es s = fold (\<lambda>e s. snd (enqueue e s)) (filter (matches (sub_filter s)) es) s"

lemma enqueue_filter [simp]: "sub_filter (snd (enqueue e s)) = sub_filter s"
  by (auto simp: enqueue_def close_overflow_def Let_def split: option.splits prod.splits)

lemma feed_Nil [simp]: "feed [] s = s"
  by (simp add: feed_def)

lemma feed_Cons:
  "feed (e # es) s = feed es (if matches (sub_filter s) e then snd (enqueue e s) else s)"
  by (simp add: feed_def)

definition registry_ok :: "u64 list \<Rightarrow> (u64, subscription) omap \<Rightarrow> bool" where
  "registry_ok sids objs \<longleftrightarrow> distinct sids \<and> set sids \<subseteq> fst ` set objs \<and> omap_ok objs"

lemma registry_ok_put:
  "registry_ok sids objs \<Longrightarrow> registry_ok sids (omap_put sid s objs)"
  by (auto simp: registry_ok_def set_omap_put_fst)

lemma dispatchEvent_keys:
  "set sids \<subseteq> fst ` set objs \<Longrightarrow> fst ` set (snd (dispatchEvent e sids objs)) = fst ` set objs \<and>
     (omap_ok objs \<longrightarrow> omap_ok (snd (dispatchEvent e sids objs)))"
proof (induction sids arbitrary: objs)
  case (Cons sid sids)
  have put: "fst ` set (omap_put sid s objs) = fst ` set objs" for s
    using Cons.prems by (auto simp: set_omap_put_fst)
  show ?case
    using Cons.IH Cons.prems put by (auto split: option.splits prod.splits bool.splits)
qed simp

lemma dispatchEvent_feed:
  assumes "registry_ok sids objs" "dispatchEvent e sids objs = (False, objs')"
  shows "map_of objs' sid =
    map_option (\<lambda>s. if sid \<in> set sids then feed [e] s else s) (map_of objs sid)"
  using assms
proof (induction sids arbitrary: objs)
  case Nil
  then show ?case by (simp add: option.map_ident)
next
  case (Cons t sids)
  have ok: "omap_ok objs" and reg: "registry_ok sids objs" and t: "t \<notin> set sids"
    using Cons.prems(1) by (auto simp: registry_ok_def)
  obtain s where s: "map_of objs t = Some s"
    by (cases "map_of objs t") (use Cons.prems(1) in \<open>auto simp: registry_ok_def map_of_eq_None_iff\<close>)
  show ?case
  proof (cases "matches (sub_filter s) e")
    case True
    then obtain s' where s': "enqueue e s = (False, s')" "dispatchEvent e sids (omap_put t s' objs) = (False, objs')"
      using Cons.prems(2) s by (auto split: prod.splits bool.splits)
    from Cons.IH [OF registry_ok_put [OF reg] s'(2)] show ?thesis
      using s s' t True by (auto simp: map_of_omap_put [OF ok] feed_def)
  next
    case False
    with Cons.IH [OF reg] Cons.prems(2) s t show ?thesis by (cases "sid = t") (auto simp: feed_def)
  qed
qed

lemma dispatchEvents_feed:
  assumes "registry_ok sids objs" "dispatchEvents es sids objs = (False, objs')"
  shows "map_of objs' sid =
    map_option (\<lambda>s. if sid \<in> set sids then feed es s else s) (map_of objs sid)"
  using assms
proof (induction es arbitrary: objs)
  case Nil
  then show ?case by (cases "sid \<in> set sids") (auto simp: option.map_ident)
next
  case (Cons e es)
  then obtain objs1 where 1: "dispatchEvent e sids objs = (False, objs1)" "dispatchEvents es sids objs1 = (False, objs')"
    by (auto split: prod.splits bool.splits)
  have "registry_ok sids objs1"
    using Cons.prems(1) dispatchEvent_keys [of sids objs e] 1(1) by (auto simp: registry_ok_def)
  from Cons.IH [OF this 1(2)] dispatchEvent_feed [OF Cons.prems(1) 1(1), of sid] show ?case
    by (auto simp: option.map_comp feed_def intro!: option.map_cong0)
qed

lemma dispatchEvents_keys:
  "set sids \<subseteq> fst ` set objs \<Longrightarrow> fst ` set (snd (dispatchEvents es sids objs)) = fst ` set objs \<and>
     (omap_ok objs \<longrightarrow> omap_ok (snd (dispatchEvents es sids objs)))"
proof (induction es arbitrary: objs)
  case (Cons e es)
  obtain b objs' where eq: "dispatchEvent e sids objs = (b, objs')" by (metis prod.exhaust)
  with dispatchEvent_keys [OF Cons.prems, of e] Cons.IH [of objs'] Cons.prems
  show ?case by (cases b) (simp_all add: eq)
qed simp

text \<open>What every queue keeps, whether or not a dispatch is cut short by an exception.\<close>

lemma dispatchEvent_all:
  assumes "\<And>s. P s \<Longrightarrow> P (snd (enqueue e s))" "\<forall>s \<in> snd ` set objs. P s"
  shows "\<forall>s \<in> snd ` set (snd (dispatchEvent e sids objs)). P s"
  using assms(2)
proof (induction sids arbitrary: objs)
  case (Cons t sids)
  have put: "\<forall>x \<in> snd ` set (omap_put t (snd (enqueue e s)) objs). P x" if "map_of objs t = Some s" for s
    using that Cons.prems assms(1) [of s] set_omap_put [of t "snd (enqueue e s)" objs]
    by (force dest: map_of_SomeD)
  show ?case
  proof (cases "map_of objs t")
    case (Some s)
    then show ?thesis using Cons put [OF Some] by (auto split: prod.splits bool.splits)
  qed (use Cons in simp)
qed simp

lemma dispatchEvents_all:
  assumes "\<And>e s. e \<in> set es \<Longrightarrow> P s \<Longrightarrow> P (snd (enqueue e s))" "\<forall>s \<in> snd ` set objs. P s"
  shows "\<forall>s \<in> snd ` set (snd (dispatchEvents es sids objs)). P s"
  using assms
proof (induction es arbitrary: objs)
  case (Cons e es)
  obtain b objs' where eq: "dispatchEvent e sids objs = (b, objs')" by (metis prod.exhaust)
  have all: "\<forall>s \<in> snd ` set (snd (dispatchEvent e sids objs)). P s"
    by (rule dispatchEvent_all) (use Cons.prems in auto)
  then have "\<forall>s \<in> snd ` set (snd (dispatchEvents es sids objs')). P s"
    by (intro Cons.IH) (auto simp: eq intro: Cons.prems(1))
  with all show ?case by (cases b) (simp_all add: eq)
qed simp

section \<open>The events the data manager publishes\<close>

definition draft_ok :: "event_draft \<Rightarrow> bool" where
  "draft_ok d \<longleftrightarrow> (dr_type d = ET_SubscriptionLossMarker \<longrightarrow> (\<exists>p. dr_payload d = P_SubscriptionLoss p))"

abbreviation events_ok :: "data_manager \<Rightarrow> bool" where
  "events_ok d \<equiv> list_all marker_ok (es_events (dm_event_store d))"

lemma events_ok_publish:
  assumes "es_inv s" "list_all marker_ok (es_events s)" "draft_ok x"
  shows "list_all marker_ok (es_events (snd (EventStore_publish x s)))"
proof -
  obtain st ev s' where eq: "EventStore_publish x s = ((st, ev), s')" by (metis prod.exhaust)
  have e: "ev = Some e \<Longrightarrow> marker_ok e" for e
    using eq assms(3)
    by (auto simp: EventStore_publish_def Let_def event_of_draft_def marker_ok_def draft_ok_def split: if_splits prod.splits)
  from publish_events [OF assms(1) eq] show ?thesis
  proof (elim disjE exE conjE)
    fix x assume "ev = Some x" "suffix (es_events s') (es_events s @ [x])"
    then show ?thesis
      using e assms(2) eq set_mono_suffix [of "es_events s'" "es_events s @ [x]"] by (auto simp: list_all_iff)
  qed (use assms(2) eq in simp)
qed

lemma events_ok_fold:
  "es_inv s \<Longrightarrow> list_all marker_ok (es_events s) \<Longrightarrow> \<forall>x \<in> set xs. draft_ok (f x) \<Longrightarrow>
   list_all marker_ok (es_events (fold (\<lambda>x s. snd (EventStore_publish (f x) s)) xs s))"
  by (induction xs arbitrary: s) (auto simp: es_inv_publish events_ok_publish)

lemma drafts_ok [simp]:
  "draft_ok (commit_draft n o')" "draft_ok (health_draft a b r)" "draft_ok (drain_draft t d)"
  "draft_ok (default_draft\<lparr>dr_type := ET_CatalogChanged, dr_catalog_generation := g\<rparr>)"
  by (simp_all add: draft_ok_def commit_draft_def health_draft_def drain_draft_def default_draft_def)

lemma events_ok_step:
  assumes "data_inv d" "store_inv d" "events_ok d" "\<And>x. op = DM_publishEvent x \<Longrightarrow> draft_ok x"
  shows "events_ok (dm_step op d)"
proof (cases op)
  case (DM_activateCatalog v tc)
  then have "DataManager_activateCatalog v tc d = (fst (DataManager_activateCatalog v tc d), dm_step op d)"
    by simp
  then show ?thesis
    by (cases rule: activate_elim)
      (use assms in \<open>simp_all add: store_inv_def events_ok_publish del: dm_step.simps\<close>)
next
  case (DM_commit os)
  have "shards_ok (dm_shards d)" using assms(1) by (simp add: data_inv_def)
  moreover have "DataManager_commit os d = (fst (DataManager_commit os d), dm_step op d)"
    by (simp add: DM_commit)
  ultimately show ?thesis
  proof (cases rule: data_commit_elim)
    case (committed staged)
    show ?thesis
      by (subst committed(14)) (use assms in \<open>simp add: store_inv_def events_ok_fold\<close>)
  qed (use assms in simp)
next
  case (DM_commitHeartbeatEvidence e)
  then show ?thesis using assms by (simp add: commitHeartbeatEvidence_frame)
next
  case (DM_commitHealth r)
  then have "commitHealth r d = (fst (commitHealth r d), dm_step op d)" by simp
  then show ?thesis
    by (cases rule: health_commit_elim)
      (use assms in \<open>simp_all add: store_inv_def events_ok_publish del: dm_step.simps\<close>)
next
  case (DM_publishEvent x)
  then show ?thesis
    using assms by (auto simp: publishEvent_def store_inv_def events_ok_publish split: prod.splits
        dest: events_ok_publish [of "dm_event_store d" x])
qed

section \<open>Data manager and subscriptions together\<close>

text \<open>
  \<open>drain\<close> is the only publisher outside the data manager: the operations of the pair are the
  committing operations of the data manager and the calls of the subscription manager, one after
  the other.
\<close>

datatype hub_op =
    H_activateCatalog "catalog_view option" target_catalog
  | H_commit "observation list"
  | H_commitHeartbeatEvidence heartbeat_evidence
  | H_commitHealth health_result
  | H_subscribe subscription_filter subscription_limits
  | H_dispatch
  | H_deliverNext bool u64
  | H_close u64
  | H_drain i64

primrec hub_step :: "hub_op \<Rightarrow> data_manager \<times> subscription_manager \<Rightarrow> data_manager \<times> subscription_manager" where
  "hub_step (H_activateCatalog v tc) st = (dm_step (DM_activateCatalog v tc) (fst st), snd st)"
| "hub_step (H_commit os) st = (dm_step (DM_commit os) (fst st), snd st)"
| "hub_step (H_commitHeartbeatEvidence e) st = (dm_step (DM_commitHeartbeatEvidence e) (fst st), snd st)"
| "hub_step (H_commitHealth r) st = (dm_step (DM_commitHealth r) (fst st), snd st)"
| "hub_step (H_subscribe f l) st = (fst st, snd (subscribe f l (snd st)))"
| "hub_step H_dispatch st = (fst st, snd (dispatch (fst st) (snd st)))"
| "hub_step (H_deliverNext returns sid) st = (fst st, snd (deliverNext (Some (\<lambda>_. returns)) sid (snd st)))"
| "hub_step (H_close sid) st =
     (case Subscription_close sid (snd st) of None \<Rightarrow> st | Some (_, m) \<Rightarrow> (fst st, m))"
| "hub_step (H_drain t) st = snd (drain t st)"

definition seq_ok :: "u64 \<Rightarrow> subscription \<Rightarrow> bool" where
  "seq_ok seen s \<longleftrightarrow>
     sorted_wrt (<) (map pv_sequence (plain (sub_pending s))) \<and>
     (\<forall>e \<in> set (plain (sub_pending s)). pv_sequence e \<le> seen)"

definition object_inv :: "u64 \<Rightarrow> subscription \<Rightarrow> bool" where
  "object_inv seen s \<longleftrightarrow>
     queue_inv s \<and> list_all marker_ok (sub_pending s) \<and> sub_active_deliveries s = 0 \<and> seq_ok seen s"

definition manager_inv :: "subscription_manager \<Rightarrow> bool" where
  "manager_inv m \<longleftrightarrow>
     registry_ok (sbm_subscriptions m) (sbm_objects m) \<and> sbm_next_subscription_id m \<noteq> 0 \<and>
     (\<forall>sid \<in> fst ` set (sbm_objects m). 0 < sid \<and> sid < sbm_next_subscription_id m) \<and>
     length (sbm_subscriptions m) \<le> sbm_max_subscriptions m \<and>
     (\<forall>sid s. map_of (sbm_objects m) sid = Some s \<longrightarrow> object_inv (sbm_last_seen_sequence m) s)"

definition hub_inv :: "data_manager \<times> subscription_manager \<Rightarrow> bool" where
  "hub_inv st \<longleftrightarrow> data_inv (fst st) \<and> store_inv (fst st) \<and> events_ok (fst st) \<and> manager_inv (snd st)"

text \<open>Feeding a queue events newer than everything it has seen.\<close>

lemma enqueue_active [simp]: "sub_active_deliveries (snd (enqueue e s)) = sub_active_deliveries s"
  by (auto simp: enqueue_def close_overflow_def Let_def split: option.splits prod.splits)

lemma object_inv_enqueue:
  assumes "object_inv b s" "marker_ok e" "b < pv_sequence e"
  shows "object_inv (pv_sequence e) (snd (enqueue e s))" "\<not> fst (enqueue e s)"
proof -
  obtain threw s' where eq: "enqueue e s = (threw, s')" by (cases "enqueue e s") auto
  have inv: "queue_inv s" "list_all marker_ok (sub_pending s)" "seq_ok b s" "sub_active_deliveries s = 0"
    using assms(1) by (auto simp: object_inv_def)
  note acc = offer_accounted(1,2) [OF inv(1,2) assms(2) eq]
  have sub: "subseq (plain (sub_pending s')) (plain (sub_pending s @ [e]))"
    using subseq_offer [OF inv(1), of e] eq by simp
  have "sorted_wrt (<) (map pv_sequence (plain (sub_pending s @ [e])))"
    using inv(3) assms(3) by (auto simp: seq_ok_def sorted_wrt_append intro: order_le_less_trans)
  then have "sorted_wrt (<) (map pv_sequence (plain (sub_pending s')))"
    using sorted_wrt_subseq [OF _ subseq_map [OF sub]] by blast
  moreover have "\<forall>x \<in> set (plain (sub_pending s')). pv_sequence x \<le> pv_sequence e"
  proof
    fix x assume "x \<in> set (plain (sub_pending s'))"
    then have "x \<in> set (plain (sub_pending s @ [e]))" using sub by (auto elim: list_emb_set)
    then show "pv_sequence x \<le> pv_sequence e"
      using inv(3) assms(3) by (auto simp: seq_ok_def split: if_splits dest!: bspec)
  qed
  moreover have "queue_inv s'" "sub_active_deliveries s' = 0"
    using queue_inv_enqueue [OF inv(1), of e] enqueue_active [of e s] inv(4) eq by simp_all
  ultimately show "object_inv (pv_sequence e) (snd (enqueue e s))" "\<not> fst (enqueue e s)"
    using acc by (auto simp: eq object_inv_def seq_ok_def)
qed

lemma object_inv_mono: "object_inv b s \<Longrightarrow> b \<le> b' \<Longrightarrow> object_inv b' s"
  by (auto simp: object_inv_def seq_ok_def intro: order_trans)

text \<open>A batch of events newer than \<open>b\<close>, in sequence order, none newer than \<open>b'\<close>.\<close>

definition batch_ok :: "u64 \<Rightarrow> u64 \<Rightarrow> pdcm_event list \<Rightarrow> bool" where
  "batch_ok b b' es \<longleftrightarrow>
     sorted_wrt (<) (map pv_sequence es) \<and> list_all marker_ok es \<and> b \<le> b' \<and>
     (\<forall>e \<in> set es. b < pv_sequence e \<and> pv_sequence e \<le> b')"

lemma batch_ok_Cons:
  "batch_ok b b' (e # es) \<Longrightarrow>
   marker_ok e \<and> b < pv_sequence e \<and> pv_sequence e \<le> b' \<and> batch_ok (pv_sequence e) b' es"
  by (auto simp: batch_ok_def)

lemma feed_inv: "object_inv b s \<Longrightarrow> batch_ok b b' es \<Longrightarrow> object_inv b' (feed es s)"
proof (induction es arbitrary: b s)
  case Nil
  then show ?case by (auto simp: batch_ok_def intro: object_inv_mono)
next
  case (Cons e es)
  note e = batch_ok_Cons [OF Cons.prems(2)]
  show ?case
    using Cons.IH [of "pv_sequence e"] e object_inv_enqueue(1) [OF Cons.prems(1), of e]
      object_inv_mono [OF Cons.prems(1), of "pv_sequence e"]
    by (auto simp: feed_Cons)
qed

lemma dispatchEvent_total:
  assumes "registry_ok sids objs" "marker_ok e" "b < pv_sequence e"
    and "\<forall>t \<in> set sids. \<forall>s. map_of objs t = Some s \<longrightarrow> object_inv b s"
  shows "\<not> fst (dispatchEvent e sids objs)"
  using assms(1,4)
proof (induction sids arbitrary: objs)
  case (Cons t sids)
  have ok: "omap_ok objs" and reg: "registry_ok sids objs" and t: "t \<notin> set sids"
    using Cons.prems(1) by (auto simp: registry_ok_def)
  show ?case
  proof (cases "map_of objs t")
    case (Some s)
    have s: "object_inv b s" using Cons.prems(2) Some by simp
    obtain s' where s': "enqueue e s = (False, s')"
      using object_inv_enqueue(2) [OF s assms(2,3)] by (cases "enqueue e s") auto
    have "\<not> fst (dispatchEvent e sids (omap_put t s' objs))"
      using Cons.prems(2) t by (intro Cons.IH [OF registry_ok_put [OF reg]]) (auto simp: map_of_omap_put [OF ok])
    with Cons.IH [OF reg] Cons.prems(2) Some s' show ?thesis by simp
  qed (use Cons.IH [OF reg] Cons.prems(2) in simp)
qed simp

lemma dispatchEvents_total:
  assumes "registry_ok sids objs" "batch_ok b b' es"
    and "\<forall>t s. map_of objs t = Some s \<longrightarrow> object_inv b s"
  shows "\<not> fst (dispatchEvents es sids objs)"
  using assms
proof (induction es arbitrary: objs b)
  case (Cons e es)
  note e = batch_ok_Cons [OF Cons.prems(2)]
  obtain objs1 where 1: "dispatchEvent e sids objs = (False, objs1)"
    using dispatchEvent_total [OF Cons.prems(1)] e Cons.prems(3) by (metis prod.collapse)
  have "registry_ok sids objs1"
    using Cons.prems(1) dispatchEvent_keys [of sids objs e] 1 by (auto simp: registry_ok_def)
  moreover have "object_inv (pv_sequence e) s" if t1: "map_of objs1 t = Some s" for t s
  proof -
    obtain s0 where s0: "map_of objs t = Some s0" "s = (if t \<in> set sids then feed [e] s0 else s0)"
      using t1 dispatchEvent_feed [OF Cons.prems(1) 1, of t] by auto
    have "batch_ok b (pv_sequence e) [e]" using e by (auto simp: batch_ok_def)
    then show ?thesis
      using s0 Cons.prems(3) e by (auto intro: feed_inv object_inv_mono less_imp_le)
  qed
  ultimately show ?case using Cons.IH [of objs1 "pv_sequence e"] e 1 by simp
qed simp

lemma snapshot_batch_ok:
  assumes "store_inv d" "events_ok d" "data_inv d" "sn_events (eventsSince n d) \<noteq> []"
  shows "batch_ok n (sn_latest_sequence (eventsSince n d)) (sn_events (eventsSince n d))"
proof -
  have inv: "data_inv d \<and> store_inv d" using assms by simp
  have "set (sn_events (eventsSince n d)) \<subseteq> set (es_events (dm_event_store d))"
    by (auto simp: eventsSince_def EventStore_since_def dest: set_dropWhileD)
  then have "list_all marker_ok (sn_events (eventsSince n d))"
    using assms(2) by (auto simp: list_all_iff)
  moreover have "n \<le> sn_latest_sequence (eventsSince n d)"
    using assms(4) dmsrc.since_above [OF inv, of _ n] dmsrc.since_latest [OF inv, of _ n]
    by (meson last_in_set less_imp_le order_trans)
  ultimately show ?thesis
    using dmsrc.since_sorted [OF inv, of n] dmsrc.since_above [OF inv, of _ n] dmsrc.since_latest [OF inv, of _ n]
    by (auto simp: batch_ok_def)
qed

text \<open>Dispatching from a good state: it succeeds and feeds every registered queue on its own.\<close>

lemma dispatch_feeds:
  assumes inv: "hub_inv (d, m)" and eq: "dispatch d m = (r, m')"
  shows "r = Some SUCCESS"
    and "map_of (sbm_objects m') sid = map_option (\<lambda>s. if sid \<in> set (sbm_subscriptions m)
      then feed (sn_events (eventsSince (sbm_last_seen_sequence m) d)) s else s) (map_of (sbm_objects m) sid)"
    and "m' = m\<lparr>sbm_last_seen_sequence := sbm_last_seen_sequence m', sbm_objects := sbm_objects m'\<rparr>"
    and "registry_ok (sbm_subscriptions m) (sbm_objects m')"
    and "batch_ok (sbm_last_seen_sequence m) (sbm_last_seen_sequence m')
      (sn_events (eventsSince (sbm_last_seen_sequence m) d))"
    and "fst ` set (sbm_objects m') = fst ` set (sbm_objects m)"
proof -
  let ?n = "sbm_last_seen_sequence m" and ?es = "sn_events (eventsSince (sbm_last_seen_sequence m) d)"
  have reg: "registry_ok (sbm_subscriptions m) (sbm_objects m)"
    and obj: "\<forall>t s. map_of (sbm_objects m) t = Some s \<longrightarrow> object_inv ?n s"
    and st: "store_inv d" "events_ok d" "data_inv d"
    using inv by (auto simp: hub_inv_def manager_inv_def)
  have "r = Some SUCCESS \<and> map_of (sbm_objects m') sid = map_option (\<lambda>s. if sid \<in> set (sbm_subscriptions m)
      then feed ?es s else s) (map_of (sbm_objects m) sid) \<and>
    m' = m\<lparr>sbm_last_seen_sequence := sbm_last_seen_sequence m', sbm_objects := sbm_objects m'\<rparr> \<and>
    registry_ok (sbm_subscriptions m) (sbm_objects m') \<and> batch_ok ?n (sbm_last_seen_sequence m') ?es \<and>
    fst ` set (sbm_objects m') = fst ` set (sbm_objects m)"
  proof (cases "?es = []")
    case True
    then have "r = Some SUCCESS \<and> m' = m" using eq by (simp add: dispatch_def)
    with True reg show ?thesis by (auto simp: batch_ok_def option.map_ident cong: if_cong)
  next
    case False
    note b = snapshot_batch_ok [OF st False]
    obtain objs where objs: "dispatchEvents ?es (sbm_subscriptions m) (sbm_objects m) = (False, objs)"
      using dispatchEvents_total [OF reg b obj] by (metis prod.collapse)
    have m': "r = Some SUCCESS" "m' = m\<lparr>sbm_last_seen_sequence := sn_latest_sequence (eventsSince ?n d), sbm_objects := objs\<rparr>"
      using eq False objs by (auto simp: dispatch_def Let_def)
    have sub: "set (sbm_subscriptions m) \<subseteq> fst ` set (sbm_objects m)" using reg by (simp add: registry_ok_def)
    show ?thesis
      using m' b reg dispatchEvents_feed [OF reg objs, of sid] dispatchEvents_keys [OF sub, of ?es]
      by (simp add: objs registry_ok_def)
  qed
  then show "r = Some SUCCESS"
    and "map_of (sbm_objects m') sid = map_option (\<lambda>s. if sid \<in> set (sbm_subscriptions m)
      then feed ?es s else s) (map_of (sbm_objects m) sid)"
    and "m' = m\<lparr>sbm_last_seen_sequence := sbm_last_seen_sequence m', sbm_objects := sbm_objects m'\<rparr>"
    and "registry_ok (sbm_subscriptions m) (sbm_objects m')"
    and "batch_ok ?n (sbm_last_seen_sequence m') ?es"
    and "fst ` set (sbm_objects m') = fst ` set (sbm_objects m)" by blast+
qed

section \<open>Invariant of the pair\<close>

lemma manager_inv_subscribe:
  assumes "manager_inv m"
  shows "manager_inv (snd (subscribe f l m))"
proof (cases "fst (fst (subscribe f l m)) = SUCCESS")
  case False
  then have "snd (subscribe f l m) = m"
    by (auto simp: subscribe_def Let_def ok_def split: prod.splits if_splits)
  with assms show ?thesis by simp
next
  case True
  let ?n = "sbm_next_subscription_id m"
  obtain f' where f': "validateFilter f = (SUCCESS, f')" and l: "ok (SubscriptionLimits_validate l)"
    and len: "length (sbm_subscriptions m) < sbm_max_subscriptions m" and n: "?n \<noteq> u64_max"
    and m': "snd (subscribe f l m) = m\<lparr>sbm_next_subscription_id := ?n + 1,
      sbm_subscriptions := insort ?n (sbm_subscriptions m),
      sbm_objects := omap_put ?n (make_subscription f' l) (sbm_objects m)\<rparr>"
    using True by (cases "validateFilter f") (auto simp: subscribe_def Let_def ok_def split: if_splits)
  have reg: "registry_ok (sbm_subscriptions m) (sbm_objects m)"
    and ids: "\<forall>sid \<in> fst ` set (sbm_objects m). 0 < sid \<and> sid < ?n"
    using assms by (auto simp: manager_inv_def)
  have fresh: "?n \<notin> set (sbm_subscriptions m)"
    using reg ids unfolding registry_ok_def by blast
  have "registry_ok (insort ?n (sbm_subscriptions m)) (omap_put ?n (make_subscription f' l) (sbm_objects m))"
    using reg fresh by (auto simp: registry_ok_def distinct_insort set_insort_key set_omap_put_fst)
  moreover have "object_inv b (make_subscription f' l)" for b
    using queue_inv_make [OF l] by (simp add: object_inv_def seq_ok_def make_subscription_def)
  moreover have "sid < ?n + 1" if "sid = ?n \<or> sid < ?n" for sid
    using that less_inc [OF n] by auto
  ultimately show ?thesis
    using assms reg ids len n
    by (auto simp: m' manager_inv_def set_omap_put_fst registry_ok_def map_of_omap_put inc_nonzero
        word_neq_0_conv [symmetric] split: if_splits)
qed

lemma manager_inv_put:
  assumes "manager_inv m" "map_of (sbm_objects m) sid = Some s" "object_inv (sbm_last_seen_sequence m) s'"
    and "distinct sids" "set sids \<subseteq> set (sbm_subscriptions m)" "length sids \<le> length (sbm_subscriptions m)"
  shows "manager_inv (m\<lparr>sbm_subscriptions := sids, sbm_objects := omap_put sid s' (sbm_objects m)\<rparr>)"
proof -
  have ok: "omap_ok (sbm_objects m)" using assms(1) by (simp add: manager_inv_def registry_ok_def)
  have "insert sid (fst ` set (sbm_objects m)) = fst ` set (sbm_objects m)"
    using assms(2) by (force dest: map_of_SomeD)
  then show ?thesis
    using assms ok by (auto simp: manager_inv_def registry_ok_def set_omap_put_fst map_of_omap_put)
qed

lemma deliver_take_Some:
  "deliver_take s = ((st, Some e), s') \<Longrightarrow>
   sub_open s \<and> sub_pending s = e # tl (sub_pending s) \<and>
   deliver_done s' = s\<lparr>sub_pending := tl (sub_pending s),
     sub_pending_bytes := szsub (sub_pending_bytes s) (eventBytes e)\<rparr>"
  by (auto simp: deliver_take_def deliver_done_def split: if_splits list.splits)

lemma object_inv_delivered:
  assumes "object_inv b s" "deliver_take s = ((st, Some e), s')"
  shows "object_inv b (deliver_done s')"
proof -
  obtain es where es: "sub_pending s = e # es" "sub_open s"
    "deliver_done s' = s\<lparr>sub_pending := es, sub_pending_bytes := szsub (sub_pending_bytes s) (eventBytes e)\<rparr>"
    using deliver_take_Some [OF assms(2)] by (metis list.sel(3))
  show ?thesis
    using assms(1) es(1,2) by (simp add: es(3) object_inv_def queue_inv_def seq_ok_def split: if_splits)
qed

lemma manager_inv_deliver:
  assumes "manager_inv m"
  shows "manager_inv (snd (deliverNext cb sid m))"
proof -
  have "manager_inv (m\<lparr>sbm_objects := omap_put sid (deliver_done s') (sbm_objects m)\<rparr>)"
    if "map_of (sbm_objects m) sid = Some s" "deliver_take s = ((st, Some e), s')" for s s' st e
    using manager_inv_put [OF assms that(1) object_inv_delivered [OF _ that(2)], of "sbm_subscriptions m"]
      assms that(1) by (simp add: manager_inv_def registry_ok_def)
  then show ?thesis
    using assms by (auto simp: deliverNext_def split: option.splits prod.splits)
qed

lemma close_returns:
  assumes "manager_inv m"
  shows "Subscription_close sid m \<noteq> None"
    and "Subscription_close sid m = Some (st, m') \<Longrightarrow> manager_inv m'"
proof -
  have act: "map_of (sbm_objects m) sid = Some s \<Longrightarrow> sub_active_deliveries s = 0" for s
    using assms by (auto simp: manager_inv_def object_inv_def)
  then show "Subscription_close sid m \<noteq> None"
    by (auto simp: Subscription_close_def close_mark_def close_wait_def Let_def split: option.splits)
  have "object_inv b (close_done (close_mark s))" if "object_inv b s" for b s
    using that by (auto simp: object_inv_def queue_inv_def close_done_def close_mark_def seq_ok_def)
  then have "manager_inv (m\<lparr>sbm_subscriptions := remove1 sid (sbm_subscriptions m),
      sbm_objects := omap_put sid (close_done (close_mark s)) (sbm_objects m)\<rparr>)"
    if "map_of (sbm_objects m) sid = Some s" for s
    using that assms
    by (intro manager_inv_put [OF assms that]) (auto simp: manager_inv_def registry_ok_def distinct_remove1 length_remove1
        dest: notin_set_remove1 [rotated])
  then show "Subscription_close sid m = Some (st, m') \<Longrightarrow> manager_inv m'"
    using assms by (auto simp: Subscription_close_def Let_def split: option.splits if_splits)
qed

lemma manager_inv_dispatch:
  assumes "hub_inv (d, m)"
  shows "manager_inv (snd (dispatch d m))"
proof -
  obtain r m' where eq: "dispatch d m = (r, m')" by (metis prod.exhaust)
  note facts = dispatch_feeds [OF assms eq]
  have m: "manager_inv m" using assms by (simp add: hub_inv_def)
  have "object_inv (sbm_last_seen_sequence m') s" if t1: "map_of (sbm_objects m') sid = Some s" for sid s
  proof -
    obtain s0 where "map_of (sbm_objects m) sid = Some s0" and s: "s = (if sid \<in> set (sbm_subscriptions m)
        then feed (sn_events (eventsSince (sbm_last_seen_sequence m) d)) s0 else s0)"
      using t1 facts(2) [of sid] by auto
    then have "object_inv (sbm_last_seen_sequence m) s0" using m by (auto simp: manager_inv_def)
    then show ?thesis using facts(5) s by (auto simp: batch_ok_def intro: feed_inv object_inv_mono)
  qed
  moreover have "sbm_subscriptions m' = sbm_subscriptions m" "sbm_next_subscription_id m' = sbm_next_subscription_id m"
    "sbm_max_subscriptions m' = sbm_max_subscriptions m"
    by (subst facts(3), simp)+
  ultimately show ?thesis
    using m facts(4,6) by (simp add: eq manager_inv_def)
qed

lemma hub_inv_draining:
  assumes "hub_inv (d, m)" "publishEvent (drain_draft t d) d = (p, d')"
  shows "hub_inv (d', m\<lparr>sbm_draining := True\<rparr>)"
  using assms data_inv_step [of d "DM_publishEvent (drain_draft t d)"]
    store_inv_step [of d "DM_publishEvent (drain_draft t d)"] events_ok_step [of d "DM_publishEvent (drain_draft t d)"]
  by (simp add: hub_inv_def manager_inv_def)

lemma hub_inv_drain:
  assumes "hub_inv st"
  shows "hub_inv (snd (drain t st))"
proof -
  obtain d m where st: "st = (d, m)" by (cases st)
  obtain p d' where p: "publishEvent (drain_draft t d) d = (p, d')" by (metis prod.exhaust)
  have "hub_inv (d', m\<lparr>sbm_draining := True\<rparr>)" using assms st hub_inv_draining [OF _ p] by simp
  from manager_inv_dispatch [OF this] this assms show ?thesis
    by (auto simp: drain_def st p Let_def hub_inv_def split: prod.splits)
qed

lemma hub_inv_step:
  assumes "hub_inv st"
  shows "hub_inv (hub_step op st)"
proof -
  obtain d m where st: "st = (d, m)" by (cases st)
  have inv: "data_inv d" "store_inv d" "events_ok d" "manager_inv m" using assms st by (auto simp: hub_inv_def)
  have data: "hub_inv (dm_step o' d, m)" if "\<forall>x. o' \<noteq> DM_publishEvent x" for o'
    using inv that events_ok_step [of d o'] by (simp add: hub_inv_def data_inv_step store_inv_step)
  show ?thesis
  proof (cases op)
    case (H_close sid)
    then show ?thesis
      using assms st close_returns(2) [OF inv(4), of sid] by (auto simp: hub_inv_def split: option.splits prod.splits)
  next
    case H_dispatch
    then show ?thesis using assms st manager_inv_dispatch by (auto simp: hub_inv_def)
  qed (use assms inv data st in \<open>auto simp: hub_inv_def manager_inv_subscribe manager_inv_deliver
         hub_inv_drain [unfolded hub_inv_def] simp del: dm_step.simps\<close>)
qed

definition hub_start :: "data_store_limits \<Rightarrow> size_t \<Rightarrow> data_manager \<times> subscription_manager" where
  "hub_start l n = (data_manager_start l, subscription_manager_start n)"

lemma hub_inv_start: "ok (DataStoreLimits_validate l) \<Longrightarrow> hub_inv (hub_start l n)"
  by (simp add: hub_inv_def hub_start_def data_inv_start store_inv_start manager_inv_def registry_ok_def
      subscription_manager_start_def)
    (simp add: data_manager_start_def event_store_start_def)

interpretation hub: component "hub_start l n" hub_step "\<lambda>st. ok (DataStoreLimits_validate l) \<longrightarrow> hub_inv st" for l n
  by unfold_locales (auto simp: hub_inv_step hub_inv_start)

section \<open>Dispatching\<close>

definition hub_reachable ::
  "data_store_limits \<Rightarrow> size_t \<Rightarrow> hub_op list \<Rightarrow> (data_manager \<times> subscription_manager) option" where
  "hub_reachable l n ops =
    (case (DataManager l, SubscriptionManager n) of
       (Some d, Some m) \<Rightarrow> Some (fold hub_step ops (d, m)) | _ \<Rightarrow> None)"

lemma hub_reachable_inv: "hub_reachable l n ops = Some st \<Longrightarrow> hub_inv st"
  using hub.inv_reach [of l ops n]
  by (auto simp: hub_reachable_def DataManager_def SubscriptionManager_def hub_start_def split: if_splits)

text \<open>
  Slow or closed subscribers do not affect others. In every reachable state a dispatch
  succeeds (its loops never end in an exception), and the queue of each subscription
  afterwards is what feeding it alone the new events its filter matches, in order, would
  give; unregistered subscriptions are untouched.
\<close>

theorem dispatch_isolates_subscribers:
  assumes "hub_reachable l n ops = Some (d, m)" and "dispatch d m = (r, m')"
  shows "r = Some SUCCESS \<and>
    map_of (sbm_objects m') sid =
      map_option (\<lambda>s. if sid \<in> set (sbm_subscriptions m)
          then fold (\<lambda>e s. snd (enqueue e s))
            (filter (matches (sub_filter s)) (sn_events (eventsSince (sbm_last_seen_sequence m) d))) s
          else s) (map_of (sbm_objects m) sid)"
  using dispatch_feeds(1,2) [OF hub_reachable_inv [OF assms(1)] assms(2), unfolded feed_def] by blast

end
