(* ===== verification/Subscription_Order.thy ===== *)
theory Subscription_Order
  imports Subscription_Dispatch
begin

text \<open>
  The order in which one subscription of \<open>subscription_manager.cpp\<close> gets its events when threads
  commit data, dispatch, deliver and close at the same time. A step is one critical section, or
  one moment of a thread outside of them. \<open>dispatch_mutex_\<close> admits one dispatch at a time; it
  reads the new events, copies the registry, and then enqueues the events one by one.
  \<open>deliverNext\<close> takes an event under the mutex of the subscription, gives the mutex up, enters the
  callback and, after it has returned, takes the mutex again to count the delivery as done; any
  number of threads may be between these moments.
\<close>

section \<open>State and steps\<close>

text \<open>
  \<open>od_snapshot\<close> is what a dispatch has read before it copies the registry; \<open>od_todo\<close> the matching
  events it has still to offer to this subscription; \<open>od_inflight\<close> the events taken by threads
  that have not yet entered the callback, \<open>od_running\<close> those of threads from there until the end
  of their delivery. The other two lists record what happened: the events in the order they were
  taken and in the order their callbacks were entered; \<open>od_overlapped\<close> records that an event was
  taken while another delivery was active.
\<close>

record order_state =
  od_data :: data_manager
  od_last_seen_sequence :: u64
  od_snapshot :: "event_snapshot option"
  od_todo :: "pdcm_event list"
  od_subscribed :: bool
  od_registered :: bool
  od_sub :: subscription
  od_inflight :: "pdcm_event list"
  od_running :: "pdcm_event list"
  od_taken :: "pdcm_event list"
  od_entered :: "pdcm_event list"
  od_overlapped :: bool

definition order_start :: "data_store_limits \<Rightarrow> subscription_filter \<Rightarrow> subscription_limits \<Rightarrow> order_state" where
  "order_start l f sl =
     \<lparr>od_data = data_manager_start l, od_last_seen_sequence = 0, od_snapshot = None, od_todo = [],
      od_subscribed = False, od_registered = False, od_sub = make_subscription f sl, od_inflight = [],
      od_running = [], od_taken = [], od_entered = [], od_overlapped = False\<rparr>"

datatype order_op =
    OD_data dm_op
  | OD_drain i64
  | OD_subscribe
  | OD_read
  | OD_copy
  | OD_offer
  | OD_take
  | OD_enter nat
  | OD_finish nat
  | OD_erase
  | OD_mark
  | OD_closed

definition remove_nth :: "nat \<Rightarrow> 'a list \<Rightarrow> 'a list" where
  "remove_nth i xs = take i xs @ drop (Suc i) xs"

text \<open>A dispatch: read, copy the registry and advance \<open>last_seen_sequence_\<close>, offer.\<close>

definition dispatch_read :: "order_state \<Rightarrow> order_state" where
  "dispatch_read st =
    (let snapshot = eventsSince (od_last_seen_sequence st) (od_data st)
     in if od_snapshot st \<noteq> None \<or> od_todo st \<noteq> [] \<or> sn_events snapshot = [] then st
        else st\<lparr>od_snapshot := Some snapshot\<rparr>)"

definition dispatch_copy :: "order_state \<Rightarrow> order_state" where
  "dispatch_copy st =
    (case od_snapshot st of
       None \<Rightarrow> st
     | Some snapshot \<Rightarrow>
        st\<lparr>od_snapshot := None, od_last_seen_sequence := sn_latest_sequence snapshot,
           od_todo := (if od_registered st then filter (matches (sub_filter (od_sub st))) (sn_events snapshot) else [])\<rparr>)"

definition dispatch_offer :: "order_state \<Rightarrow> order_state" where
  "dispatch_offer st =
    (case od_todo st of
       [] \<Rightarrow> st
     | e # es \<Rightarrow>
        let (threw, s) = enqueue e (od_sub st)
        in st\<lparr>od_sub := s, od_todo := (if threw then [] else es)\<rparr>)"

text \<open>A delivery: take, enter the callback, finish.\<close>

definition delivery_take :: "order_state \<Rightarrow> order_state" where
  "delivery_take st =
    (if \<not> od_subscribed st then st
     else
      case deliver_take (od_sub st) of
        ((_, None), _) \<Rightarrow> st
      | ((_, Some e), s) \<Rightarrow>
         st\<lparr>od_sub := s, od_inflight := od_inflight st @ [e], od_taken := od_taken st @ [e],
            od_overlapped := (od_overlapped st \<or> sub_active_deliveries (od_sub st) \<noteq> 0)\<rparr>)"

definition delivery_enter :: "nat \<Rightarrow> order_state \<Rightarrow> order_state" where
  "delivery_enter i st =
    (if i \<ge> length (od_inflight st) then st
     else
      let e = od_inflight st ! i
      in st\<lparr>od_inflight := remove_nth i (od_inflight st), od_running := od_running st @ [e],
            od_entered := od_entered st @ [e]\<rparr>)"

definition delivery_finish :: "nat \<Rightarrow> order_state \<Rightarrow> order_state" where
  "delivery_finish i st =
    (if i \<ge> length (od_running st) then st
     else st\<lparr>od_running := remove_nth i (od_running st), od_sub := deliver_done (od_sub st)\<rparr>)"

text \<open>The operations of the data manager; its events other than those of \<open>drain\<close> are published by them.\<close>

definition data_changes :: "dm_op \<Rightarrow> order_state \<Rightarrow> order_state" where
  "data_changes op st =
    (case op of DM_publishEvent _ \<Rightarrow> st | _ \<Rightarrow> st\<lparr>od_data := dm_step op (od_data st)\<rparr>)"

fun order_step :: "order_op \<Rightarrow> order_state \<Rightarrow> order_state" where
  "order_step (OD_data op) st = data_changes op st"
| "order_step (OD_drain t) st = st\<lparr>od_data := snd (publishEvent (drain_draft t (od_data st)) (od_data st))\<rparr>"
| "order_step OD_subscribe st = (if od_subscribed st then st else st\<lparr>od_subscribed := True, od_registered := True\<rparr>)"
| "order_step OD_read st = dispatch_read st"
| "order_step OD_copy st = dispatch_copy st"
| "order_step OD_offer st = dispatch_offer st"
| "order_step OD_take st = delivery_take st"
| "order_step (OD_enter i) st = delivery_enter i st"
| "order_step (OD_finish i) st = delivery_finish i st"
| "order_step OD_erase st = st\<lparr>od_registered := False\<rparr>"
| "order_step OD_mark st = (if od_subscribed st \<and> \<not> od_registered st then st\<lparr>od_sub := close_mark (od_sub st)\<rparr> else st)"
| "order_step OD_closed st =
    (if sub_closing (od_sub st) \<and> close_wait (od_sub st) then st\<lparr>od_sub := close_done (od_sub st)\<rparr> else st)"

section \<open>Invariant\<close>

text \<open>Everything taken, queued and still to be offered, in this order.\<close>

definition in_line :: "order_state \<Rightarrow> pdcm_event list" where
  "in_line st = plain (od_taken st @ sub_pending (od_sub st) @ od_todo st)"

definition line_ok :: "u64 \<Rightarrow> pdcm_event list \<Rightarrow> bool" where
  "line_ok seen es \<longleftrightarrow> sorted_wrt (<) (map pv_sequence es) \<and> (\<forall>e \<in> set es. pv_sequence e \<le> seen)"

definition snapshot_ok :: "u64 \<Rightarrow> pdcm_event list \<Rightarrow> event_snapshot option \<Rightarrow> bool" where
  "snapshot_ok seen todo snapshot \<longleftrightarrow>
     (\<forall>sn. snapshot = Some sn \<longrightarrow> todo = [] \<and> batch_ok seen (sn_latest_sequence sn) (sn_events sn))"

definition order_inv :: "order_state \<Rightarrow> bool" where
  "order_inv st \<longleftrightarrow>
     data_inv (od_data st) \<and> store_inv (od_data st) \<and> events_ok (od_data st) \<and>
     queue_inv (od_sub st) \<and> line_ok (od_last_seen_sequence st) (in_line st) \<and>
     snapshot_ok (od_last_seen_sequence st) (od_todo st) (od_snapshot st) \<and>
     mset (od_taken st) = mset (od_entered st) + mset (od_inflight st) \<and>
     sub_active_deliveries (od_sub st) = length (od_inflight st) + length (od_running st) \<and>
     (\<not> od_overlapped st \<longrightarrow>
        od_taken st = od_entered st @ od_inflight st \<and> length (od_inflight st) + length (od_running st) \<le> 1)"

lemma line_ok_subseq: "line_ok n es \<Longrightarrow> subseq es' es \<Longrightarrow> line_ok n es'"
  using sorted_wrt_subseq [OF _ subseq_map, of "(<)" pv_sequence es es'] list_emb_set [of "(=)" es' es]
  by (auto simp: line_ok_def)

lemma line_ok_batch:
  assumes "line_ok n es" "batch_ok n n' new"
  shows "line_ok n' (es @ plain (filter P new))"
proof -
  have sub: "subseq (plain (filter P new)) new" 
    by (rule subseq_order.trans [OF subseq_filter_left subseq_filter_left])
  have "sorted_wrt (<) (map pv_sequence new)" "\<forall>e \<in> set new. n < pv_sequence e \<and> pv_sequence e \<le> n'" "n \<le> n'"
    using assms(2) by (auto simp: batch_ok_def)
  with assms(1) sorted_wrt_subseq [OF _ subseq_map [OF sub]] show ?thesis
    by (auto simp: line_ok_def sorted_wrt_append intro: order_le_less_trans order_trans)
qed

lemma mset_remove_nth: "i < length xs \<Longrightarrow> mset xs = add_mset (xs ! i) (mset (remove_nth i xs))"
  by (metis id_take_nth_drop mset.simps(2) mset_append remove_nth_def union_mset_add_mset_right)

lemma length_remove_nth [simp]: "i < length xs \<Longrightarrow> length (remove_nth i xs) = length xs - 1"
  by (simp add: remove_nth_def)

lemma order_inv_data:
  assumes "order_inv st" "\<And>x. op = DM_publishEvent x \<Longrightarrow> draft_ok x"
  shows "order_inv (st\<lparr>od_data := dm_step op (od_data st)\<rparr>)"
  using assms events_ok_step [of "od_data st" op]
  by (simp add: order_inv_def data_inv_step store_inv_step in_line_def del: dm_step.simps)

lemma order_inv_read:
  assumes "order_inv st"
  shows "order_inv (dispatch_read st)"
proof (cases "od_snapshot st \<noteq> None \<or> od_todo st \<noteq> [] \<or> sn_events (eventsSince (od_last_seen_sequence st) (od_data st)) = []")
  case False
  then show ?thesis
    using assms snapshot_batch_ok [of "od_data st" "od_last_seen_sequence st"]
    by (simp add: dispatch_read_def order_inv_def in_line_def snapshot_ok_def)
qed (use assms in \<open>auto simp: dispatch_read_def\<close>)

lemma order_inv_copy:
  assumes "order_inv st"
  shows "order_inv (dispatch_copy st)"
proof (cases "od_snapshot st")
  case (Some sn)
  let ?todo = "if od_registered st then filter (matches (sub_filter (od_sub st))) (sn_events sn) else []"
  have "od_todo st = []" "batch_ok (od_last_seen_sequence st) (sn_latest_sequence sn) (sn_events sn)"
    "line_ok (od_last_seen_sequence st) (in_line st)"
    using assms Some by (auto simp: order_inv_def snapshot_ok_def)
  then have "line_ok (sn_latest_sequence sn) (in_line st @ plain ?todo)"
    using line_ok_batch [of _ "in_line st" _ "sn_events sn"] line_ok_batch [of _ "in_line st" _ "sn_events sn" "\<lambda>_. False"]
    by (simp split: if_split)
  moreover have "in_line (dispatch_copy st) = in_line st @ plain ?todo"
    using Some \<open>od_todo st = []\<close> by (simp add: dispatch_copy_def in_line_def)
  ultimately show ?thesis using assms Some by (simp add: order_inv_def dispatch_copy_def snapshot_ok_def)
qed (use assms in \<open>simp add: dispatch_copy_def\<close>)

lemma order_inv_offer:
  assumes "order_inv st"
  shows "order_inv (dispatch_offer st)"
proof (cases "od_todo st")
  case (Cons e es)
  obtain threw s where enq: "enqueue e (od_sub st) = (threw, s)" by (cases "enqueue e (od_sub st)")
  have q: "queue_inv (od_sub st)" and line: "line_ok (od_last_seen_sequence st) (in_line st)" and none: "od_snapshot st = None"
    using assms Cons by (auto simp: order_inv_def snapshot_ok_def)
  have "subseq (plain (sub_pending s)) (plain (sub_pending (od_sub st) @ [e]))"
    using subseq_offer [OF q, of e] enq by simp
  then have "subseq (plain (od_taken st) @ plain (sub_pending s) @ plain es')
      (plain (od_taken st) @ plain (sub_pending (od_sub st) @ [e]) @ plain es)"
    if "subseq (plain es') (plain es)" for es'
    using that by (intro list_emb_append_mono subseq_order.refl)
  from this [of "if threw then [] else es"] have "subseq (in_line (dispatch_offer st)) (in_line st)"
    using Cons by (simp add: in_line_def dispatch_offer_def enq split: if_splits)
  from line_ok_subseq [OF line this] show ?thesis
    using assms Cons none queue_inv_enqueue [OF q, of e] enqueue_active [of e "od_sub st"]
    by (simp add: order_inv_def dispatch_offer_def enq snapshot_ok_def)
qed (use assms in \<open>simp add: dispatch_offer_def\<close>)

lemma order_inv_take:
  assumes "order_inv st"
  shows "order_inv (delivery_take st)"
proof (cases "od_subscribed st \<and> snd (fst (deliver_take (od_sub st))) \<noteq> None")
  case True
  then obtain r e s where take: "deliver_take (od_sub st) = ((r, Some e), s)" by (metis option.exhaust prod.exhaust_sel)
  have s: "sub_pending (od_sub st) = e # sub_pending s" "sub_active_deliveries s = Suc (sub_active_deliveries (od_sub st))"
    using take by (auto simp: deliver_take_def split: if_splits list.splits)
  have "in_line (delivery_take st) = in_line st" using True s(1) by (simp add: in_line_def delivery_take_def take)
  moreover have "queue_inv s" using queue_inv_take [of "od_sub st"] take assms by (simp add: order_inv_def)
  ultimately show ?thesis
    using assms True s(2) by (auto simp: order_inv_def delivery_take_def take)
next
  case False
  then have "delivery_take st = st" by (auto simp: delivery_take_def split: prod.splits option.splits)
  with assms show ?thesis by simp
qed

lemma order_inv_enter:
  assumes "order_inv st"
  shows "order_inv (delivery_enter i st)"
proof (cases "i < length (od_inflight st)")
  case True
  have "od_inflight st = [od_inflight st ! i] \<and> remove_nth i (od_inflight st) = []" if "length (od_inflight st) \<le> 1"
    using that True by (cases "od_inflight st") (auto simp: remove_nth_def)
  with True assms mset_remove_nth [OF True] show ?thesis
    by (auto simp: order_inv_def delivery_enter_def in_line_def Let_def)
qed (use assms in \<open>simp add: delivery_enter_def\<close>)

lemma order_inv_finish:
  assumes "order_inv st"
  shows "order_inv (delivery_finish i st)"
proof (cases "i < length (od_running st)")
  case True
  then show ?thesis
    using assms queue_inv_done [of "od_sub st"]
    by (auto simp: order_inv_def delivery_finish_def in_line_def deliver_done_def)
qed (use assms in \<open>simp add: delivery_finish_def\<close>)

lemma order_inv_mark:
  assumes "order_inv st"
  shows "order_inv (st\<lparr>od_sub := close_mark (od_sub st)\<rparr>)"
proof -
  let ?st = "st\<lparr>od_sub := close_mark (od_sub st)\<rparr>"
  have "subseq (plain (od_taken st) @ [] @ plain (od_todo st))
      (plain (od_taken st) @ plain (sub_pending (od_sub st)) @ plain (od_todo st))"
    by (intro list_emb_append_mono subseq_order.refl) simp
  then have "subseq (in_line ?st) (in_line st)" by (simp add: in_line_def close_mark_def)
  moreover have "line_ok (od_last_seen_sequence st) (in_line st)" using assms by (simp add: order_inv_def)
  ultimately have "line_ok (od_last_seen_sequence st) (in_line ?st)" by (rule line_ok_subseq [rotated])
  with assms show ?thesis by (auto simp: order_inv_def close_mark_def queue_inv_def)
qed

lemma order_inv_step: "order_inv st \<Longrightarrow> order_inv (order_step op st)"
proof (cases op)
  case (OD_data d)
  assume "order_inv st"
  then show ?thesis unfolding OD_data 
    by (cases d) (auto simp: data_changes_def intro!: order_inv_data simp del: dm_step.simps)
next
  case (OD_drain t)
  assume "order_inv st"
  from order_inv_data [OF this, of "DM_publishEvent (drain_draft t (od_data st))"] show ?thesis by (simp add: OD_drain)
next
  case OD_closed
  assume "order_inv st"
  then show ?thesis by (auto simp: OD_closed order_inv_def close_done_def queue_inv_def in_line_def)
qed (simp_all add: order_inv_read order_inv_copy order_inv_offer order_inv_take order_inv_enter order_inv_finish
  order_inv_mark, simp_all add: order_inv_def in_line_def)

lemma order_inv_start:
  "ok (DataStoreLimits_validate l) \<Longrightarrow> ok (SubscriptionLimits_validate sl) \<Longrightarrow> order_inv (order_start l f sl)"
  using hub_inv_start [of l 0]
  by (simp add: order_inv_def order_start_def hub_inv_def hub_start_def queue_inv_make in_line_def line_ok_def snapshot_ok_def)
    (simp add: make_subscription_def)

interpretation ord: component "order_start l f sl" order_step
  "\<lambda>st. ok (DataStoreLimits_validate l) \<and> ok (SubscriptionLimits_validate sl) \<longrightarrow> order_inv st" for l f sl
  by unfold_locales (auto simp: order_inv_step order_inv_start)

definition order_reachable ::
  "data_store_limits \<Rightarrow> subscription_filter \<Rightarrow> subscription_limits \<Rightarrow> order_op list \<Rightarrow> order_state option" where
  "order_reachable l f sl ops =
    (if ok (DataStoreLimits_validate l) \<and> ok (SubscriptionLimits_validate sl)
     then Some (fold order_step ops (order_start l f sl)) else None)"

lemma order_reachable_inv: "order_reachable l f sl ops = Some st \<Longrightarrow> order_inv st"
  using ord.inv_reach [of l sl ops f] by (auto simp: order_reachable_def split: if_splits)

section \<open>Properties\<close>

text \<open>
  C32: A subscription hands out its events in order, once each. However commits, dispatches,
  deliveries and a close interleave, the events that deliveries take from the queue (loss markers
  apart) have strictly increasing sequence numbers, and every callback is entered with an event
  taken for it, at most once per taking. If no two deliveries ever overlapped, the callbacks are
  entered in that order too; if two threads deliver at the same time, the lock is given up
  between taking an event and entering its callback, and the callback of the later event may be
  entered first.
\<close>

theorem deliveries_in_sequence_order:
  assumes "order_reachable l f sl ops = Some st"
  shows "sorted_wrt (<) (map pv_sequence (plain (od_taken st))) \<and> mset (od_entered st) \<subseteq># mset (od_taken st) \<and>
    (\<not> od_overlapped st \<longrightarrow>
       prefix (od_entered st) (od_taken st) \<and> sorted_wrt (<) (map pv_sequence (plain (od_entered st))))"
proof -
  have inv: "order_inv st" by (rule order_reachable_inv [OF assms])
  then have line: "line_ok (od_last_seen_sequence st) (in_line st)" by (simp add: order_inv_def)
  have taken: "sorted_wrt (<) (map pv_sequence (plain (od_taken st)))"
    using line by (simp add: line_ok_def in_line_def sorted_wrt_append)
  moreover have "sorted_wrt (<) (map pv_sequence (plain (od_entered st)))" if "od_taken st = od_entered st @ od_inflight st"
    using taken by (simp add: that sorted_wrt_append)
  ultimately show ?thesis using inv by (auto simp: order_inv_def)
qed

text \<open>Two metric events, taken by two deliveries that enter their callbacks the other way round.\<close>

definition witness_order_ops :: "order_op list" where
  "witness_order_ops =
     [OD_subscribe, OD_data (DM_commit [witness_obs 5]), OD_data (DM_commit [witness_obs 6]),
      OD_read, OD_copy, OD_offer, OD_offer, OD_take, OD_take, OD_enter 1, OD_enter 0]"

definition witness_order :: order_state where
  "witness_order = fold order_step witness_order_ops
     ((order_start witness_limits_ds witness_filter \<lparr>sbl_max_events = 2, sbl_max_bytes = 1000\<rparr>)\<lparr>od_data := witness_base\<rparr>)"

lemma witness_order_reachable:
  "order_reachable witness_limits_ds witness_filter \<lparr>sbl_max_events = 2, sbl_max_bytes = 1000\<rparr>
     (OD_data (DM_activateCatalog (Some witness_view) witness_target) # witness_order_ops) = Some witness_order"
proof -
  have "order_step (OD_data (DM_activateCatalog (Some witness_view) witness_target))
      (order_start witness_limits_ds witness_filter sl) = (order_start witness_limits_ds witness_filter sl)\<lparr>od_data := witness_base\<rparr>" for sl
    by (simp add: data_changes_def witness_base_eq order_start_def del: dm_step.simps)
  moreover have "ok (SubscriptionLimits_validate \<lparr>sbl_max_events = 2, sbl_max_bytes = 1000\<rparr>)"
    by (simp add: SubscriptionLimits_validate_def ok_def)
  ultimately show ?thesis
    by (simp add: order_reachable_def witness_limits_ds_ok witness_order_def del: order_step.simps(1))
qed

lemma witness_order_events:
  "map pv_sequence (od_entered witness_order) = [3, 2] \<and> map pv_sequence (plain (od_taken witness_order)) = [2, 3]"
  by code_simp

theorem deliveries_in_sequence_order_witness:
  "sorted_wrt (<) (map pv_sequence (plain (od_taken witness_order))) \<and> length (od_taken witness_order) = 2 \<and>
   od_overlapped witness_order \<and> map pv_sequence (od_entered witness_order) = [3, 2]"
proof -
  note fact = deliveries_in_sequence_order [OF witness_order_reachable]
  have "length (od_taken witness_order) = 2" by code_simp
  moreover have "od_overlapped witness_order"
  proof (rule ccontr)
    assume "\<not> od_overlapped witness_order"
    with fact have "prefix (map pv_sequence (od_entered witness_order)) (map pv_sequence (od_taken witness_order))"
      by (simp add: map_mono_prefix)
    moreover have "map pv_sequence (od_taken witness_order) = [2, 3]" by code_simp
    ultimately show False using witness_order_events by simp
  qed
  ultimately show ?thesis using fact witness_order_events by simp
qed

end
