(* ===== verification/Subscription_Close.thy ===== *)
theory Subscription_Close
  imports Subscriptions
begin

text \<open>
  Threads that deliver from, dispatch to and close one subscription of
  \<open>subscription_manager.cpp\<close> concurrently. A step is one critical section (under
  \<open>registry_mutex_\<close> or the mutex of the subscription) or one event of the thread outside
  them: a callback that starts, returns, or calls \<open>close\<close> itself.
\<close>

section \<open>Threads\<close>

text \<open>
  Where a thread is: \<open>T_found\<close> and \<open>T_offer\<close> hold the shared pointer taken under the registry
  mutex; \<open>T_callback\<close> runs the callback, \<open>T_returned\<close> has left it but not yet decremented the
  delivery count; \<open>T_closing\<close> has erased the registry entry and \<open>T_waiting\<close> waits on the
  condition variable. A \<open>close\<close> called from inside a callback keeps the event of the callback.
\<close>

datatype thread =
    T_idle
  | T_found
  | T_callback pdcm_event
  | T_returned
  | T_offer pdcm_event
  | T_closing "pdcm_event option"
  | T_waiting "pdcm_event option"

record close_system =
  cy_registered :: bool
  cy_sub :: subscription
  cy_threads :: "thread list"
  cy_close_returned :: bool

definition close_system_start :: "subscription_filter \<Rightarrow> subscription_limits \<Rightarrow> nat \<Rightarrow> close_system" where
  "close_system_start f l n =
     \<lparr>cy_registered = True, cy_sub = make_subscription f l, cy_threads = replicate n T_idle,
      cy_close_returned = False\<rparr>"

fun resume :: "pdcm_event option \<Rightarrow> thread" where
  "resume None = T_idle"
| "resume (Some e) = T_callback e"

abbreviation goto :: "nat \<Rightarrow> thread \<Rightarrow> close_system \<Rightarrow> close_system" where
  "goto i t c \<equiv> c\<lparr>cy_threads := (cy_threads c)[i := t]\<rparr>"

abbreviation at_pc :: "close_system \<Rightarrow> nat \<Rightarrow> thread \<Rightarrow> bool" where
  "at_pc c i t \<equiv> i < length (cy_threads c) \<and> cy_threads c ! i = t"

inductive close_step :: "close_system \<Rightarrow> close_system \<Rightarrow> bool" where
  deliver_lookup: "at_pc c i T_idle \<Longrightarrow> cy_registered c \<Longrightarrow> close_step c (goto i T_found c)"
| deliver_empty: "at_pc c i T_found \<Longrightarrow> deliver_take (cy_sub c) = ((st, None), s) \<Longrightarrow> close_step c (goto i T_idle c)"
| deliver_start: "at_pc c i T_found \<Longrightarrow> deliver_take (cy_sub c) = ((st, Some e), s) \<Longrightarrow>
    close_step c (goto i (T_callback e) (c\<lparr>cy_sub := s\<rparr>))"
| callback_return: "at_pc c i (T_callback e) \<Longrightarrow> close_step c (goto i T_returned c)"
| deliver_finish: "at_pc c i T_returned \<Longrightarrow>
    close_step c (goto i T_idle (c\<lparr>cy_sub := deliver_done (cy_sub c)\<rparr>))"
| dispatch_lookup: "at_pc c i T_idle \<Longrightarrow> cy_registered c \<Longrightarrow> close_step c (goto i (T_offer e) c)"
| dispatch_enqueue: "at_pc c i (T_offer e) \<Longrightarrow>
    close_step c (goto i T_idle (c\<lparr>cy_sub := snd (enqueue e (cy_sub c))\<rparr>))"
| close_lookup: "at_pc c i T_idle \<Longrightarrow> cy_registered c \<Longrightarrow>
    close_step c (goto i (T_closing None) (c\<lparr>cy_registered := False\<rparr>))"
| close_in_callback: "at_pc c i (T_callback e) \<Longrightarrow> cy_registered c \<Longrightarrow>
    close_step c (goto i (T_closing (Some e)) (c\<lparr>cy_registered := False\<rparr>))"
| close_marks: "at_pc c i (T_closing x) \<Longrightarrow>
    close_step c (goto i (T_waiting x) (c\<lparr>cy_sub := close_mark (cy_sub c)\<rparr>))"
| close_returns: "at_pc c i (T_waiting x) \<Longrightarrow> close_wait (cy_sub c) \<Longrightarrow>
    close_step c (goto i (resume x) (c\<lparr>cy_sub := close_done (cy_sub c), cy_close_returned := True\<rparr>))"

inductive_cases close_stepE: "close_step c c'"

definition close_reachable :: "subscription_filter \<Rightarrow> subscription_limits \<Rightarrow> nat \<Rightarrow> close_system \<Rightarrow> bool" where
  "close_reachable f l n = close_step\<^sup>*\<^sup>* (close_system_start f l n)"

section \<open>Invariant\<close>

text \<open>Threads inside a delivery: the ones the delivery count of the subscription counts.\<close>

fun delivering :: "thread \<Rightarrow> bool" where
  "delivering (T_callback _) = True"
| "delivering T_returned = True"
| "delivering (T_closing (Some _)) = True"
| "delivering (T_waiting (Some _)) = True"
| "delivering _ = False"

fun in_close :: "thread \<Rightarrow> bool" where
  "in_close (T_closing _) = True"
| "in_close (T_waiting _) = True"
| "in_close _ = False"

fun waiting :: "thread \<Rightarrow> bool" where
  "waiting (T_waiting _) = True"
| "waiting _ = False"

definition threads_in :: "(thread \<Rightarrow> bool) \<Rightarrow> close_system \<Rightarrow> nat" where
  "threads_in P c = length (filter P (cy_threads c))"

definition close_inv :: "close_system \<Rightarrow> bool" where
  "close_inv c \<longleftrightarrow>
     sub_active_deliveries (cy_sub c) = threads_in delivering c \<and>
     (cy_registered c \<longrightarrow> threads_in in_close c = 0 \<and> \<not> cy_close_returned c) \<and>
     threads_in in_close c + (if cy_close_returned c then 1 else 0) \<le> 1 \<and>
     (0 < threads_in waiting c \<longrightarrow> sub_closing (cy_sub c)) \<and>
     (cy_close_returned c \<longrightarrow> sub_closing (cy_sub c) \<and> threads_in delivering c = 0)"

text \<open>Moving one thread changes a count by what the thread leaves and enters.\<close>

lemma length_filter_update:
  "i < length ts \<Longrightarrow> length (filter P (ts[i := t])) + (if P (ts ! i) then 1 else 0) =
     length (filter P ts) + (if P t then 1 else 0)"
proof (induction ts arbitrary: i)
  case (Cons x xs)
  then show ?case by (cases i) auto
qed simp

lemma threads_in_move:
  "at_pc c i t0 \<Longrightarrow> cy_threads c' = (cy_threads c)[i := t] \<Longrightarrow>
   threads_in P c' + (if P t0 then 1 else 0) = threads_in P c + (if P t then 1 else 0)"
  using length_filter_update [of i "cy_threads c" P t] by (simp add: threads_in_def)

lemma threads_in_pos: "at_pc c i t \<Longrightarrow> P t \<Longrightarrow> 0 < threads_in P c"
  by (auto simp: threads_in_def filter_empty_conv)

lemma deliver_take_frame:
  "deliver_take s = ((st, r), s') \<Longrightarrow>
   sub_closing s' = sub_closing s \<and>
   sub_active_deliveries s' = sub_active_deliveries s + (case r of None \<Rightarrow> 0 | Some _ \<Rightarrow> 1) \<and>
   (r \<noteq> None \<longrightarrow> \<not> sub_closing s)"
  by (auto simp: deliver_take_def split: if_splits list.splits)

lemma enqueue_frame:
  "sub_active_deliveries (snd (enqueue e s)) = sub_active_deliveries s"
  "sub_closing (snd (enqueue e s)) = sub_closing s"
  by (auto simp: enqueue_def close_overflow_def Let_def split: option.splits prod.splits)

text \<open>One step, as what it does to the two counts and the flags.\<close>

lemma close_inv_move:
  assumes inv: "close_inv c" and pc: "at_pc c i t0" and ts: "cy_threads c' = (cy_threads c)[i := t]"
    and act: "sub_active_deliveries (cy_sub c') + (if delivering t0 then 1 else 0) =
      sub_active_deliveries (cy_sub c) + (if delivering t then 1 else 0)"
    and mark: "sub_closing (cy_sub c) \<Longrightarrow> sub_closing (cy_sub c') \<and> \<not> (delivering t \<and> \<not> delivering t0)"
    and wait: "waiting t \<Longrightarrow> sub_closing (cy_sub c')"
    and reg: "cy_registered c' \<Longrightarrow> cy_registered c \<and> \<not> in_close t \<and> (cy_close_returned c' \<longrightarrow> cy_close_returned c)"
    and cl: "in_close t \<Longrightarrow> in_close t0 \<or> cy_registered c"
    and ret: "cy_close_returned c' \<Longrightarrow> cy_close_returned c \<or>
      waiting t0 \<and> in_close t0 \<and> \<not> in_close t \<and> sub_active_deliveries (cy_sub c') = 0"
    and keep: "cy_close_returned c \<Longrightarrow> cy_close_returned c'"
  shows "close_inv c'"
proof -
  note d = threads_in_move [OF pc ts, of delivering] and k = threads_in_move [OF pc ts, of in_close]
  note pos = threads_in_pos [OF pc]
  have a: "sub_active_deliveries (cy_sub c') = threads_in delivering c'"
    using inv act d by (auto simp: close_inv_def split: if_splits)
  have r: "cy_registered c' \<longrightarrow> threads_in in_close c' = 0 \<and> \<not> cy_close_returned c'"
    using inv reg k by (auto simp: close_inv_def split: if_splits)
  have o: "threads_in in_close c' + (if cy_close_returned c' then 1 else 0) \<le> 1"
  proof (cases "cy_close_returned c")
    case True
    then show ?thesis
      using inv k pos [of in_close] cl keep by (auto simp: close_inv_def split: if_splits)
  next
    case False
    then show ?thesis
      using inv k pos [of in_close] cl ret by (auto simp: close_inv_def split: if_splits)
  qed
  have w: "0 < threads_in waiting c' \<longrightarrow> sub_closing (cy_sub c')"
    using inv mark wait threads_in_move [OF pc ts, of waiting] by (auto simp: close_inv_def split: if_splits)
  have "cy_close_returned c' \<longrightarrow> sub_closing (cy_sub c') \<and> threads_in delivering c' = 0"
    using inv mark ret a d pos [of delivering] pos [of waiting] by (auto simp: close_inv_def split: if_splits)
  with a r o w show ?thesis by (simp add: close_inv_def)
qed

lemma close_inv_goto:
  assumes "close_inv c" "at_pc c i t0" "delivering t = delivering t0" "\<not> in_close t" "\<not> waiting t"
  shows "close_inv (goto i t c)"
  using assms by (intro close_inv_move [OF assms(1,2), of _ t]) auto

lemma close_inv_step:
  assumes "close_inv c" "close_step c c'"
  shows "close_inv c'"
  using assms(2)
proof cases
  case (deliver_start i st e s)
  then show ?thesis
    using deliver_take_frame [OF deliver_start(3)]
    by (intro close_inv_move [OF assms(1), of i T_found _ "T_callback e"]) auto
next
  case (deliver_finish i)
  have "0 < sub_active_deliveries (cy_sub c)"
    using threads_in_pos [OF deliver_finish(2), of delivering] assms(1) by (simp add: close_inv_def)
  with deliver_finish show ?thesis
    by (intro close_inv_move [OF assms(1), of i T_returned _ T_idle]) (auto simp: deliver_done_def)
next
  case (close_marks i x)
  have "\<not> cy_registered c"
    using threads_in_pos [OF close_marks(2), of in_close] assms(1) by (auto simp: close_inv_def)
  moreover have "delivering (T_waiting x) = delivering (T_closing x)" by (cases x) auto
  ultimately show ?thesis
    using close_marks by (intro close_inv_move [OF assms(1), of i "T_closing x" _ "T_waiting x"]) (auto simp: close_mark_def)
next
  case (close_returns i x)
  have "\<not> cy_registered c"
    using threads_in_pos [OF close_returns(2), of in_close] assms(1) by (auto simp: close_inv_def)
  moreover have "delivering (T_waiting x) = delivering (resume x)" "\<not> in_close (resume x)" "\<not> waiting (resume x)"
    by (cases x; simp)+
  ultimately show ?thesis
    using close_returns by (intro close_inv_move [OF assms(1), of i "T_waiting x" _ "resume x"])
      (auto simp: close_done_def close_wait_def)
next
  case (dispatch_enqueue i e)
  then show ?thesis
    by (intro close_inv_move [OF assms(1), of i "T_offer e" _ T_idle]) (auto simp: enqueue_frame)
next
  case (close_lookup i)
  then show ?thesis by (intro close_inv_move [OF assms(1), of i T_idle _ "T_closing None"]) auto
next
  case (close_in_callback i e)
  then show ?thesis by (intro close_inv_move [OF assms(1), of i "T_callback e" _ "T_closing (Some e)"]) auto
qed (auto intro: close_inv_goto [OF assms(1)])

lemma close_inv_start: "close_inv (close_system_start f l n)"
  by (simp add: close_inv_def close_system_start_def threads_in_def make_subscription_def filter_replicate)

lemma close_inv_reachable:
  assumes "close_step\<^sup>*\<^sup>* c c'" "close_inv c"
  shows "close_inv c'"
  using assms by (induction rule: rtranclp_induct) (auto intro: close_inv_step)

lemma close_reachable_inv: "close_reachable f l n c \<Longrightarrow> close_inv c"
  using close_inv_reachable [OF _ close_inv_start] by (simp add: close_reachable_def)

section \<open>Properties\<close>
text \<open>
  C18: Closing a subscription is final for its callbacks. However deliveries, dispatches and a
  close interleave, once close has returned no thread is inside a callback of the
  subscription, and none enters one in any later state.
\<close>

theorem no_callback_after_close:
  assumes "close_reachable f l n c" and "cy_close_returned c" and "close_step\<^sup>*\<^sup>* c c'"
  shows "\<not> at_pc c' i (T_callback e)"
proof
  assume pc: "at_pc c' i (T_callback e)"
  have "close_inv c'" by (rule close_inv_reachable [OF assms(3) close_reachable_inv [OF assms(1)]])
  moreover have "cy_close_returned c'"
    using assms(3,2) by (induction rule: rtranclp_induct) (auto elim: close_stepE)
  ultimately show False using threads_in_pos [OF pc, of delivering] by (simp add: close_inv_def)
qed

text \<open>
  C33: A close called from inside a callback of the same subscription never returns: the call
  waits for the number of active deliveries to become zero and its own delivery is one of
  them, so the thread stays in the wait in every later state, whatever the other threads do.
\<close>

theorem close_inside_callback_never_returns:
  assumes "close_reachable f l n c" and "at_pc c i (T_waiting (Some e))" and "close_step\<^sup>*\<^sup>* c c'"
  shows "at_pc c' i (T_waiting (Some e)) \<and> \<not> cy_close_returned c'"
proof -
  have "close_inv c' \<and> at_pc c' i (T_waiting (Some e))"
    using assms(3,2)
  proof (induction rule: rtranclp_induct)
    case base
    then show ?case using close_reachable_inv [OF assms(1)] by simp
  next
    case (step y z)
    then have y: "close_inv y" "at_pc y i (T_waiting (Some e))" by auto
    then have "\<not> close_wait (cy_sub y)"
      using threads_in_pos [OF y(2), of delivering] by (simp add: close_inv_def close_wait_def)
    with step(2) y(2) have "at_pc z i (T_waiting (Some e))"
      by cases (auto simp: nth_list_update)
    with close_inv_step [OF y(1) step(2)] show ?case by simp
  qed
  then have c': "close_inv c'" "at_pc c' i (T_waiting (Some e))" by auto
  then show ?thesis using threads_in_pos [OF c'(2), of delivering] by (auto simp: close_inv_def)
qed

text \<open>A run in which a thread delivers an event and closes, with the states it passes.\<close>

definition witness_close :: "thread \<Rightarrow> bool \<Rightarrow> bool \<Rightarrow> subscription \<Rightarrow> close_system" where
  "witness_close t reg returned s =
     \<lparr>cy_registered = reg, cy_sub = s, cy_threads = [t], cy_close_returned = returned\<rparr>"

abbreviation witness_limits_sub :: subscription_limits where
  "witness_limits_sub \<equiv> \<lparr>sbl_max_events = 2, sbl_max_bytes = 1000\<rparr>"

lemma witness_enqueue:
  "enqueue (witness_update 1) witness_queue =
     (False, witness_queue\<lparr>sub_pending := [witness_update 1], sub_pending_bytes := 177\<rparr>)"
  by code_simp

lemma witness_callback:
  "close_reachable witness_filter witness_limits_sub 1
     (witness_close (T_callback (witness_update 1)) True False
        (witness_queue\<lparr>sub_active_deliveries := 1, sub_pending_bytes := szsub 177 (eventBytes (witness_update 1))\<rparr>))"
proof -
  let ?q = "witness_queue\<lparr>sub_pending := [witness_update 1], sub_pending_bytes := 177\<rparr>"
  let ?c = "\<lambda>t. witness_close t True False"
  have "close_step (?c T_idle witness_queue) (?c (T_offer (witness_update 1)) witness_queue)"
    using dispatch_lookup [of 0 "?c T_idle witness_queue" "witness_update 1"] by (simp add: witness_close_def)
  moreover have "close_step (?c (T_offer (witness_update 1)) witness_queue) (?c T_idle ?q)"
    using dispatch_enqueue [of 0 "?c (T_offer (witness_update 1)) witness_queue" "witness_update 1"]
    by (simp add: witness_close_def witness_enqueue)
  moreover have "close_step (?c T_idle ?q) (?c T_found ?q)"
    using deliver_lookup [of 0 "?c T_idle ?q"] by (simp add: witness_close_def)
  moreover have "close_step (?c T_found ?q) (?c (T_callback (witness_update 1))
      (witness_queue\<lparr>sub_active_deliveries := 1, sub_pending_bytes := szsub 177 (eventBytes (witness_update 1))\<rparr>))"
    using deliver_start [of 0 "?c T_found ?q" SUCCESS "witness_update 1"]
    by (simp add: witness_close_def deliver_take_def witness_queue_def make_subscription_def)
  ultimately show ?thesis
    by (auto simp: close_reachable_def close_system_start_def witness_close_def witness_queue_def
        intro: converse_rtranclp_into_rtranclp)
qed

theorem close_inside_callback_never_returns_witness:
  "\<exists>s. close_reachable witness_filter witness_limits_sub 1
       (witness_close (T_waiting (Some (witness_update 1))) False False s) \<and>
     (\<forall>c'. close_step\<^sup>*\<^sup>* (witness_close (T_waiting (Some (witness_update 1))) False False s) c' \<longrightarrow>
        \<not> cy_close_returned c')"
proof -
  let ?s = "witness_queue\<lparr>sub_active_deliveries := 1, sub_pending_bytes := szsub 177 (eventBytes (witness_update 1))\<rparr>"
  let ?c = "witness_close (T_callback (witness_update 1)) True False ?s"
  have "close_step ?c (witness_close (T_closing (Some (witness_update 1))) False False ?s)"
    using close_in_callback [of 0 ?c] by (simp add: witness_close_def)
  moreover have "close_step (witness_close (T_closing (Some (witness_update 1))) False False ?s)
      (witness_close (T_waiting (Some (witness_update 1))) False False (close_mark ?s))"
    using close_marks [of 0 "witness_close (T_closing (Some (witness_update 1))) False False ?s"]
    by (simp add: witness_close_def)
  ultimately have r: "close_reachable witness_filter witness_limits_sub 1
      (witness_close (T_waiting (Some (witness_update 1))) False False (close_mark ?s))"
    using witness_callback by (auto simp: close_reachable_def intro: rtranclp.rtrancl_into_rtrancl)
  have "at_pc (witness_close (T_waiting (Some (witness_update 1))) False False (close_mark ?s)) 0
      (T_waiting (Some (witness_update 1)))"
    by (simp add: witness_close_def)
  from close_inside_callback_never_returns [OF r this] r show ?thesis by blast
qed

theorem no_callback_after_close_witness:
  "close_reachable witness_filter witness_limits_sub 1
     (witness_close T_idle False True (close_done (close_mark witness_queue))) \<and>
   \<not> at_pc (witness_close T_idle False True (close_done (close_mark witness_queue))) 0 (T_callback (witness_update 1))"
proof -
  let ?c = "witness_close T_idle True False witness_queue"
  let ?d = "witness_close (T_closing None) False False witness_queue"
  let ?w = "witness_close (T_waiting None) False False (close_mark witness_queue)"
  have "close_step ?c ?d"
    using close_lookup [of 0 ?c] by (simp add: witness_close_def)
  moreover have "close_step ?d ?w"
    using close_marks [of 0 ?d] by (simp add: witness_close_def)
  moreover have "close_step ?w (witness_close T_idle False True (close_done (close_mark witness_queue)))"
    using close_returns [of 0 ?w None]
    by (simp add: witness_close_def close_wait_def close_mark_def witness_queue_def make_subscription_def)
  ultimately have r: "close_reachable witness_filter witness_limits_sub 1
      (witness_close T_idle False True (close_done (close_mark witness_queue)))"
    by (auto simp: close_reachable_def close_system_start_def witness_close_def witness_queue_def
        intro: converse_rtranclp_into_rtranclp)
  with no_callback_after_close [OF r _ rtranclp.rtrancl_refl] show ?thesis by (simp add: witness_close_def)
qed

end
