(* ===== verification/Frames.thy ===== *)
theory Frames
  imports Common
begin

text \<open>
  \<open>src/product/src/ipc/frame.*\<close>: the wire format of the local protocol. A frame is a 20 byte
  big-endian header and a payload; the decoder reassembles frames from the chunks a stream
  socket delivers. Decoding is shown to be independent of the chunking, inverse to encoding,
  and bounded in memory.
\<close>

unbundle bit_operations_syntax

section \<open>Frames and bytes\<close>

definition kProtocolMajor :: u16 where "kProtocolMajor = 1"
definition kProtocolMinor :: u16 where "kProtocolMinor = 0"
definition kFrameHeaderBytes :: size_t where "kFrameHeaderBytes = 20"

text \<open>
  A message type is any \<open>uint16_t\<close>: the decoder casts what it reads, so values outside the
  enumeration occur.
\<close>

type_synonym message_type = u16

definition kHelloRequest :: message_type where "kHelloRequest = 1"
definition kHelloResponse :: message_type where "kHelloResponse = 2"
definition kErrorResponse :: message_type where "kErrorResponse = 3"
definition kVersionRequest :: message_type where "kVersionRequest = 4"
definition kVersionResponse :: message_type where "kVersionResponse = 5"
definition kEntityListRequest :: message_type where "kEntityListRequest = 6"
definition kEntityListResponse :: message_type where "kEntityListResponse = 7"
definition kCapabilityQueryRequest :: message_type where "kCapabilityQueryRequest = 8"
definition kCapabilityQueryResponse :: message_type where "kCapabilityQueryResponse = 9"
definition kHealthQueryRequest :: message_type where "kHealthQueryRequest = 10"
definition kHealthQueryResponse :: message_type where "kHealthQueryResponse = 11"

record frame =
  fr_protocol_major :: u16
  fr_protocol_minor :: u16
  fr_message_type :: message_type
  fr_flags :: u16
  fr_request_id :: u64
  fr_payload :: "u8 list"

definition writeU16 :: "nat \<Rightarrow> u16 \<Rightarrow> u8 list \<Rightarrow> u8 list" where
  "writeU16 offset v bytes =
     bytes[offset := ucast (drop_bit 8 v AND 0xFF), offset + 1 := ucast (v AND 0xFF)]"

definition writeU32 :: "nat \<Rightarrow> u32 \<Rightarrow> u8 list \<Rightarrow> u8 list" where
  "writeU32 offset v bytes =
     bytes[offset := ucast (drop_bit 24 v AND 0xFF), offset + 1 := ucast (drop_bit 16 v AND 0xFF),
       offset + 2 := ucast (drop_bit 8 v AND 0xFF), offset + 3 := ucast (v AND 0xFF)]"

definition writeU64 :: "nat \<Rightarrow> u64 \<Rightarrow> u8 list \<Rightarrow> u8 list" where
  "writeU64 offset v bytes =
     fold (\<lambda>index bytes. bytes[offset + index := ucast (drop_bit ((7 - index) * 8) v AND 0xFF)]) [0..<8] bytes"

definition readU16 :: "u8 list \<Rightarrow> u16" where
  "readU16 b = push_bit 8 (ucast (b ! 0)) OR ucast (b ! 1)"

definition readU32 :: "u8 list \<Rightarrow> u32" where
  "readU32 b = ((push_bit 24 (ucast (b ! 0)) OR push_bit 16 (ucast (b ! 1))) OR
     push_bit 8 (ucast (b ! 2))) OR ucast (b ! 3)"

definition readU64 :: "u8 list \<Rightarrow> u64" where
  "readU64 b = fold (\<lambda>index v. push_bit 8 v OR ucast (b ! index)) [0..<8] 0"

section \<open>Encoding\<close>

text \<open>\<open>std::copy\<close> of the payload to an offset of the output.\<close>

definition copy_at :: "nat \<Rightarrow> 'a list \<Rightarrow> 'a list \<Rightarrow> 'a list" where
  "copy_at offset src dst = take offset dst @ src @ drop (offset + length src) dst"

definition encodeFrame :: "frame \<Rightarrow> size_t \<Rightarrow> pdcm_status + u8 list" where
  "encodeFrame f max_frame_bytes =
    (if max_frame_bytes < kFrameHeaderBytes \<or> length (fr_payload f) > (2 ^ 32 - 1) - kFrameHeaderBytes
     then Inl INVALID_ARGUMENT
     else
      let frame_size = kFrameHeaderBytes + length (fr_payload f) in
      if frame_size > max_frame_bytes then Inl RESOURCE_EXHAUSTED
      else
       let out = replicate frame_size 0;
           out = writeU32 0 (of_nat frame_size) out;
           out = writeU16 4 (fr_protocol_major f) out;
           out = writeU16 6 (fr_protocol_minor f) out;
           out = writeU16 8 (fr_message_type f) out;
           out = writeU16 10 (fr_flags f) out;
           out = writeU64 12 (fr_request_id f) out
       in Inr (copy_at kFrameHeaderBytes (fr_payload f) out))"

section \<open>Decoding\<close>

record frame_decoder =
  fd_max_frame_bytes :: size_t
  fd_buffer :: "u8 list"
  fd_poisoned :: bool

definition FrameDecoder :: "size_t \<Rightarrow> frame_decoder" where
  "FrameDecoder n = \<lparr>fd_max_frame_bytes = n, fd_buffer = [], fd_poisoned = False\<rparr>"

definition decoder_fail :: "frame_decoder \<Rightarrow> frame_decoder" where
  "decoder_fail d = d\<lparr>fd_buffer := [], fd_poisoned := True\<rparr>"

definition reset :: "frame_decoder \<Rightarrow> frame_decoder" where
  "reset d = d\<lparr>fd_buffer := [], fd_poisoned := False\<rparr>"

definition poisoned :: "frame_decoder \<Rightarrow> bool" where
  "poisoned d = fd_poisoned d"

definition bufferedBytes :: "frame_decoder \<Rightarrow> size_t" where
  "bufferedBytes d = length (fd_buffer d)"

definition parse_frame :: "nat \<Rightarrow> u8 list \<Rightarrow> frame" where
  "parse_frame frame_size cur =
     \<lparr>fr_protocol_major = readU16 (drop 4 cur), fr_protocol_minor = readU16 (drop 6 cur),
      fr_message_type = readU16 (drop 8 cur), fr_flags = readU16 (drop 10 cur),
      fr_request_id = readU64 (drop 12 cur),
      fr_payload = drop kFrameHeaderBytes (take frame_size cur)\<rparr>"

text \<open>
  The loop of \<open>append\<close> over the unconsumed bytes: the frames it pushes, and the failure that
  ends it or the bytes it leaves.
\<close>

function decodeLoop :: "size_t \<Rightarrow> u8 list \<Rightarrow> frame list \<times> (pdcm_status + u8 list)" where
  "decodeLoop n cur =
    (if length cur < 4 then ([], Inr cur)
     else
      let frame_size = unat (readU32 cur) in
      if frame_size < kFrameHeaderBytes then ([], Inl INVALID_ARGUMENT)
      else if frame_size > n then ([], Inl RESOURCE_EXHAUSTED)
      else if length cur < frame_size then ([], Inr cur)
      else let (frames, r) = decodeLoop n (drop frame_size cur) in (parse_frame frame_size cur # frames, r))"
  by pat_completeness auto

termination
  by (relation "measure (\<lambda>(_, cur). length cur)") (auto simp: kFrameHeaderBytes_def)

declare decodeLoop.simps [simp del]

text \<open>
  \<open>append\<close>: \<open>None\<close> stands for a null frame list, or null data of non-zero size. The frames are
  the ones appended to the list, also when a failure follows them.
\<close>

definition FrameDecoder_append ::
  "u8 list option \<Rightarrow> frame_decoder \<Rightarrow> (pdcm_status \<times> frame list) \<times> frame_decoder" where
  "FrameDecoder_append arg d =
    (if fd_poisoned d then ((INVALID_ARGUMENT, []), d)
     else
      case arg of None \<Rightarrow> ((INVALID_ARGUMENT, []), decoder_fail d)
      | Some data \<Rightarrow>
         if length data = 0 then ((SUCCESS, []), d)
         else
          let n = fd_max_frame_bytes d;
              buffer_limit = (if n > size_max div 2 then size_max else n * 2)
          in if n < kFrameHeaderBytes \<or> length data > n \<or> length (fd_buffer d) > n \<or>
                length data > szsub buffer_limit (length (fd_buffer d))
             then ((RESOURCE_EXHAUSTED, []), decoder_fail d)
             else
              let (frames, r) = decodeLoop n (fd_buffer d @ data) in
              case r of
                Inl st \<Rightarrow> ((st, frames), decoder_fail d)
              | Inr rest \<Rightarrow> ((SUCCESS, frames), d\<lparr>fd_buffer := rest\<rparr>))"

section \<open>Reading back what was written\<close>

lemma byte_mask: "ucast (x AND 0xFF) = (ucast x :: u8)" for x :: "'a::len word"
proof -
  have eq: "(0xFF :: 'a word) = mask 8" by (simp add: mask_eq_exp_minus_1)
  show ?thesis
    unfolding eq by (rule bit_word_eqI) (auto simp: bit_simps dest: bit_imp_le_length)
qed

lemma read_write_U16: "readU16 [ucast (drop_bit 8 v AND 0xFF), ucast (v AND 0xFF)] = v"
  unfolding readU16_def byte_mask
  by (rule bit_word_eqI) (auto simp: bit_simps)

lemma read_write_U32:
  "readU32 [ucast (drop_bit 24 v AND 0xFF), ucast (drop_bit 16 v AND 0xFF), ucast (drop_bit 8 v AND 0xFF),
     ucast (v AND 0xFF)] = v"
proof (rule bit_word_eqI)
  fix n assume n: "n < LENGTH(32)"
  consider "n < 8" | "8 \<le> n" "n < 16" | "16 \<le> n" "n < 24" | "24 \<le> n" "n < 32" using n by fastforce
  then show "bit (readU32 [ucast (drop_bit 24 v AND 0xFF), ucast (drop_bit 16 v AND 0xFF),
      ucast (drop_bit 8 v AND 0xFF), ucast (v AND 0xFF)]) n = bit v n"
    unfolding readU32_def byte_mask by cases (auto simp: bit_simps)
qed

lemma shift_in: "push_bit 8 (drop_bit (k + 8) v) OR ucast (ucast (drop_bit k v) :: u8) = drop_bit k v"
  if "k \<le> 56" for v :: u64
proof (rule bit_word_eqI)
  fix n assume "n < LENGTH(64)"
  then show "bit (push_bit 8 (drop_bit (k + 8) v) OR ucast (ucast (drop_bit k v) :: u8)) n = bit (drop_bit k v) n"
    by (cases "n < 8") (auto simp: bit_simps)
qed

lemma read_write_U64:
  "readU64 (map (\<lambda>index. ucast (drop_bit ((7 - index) * 8) v AND 0xFF)) [0..<8]) = v"
proof -
  have "(0::u64) = drop_bit 64 v"
    by (rule bit_word_eqI) (simp add: bit_simps)
  then show ?thesis
    unfolding readU64_def byte_mask
    using shift_in [of 56 v] shift_in [of 48 v] shift_in [of 40 v] shift_in [of 32 v] shift_in [of 24 v]
      shift_in [of 16 v] shift_in [of 8 v] shift_in [of 0 v]
    by (simp add: upt_rec)
qed

section \<open>The bytes of a frame\<close>

definition bytesU16 :: "u16 \<Rightarrow> u8 list" where
  "bytesU16 v = [ucast (drop_bit 8 v AND 0xFF), ucast (v AND 0xFF)]"

definition bytesU32 :: "u32 \<Rightarrow> u8 list" where
  "bytesU32 v = [ucast (drop_bit 24 v AND 0xFF), ucast (drop_bit 16 v AND 0xFF),
     ucast (drop_bit 8 v AND 0xFF), ucast (v AND 0xFF)]"

definition bytesU64 :: "u64 \<Rightarrow> u8 list" where
  "bytesU64 v = map (\<lambda>index. ucast (drop_bit ((7 - index) * 8) v AND 0xFF)) [0..<8]"

definition frame_bytes :: "frame \<Rightarrow> u8 list" where
  "frame_bytes f =
     bytesU32 (of_nat (kFrameHeaderBytes + length (fr_payload f))) @ bytesU16 (fr_protocol_major f) @
     bytesU16 (fr_protocol_minor f) @ bytesU16 (fr_message_type f) @ bytesU16 (fr_flags f) @
     bytesU64 (fr_request_id f) @ fr_payload f"

lemma length_bytes [simp]: "length (bytesU16 a) = 2" "length (bytesU32 b) = 4" "length (bytesU64 c) = 8"
  by (simp_all add: bytesU16_def bytesU32_def bytesU64_def)

lemma length_frame_bytes [simp]: "length (frame_bytes f) = kFrameHeaderBytes + length (fr_payload f)"
  by (simp add: frame_bytes_def kFrameHeaderBytes_def)

lemma bytesU64_list:
  "bytesU64 v = [ucast (drop_bit 56 v AND 0xFF), ucast (drop_bit 48 v AND 0xFF), ucast (drop_bit 40 v AND 0xFF),
     ucast (drop_bit 32 v AND 0xFF), ucast (drop_bit 24 v AND 0xFF), ucast (drop_bit 16 v AND 0xFF),
     ucast (drop_bit 8 v AND 0xFF), ucast (v AND 0xFF)]"
  by (simp add: bytesU64_def upt_rec)

lemma read_bytes [simp]:
  "readU16 (bytesU16 a @ xs) = a" "readU32 (bytesU32 b @ xs) = b" "readU64 (bytesU64 c @ xs) = c"
  using read_write_U16 [of a] read_write_U32 [of b] read_write_U64 [of c]
  unfolding bytesU64_def [symmetric] unfolding bytesU64_list
  by (simp_all add: readU16_def readU32_def readU64_def bytesU16_def bytesU32_def upt_rec numeral_eq_Suc)

lemma encodeFrame_bytes:
  assumes "encodeFrame f n = Inr out"
  shows "out = frame_bytes f" "length out \<le> n" "length out < 2 ^ 32"
proof -
  have rep: "replicate (20 + k) (0::u8) = [0,0,0,0,0,0,0,0,0,0,0,0,0,0,0,0,0,0,0,0] @ replicate k 0" for k
    by (simp add: numeral_eq_Suc)
  from assms show "out = frame_bytes f"
    by (simp add: encodeFrame_def Let_def kFrameHeaderBytes_def rep writeU16_def writeU32_def writeU64_def upt_rec
        frame_bytes_def bytesU16_def bytesU32_def bytesU64_list copy_at_def split: if_splits)
  with assms show "length out \<le> n" "length out < 2 ^ 32"
    by (auto simp: encodeFrame_def Let_def kFrameHeaderBytes_def split: if_splits)
qed

lemma parse_frame_bytes: "parse_frame (length (frame_bytes f)) (frame_bytes f @ xs) = f"
proof -
  have "take (20 + length (fr_payload f)) (frame_bytes f @ xs) = frame_bytes f"
    by (simp add: kFrameHeaderBytes_def)
  then show ?thesis
    by (simp add: parse_frame_def kFrameHeaderBytes_def del: take_append)
      (simp add: frame_bytes_def)
qed

lemma decodeLoop_frame:
  assumes "kFrameHeaderBytes + length (fr_payload f) < 2 ^ 32" "kFrameHeaderBytes + length (fr_payload f) \<le> n"
  shows "decodeLoop n (frame_bytes f @ xs) = (let (fs, r) = decodeLoop n xs in (f # fs, r))"
proof -
  have "readU32 (frame_bytes f @ xs) = of_nat (kFrameHeaderBytes + length (fr_payload f))"
    by (simp add: frame_bytes_def)
  then have "unat (readU32 (frame_bytes f @ xs)) = length (frame_bytes f)"
    using assms(1) by (simp add: unat_of_nat del: of_nat_add)
  then show ?thesis
    using assms(2) parse_frame_bytes [of f xs]
    by (subst decodeLoop.simps) (simp add: Let_def kFrameHeaderBytes_def)
qed

section \<open>Chunks\<close>

text \<open>Decoding continues where it stopped: what was left over is a prefix of what follows.\<close>

lemma decodeLoop_stop:
  "length cur < 4 \<or> (kFrameHeaderBytes \<le> unat (readU32 cur) \<and> unat (readU32 cur) \<le> n \<and> length cur < unat (readU32 cur)) \<Longrightarrow>
   decodeLoop n cur = ([], Inr cur)"
  by (subst decodeLoop.simps) (auto simp: Let_def)

lemma decodeLoop_bad:
  "4 \<le> length cur \<Longrightarrow> unat (readU32 cur) < kFrameHeaderBytes \<or> n < unat (readU32 cur) \<Longrightarrow>
   decodeLoop n cur = ([], Inl (if unat (readU32 cur) < kFrameHeaderBytes then INVALID_ARGUMENT else RESOURCE_EXHAUSTED))"
  by (subst decodeLoop.simps) (auto simp: Let_def)

lemma decodeLoop_next:
  "4 \<le> length cur \<Longrightarrow> kFrameHeaderBytes \<le> unat (readU32 cur) \<Longrightarrow> unat (readU32 cur) \<le> n \<Longrightarrow>
   unat (readU32 cur) \<le> length cur \<Longrightarrow>
   decodeLoop n cur =
     (parse_frame (unat (readU32 cur)) cur # fst (decodeLoop n (drop (unat (readU32 cur)) cur)),
      snd (decodeLoop n (drop (unat (readU32 cur)) cur)))"
  by (subst decodeLoop.simps) (simp add: Let_def case_prod_beta)

lemma decodeLoop_cases [case_names stop bad more]:
  assumes "length cur < 4 \<or>
      (kFrameHeaderBytes \<le> unat (readU32 cur) \<and> unat (readU32 cur) \<le> n \<and> length cur < unat (readU32 cur)) \<Longrightarrow> P"
    and "4 \<le> length cur \<Longrightarrow> unat (readU32 cur) < kFrameHeaderBytes \<or> n < unat (readU32 cur) \<Longrightarrow> P"
    and "4 \<le> length cur \<Longrightarrow> kFrameHeaderBytes \<le> unat (readU32 cur) \<Longrightarrow> unat (readU32 cur) \<le> n \<Longrightarrow>
      unat (readU32 cur) \<le> length cur \<Longrightarrow> P"
  shows P
  using assms by (meson not_le)

lemma readU32_append: "4 \<le> length cur \<Longrightarrow> readU32 (cur @ ys) = readU32 cur"
  by (auto simp: readU32_def nth_append)

lemma parse_frame_append: "kFrameHeaderBytes \<le> k \<Longrightarrow> k \<le> length cur \<Longrightarrow> parse_frame k (cur @ ys) = parse_frame k cur"
  by (auto simp: parse_frame_def readU16_def readU64_def kFrameHeaderBytes_def nth_append upt_rec)

lemma decodeLoop_append:
  "decodeLoop n (xs @ ys) =
    (case decodeLoop n xs of
       (fs, Inl st) \<Rightarrow> (fs, Inl st)
     | (fs, Inr rest) \<Rightarrow> (fs @ fst (decodeLoop n (rest @ ys)), snd (decodeLoop n (rest @ ys))))"
proof (induction "length xs" arbitrary: xs rule: less_induct)
  case less
  show ?case
  proof (cases rule: decodeLoop_cases [of xs n])
    case stop
    then show ?thesis by (simp add: decodeLoop_stop)
  next
    case bad
    then show ?thesis by (simp add: decodeLoop_bad readU32_append)
  next
    case more
    let ?k = "unat (readU32 xs)"
    have "length (drop ?k xs) < length xs" using more by (auto simp: kFrameHeaderBytes_def)
    note IH = less [OF this]
    show ?thesis
      using more IH by (simp add: decodeLoop_next readU32_append parse_frame_append split: prod.splits sum.splits)
  qed
qed

lemma decodeLoop_rest:
  "decodeLoop n cur = (fs, Inr rest) \<Longrightarrow> kFrameHeaderBytes \<le> n \<Longrightarrow>
   length rest < n \<and> decodeLoop n rest = ([], Inr rest)"
proof (induction "length cur" arbitrary: cur fs rule: less_induct)
  case less
  show ?case
  proof (cases rule: decodeLoop_cases [of cur n])
    case stop
    then show ?thesis using less.prems by (auto simp: decodeLoop_stop kFrameHeaderBytes_def)
  next
    case bad
    then show ?thesis using less.prems by (simp add: decodeLoop_bad)
  next
    case more
    let ?k = "unat (readU32 cur)"
    have "decodeLoop n (drop ?k cur) = (fst (decodeLoop n (drop ?k cur)), Inr rest)"
      using more less.prems(1) by (simp add: decodeLoop_next) (metis prod.collapse)
    moreover have "length (drop ?k cur) < length cur" using more by (auto simp: kFrameHeaderBytes_def)
    ultimately show ?thesis using less.hyps less.prems(2) by blast
  qed
qed

text \<open>The chunks a socket delivers, appended one after the other; the frames in order.\<close>

fun append_chunks :: "u8 list list \<Rightarrow> frame_decoder \<Rightarrow> frame list \<times> frame_decoder" where
  "append_chunks [] d = ([], d)"
| "append_chunks (c # cs) d =
    (let ((st, fs), d') = FrameDecoder_append (Some c) d; (gs, d'') = append_chunks cs d' in (fs @ gs, d''))"

definition decoder_ok :: "frame_decoder \<Rightarrow> bool" where
  "decoder_ok d \<longleftrightarrow>
     length (fd_buffer d) \<le> fd_max_frame_bytes d \<and> (fd_poisoned d \<longrightarrow> fd_buffer d = []) \<and>
     decodeLoop (fd_max_frame_bytes d) (fd_buffer d) = ([], Inr (fd_buffer d))"

lemma decodeLoop_Nil [simp]: "decodeLoop n [] = ([], Inr [])"
  by (simp add: decodeLoop.simps)

lemma decoder_fail_buffer [simp]: "decoder_fail (d\<lparr>fd_buffer := b\<rparr>) = decoder_fail d"
  by (simp add: decoder_fail_def)

lemma append_decodes:
  assumes "decoder_ok d" "\<not> fd_poisoned d" "kFrameHeaderBytes \<le> fd_max_frame_bytes d"
    and "fd_max_frame_bytes d \<le> size_max div 2" "length c \<le> fd_max_frame_bytes d"
  shows "FrameDecoder_append (Some c) d =
    (case decodeLoop (fd_max_frame_bytes d) (fd_buffer d @ c) of
       (fs, Inl st) \<Rightarrow> ((st, fs), decoder_fail d)
     | (fs, Inr rest) \<Rightarrow> ((SUCCESS, fs), d\<lparr>fd_buffer := rest\<rparr>))"
proof -
  have "length c \<le> szsub (fd_max_frame_bytes d * 2) (length (fd_buffer d))"
    using assms(1,5) by (auto simp: decoder_ok_def)
  then show ?thesis
    using assms by (auto simp: FrameDecoder_append_def Let_def decoder_ok_def split: prod.splits sum.splits)
qed

lemma append_poisoned: "fd_poisoned d \<Longrightarrow> append_chunks cs d = ([], d)"
  by (induction cs) (auto simp: FrameDecoder_append_def)

lemma decoder_ok_append: "decoder_ok d \<Longrightarrow> decoder_ok (snd (FrameDecoder_append arg d))"
  by (auto simp: FrameDecoder_append_def decoder_ok_def decoder_fail_def Let_def not_less
      dest: decodeLoop_rest split: option.splits prod.splits sum.splits)

lemma append_chunks_decode:
  assumes "decoder_ok d" "\<not> fd_poisoned d" "kFrameHeaderBytes \<le> fd_max_frame_bytes d"
    and "fd_max_frame_bytes d \<le> size_max div 2" "\<forall>c \<in> set cs. length c \<le> fd_max_frame_bytes d"
  shows "append_chunks cs d =
    (case decodeLoop (fd_max_frame_bytes d) (fd_buffer d @ concat cs) of
       (fs, Inl st) \<Rightarrow> (fs, decoder_fail d)
     | (fs, Inr rest) \<Rightarrow> (fs, d\<lparr>fd_buffer := rest\<rparr>))"
  using assms
proof (induction cs arbitrary: d)
  case Nil
  then show ?case by (simp add: decoder_ok_def)
next
  case (Cons c cs)
  let ?n = "fd_max_frame_bytes d"
  have app: "FrameDecoder_append (Some c) d =
    (case decodeLoop ?n (fd_buffer d @ c) of
       (fs, Inl st) \<Rightarrow> ((st, fs), decoder_fail d)
     | (fs, Inr rest) \<Rightarrow> ((SUCCESS, fs), d\<lparr>fd_buffer := rest\<rparr>))"
    using Cons.prems by (intro append_decodes) auto
  note split = decodeLoop_append [of ?n "fd_buffer d @ c" "concat cs"]
  obtain fs r where fr: "decodeLoop ?n (fd_buffer d @ c) = (fs, r)" by fastforce
  show ?case
  proof (cases r)
    case (Inl st)
    have "append_chunks cs (decoder_fail d) = ([], decoder_fail d)"
      by (rule append_poisoned) (simp add: decoder_fail_def)
    with Inl show ?thesis using app split fr by simp
  next
    case (Inr rest)
    have "decoder_ok (d\<lparr>fd_buffer := rest\<rparr>)"
      using decoder_ok_append [OF Cons.prems(1), of "Some c"] app fr Inr by simp
    then have "append_chunks cs (d\<lparr>fd_buffer := rest\<rparr>) =
      (case decodeLoop ?n (rest @ concat cs) of
         (fs, Inl st) \<Rightarrow> (fs, decoder_fail d)
       | (fs, Inr rest') \<Rightarrow> (fs, d\<lparr>fd_buffer := rest'\<rparr>))"
      using Cons.IH [of "d\<lparr>fd_buffer := rest\<rparr>"] Cons.prems(2-) by simp
    then show ?thesis using app split fr Inr by (auto split: prod.splits sum.splits)
  qed
qed

lemma decodeLoop_frames:
  "\<forall>f \<in> set fs. kFrameHeaderBytes + length (fr_payload f) < 2 ^ 32 \<and> kFrameHeaderBytes + length (fr_payload f) \<le> n \<Longrightarrow>
   decodeLoop n (concat (map frame_bytes fs)) = (fs, Inr [])"
  by (induction fs) (simp_all add: decodeLoop_frame)

section \<open>The decoder as a component\<close>

datatype decoder_op = D_append "u8 list option" | D_reset

primrec decoder_step :: "decoder_op \<Rightarrow> frame_decoder \<Rightarrow> frame_decoder" where
  "decoder_step (D_append arg) d = snd (FrameDecoder_append arg d)"
| "decoder_step D_reset d = reset d"

lemma append_max [simp]: "fd_max_frame_bytes (snd (FrameDecoder_append arg d)) = fd_max_frame_bytes d"
  by (auto simp: FrameDecoder_append_def decoder_fail_def Let_def split: option.splits prod.splits sum.splits)

interpretation fd: component "FrameDecoder n" decoder_step "\<lambda>d. decoder_ok d \<and> fd_max_frame_bytes d = n" for n
proof
  fix d op assume "decoder_ok d \<and> fd_max_frame_bytes d = n"
  then show "decoder_ok (decoder_step op d) \<and> fd_max_frame_bytes (decoder_step op d) = n"
    by (cases op) (simp_all add: decoder_ok_append, simp add: decoder_ok_def reset_def)
qed (simp add: FrameDecoder_def decoder_ok_def)

section \<open>Properties\<close>
text \<open>
  C4: Frames survive the wire. Encoding a list of frames, cutting the bytes into chunks in any
  way a stream socket may (each chunk at most the frame limit) and appending the chunks to a
  fresh decoder yields exactly the frames, in order, and leaves the decoder empty and healthy.
\<close>

theorem frame_stream_roundtrip:
  assumes "kFrameHeaderBytes \<le> n" and "n \<le> size_max div 2"
    and "list_all2 (\<lambda>f bytes. encodeFrame f n = Inr bytes) fs encoded"
    and "concat chunks = concat encoded" and "\<forall>c \<in> set chunks. length c \<le> n"
  shows "append_chunks chunks (FrameDecoder n) = (fs, FrameDecoder n)"
proof -
  have "encoded = map frame_bytes fs \<and>
    (\<forall>f \<in> set fs. kFrameHeaderBytes + length (fr_payload f) < 2 ^ 32 \<and> kFrameHeaderBytes + length (fr_payload f) \<le> n)"
    using assms(3)
  proof (induction rule: list_all2_induct)
    case (Cons f fs bs bss)
    note enc = encodeFrame_bytes [OF Cons(1)]
    then have "kFrameHeaderBytes + length (fr_payload f) < 2 ^ 32 \<and> kFrameHeaderBytes + length (fr_payload f) \<le> n"
      by simp
    with enc(1) Cons show ?case by simp
  qed simp
  then have "decodeLoop n (concat chunks) = (fs, Inr [])"
    using assms(4) by (simp add: decodeLoop_frames)
  then show ?thesis
    using append_chunks_decode [of "FrameDecoder n" chunks] assms(1,2,5)
    by (simp add: FrameDecoder_def decoder_ok_def)
qed

definition witness_frame :: frame where
  "witness_frame =
     \<lparr>fr_protocol_major = 1, fr_protocol_minor = 0, fr_message_type = kHelloRequest, fr_flags = 0,
      fr_request_id = 258, fr_payload = [7, 8]\<rparr>"

lemma witness_encode:
  "encodeFrame witness_frame 64 = Inr [0, 0, 0, 22, 0, 1, 0, 0, 0, 1, 0, 0, 0, 0, 0, 0, 0, 0, 1, 2, 7, 8]"
  by code_simp

theorem frame_stream_roundtrip_witness:
  "append_chunks [[0, 0, 0], [22, 0, 1, 0, 0, 0, 1, 0, 0, 0, 0, 0, 0], [], [0, 0, 1, 2, 7, 8]] (FrameDecoder 64) =
     ([witness_frame], FrameDecoder 64)"
  by (rule frame_stream_roundtrip [where encoded = "[[0, 0, 0, 22, 0, 1, 0, 0, 0, 1, 0, 0, 0, 0, 0, 0, 0, 0, 1, 2, 7, 8]]"])
    (simp_all add: witness_encode kFrameHeaderBytes_def size_max_def)

text \<open>
  C17: How a stream is cut into chunks does not matter, malformed streams included: appending
  chunks one by one gives the frames, and ends in the state, that decoding their
  concatenation in one piece gives; after a malformed length the decoder is poisoned and
  yields nothing more.
\<close>

theorem decoder_chunking_irrelevant:
  assumes "kFrameHeaderBytes \<le> n" and "n \<le> size_max div 2" and "\<forall>c \<in> set chunks. length c \<le> n"
  shows "append_chunks chunks (FrameDecoder n) =
    (case decodeLoop n (concat chunks) of
       (fs, Inl st) \<Rightarrow> (fs, \<lparr>fd_max_frame_bytes = n, fd_buffer = [], fd_poisoned = True\<rparr>)
     | (fs, Inr rest) \<Rightarrow> (fs, \<lparr>fd_max_frame_bytes = n, fd_buffer = rest, fd_poisoned = False\<rparr>))"
  using append_chunks_decode [of "FrameDecoder n" chunks] assms
  by (simp add: FrameDecoder_def decoder_ok_def decoder_fail_def)

theorem decoder_chunking_irrelevant_witness:
  "append_chunks [[0, 0], [0, 5, 1]] (FrameDecoder 64) = append_chunks [[0, 0, 0, 5, 1]] (FrameDecoder 64) \<and>
   poisoned (snd (append_chunks [[0, 0], [0, 5, 1]] (FrameDecoder 64)))"
proof -
  have "decodeLoop 64 [0, 0, 0, 5, 1] = ([], Inl INVALID_ARGUMENT)" by code_simp
  then show ?thesis
    using decoder_chunking_irrelevant [of 64 "[[0, 0], [0, 5, 1]]"] decoder_chunking_irrelevant [of 64 "[[0, 0, 0, 5, 1]]"]
    by (simp add: kFrameHeaderBytes_def size_max_def poisoned_def)
qed

text \<open>
  The decoder never holds more than one maximal frame between calls, whatever bytes a peer
  sends and whatever arguments it is called with; a poisoned decoder holds nothing, and stays
  poisoned until it is reset.
\<close>

theorem decoder_memory_bounded:
  assumes "d = fold decoder_step ops (FrameDecoder n)"
  shows "bufferedBytes d \<le> n \<and>
    (poisoned d \<longrightarrow> bufferedBytes d = 0 \<and> FrameDecoder_append arg d = ((INVALID_ARGUMENT, []), d) \<and> \<not> poisoned (reset d))"
  using fd.inv_reach [of ops n] assms
  by (auto simp: decoder_ok_def bufferedBytes_def poisoned_def FrameDecoder_append_def reset_def)

end
