(* ===== verification/Processor_Executor.thy ===== *)
theory Processor_Executor
  imports DataStore_Health Processor_Graph
begin

text \<open>
  \<open>src/product/src/metrics/processor.*\<close>, the executor of derived metrics: a bounded queue of
  evaluation tasks with deduplication (\<open>ProcessorExecutor::schedule\<close>) and one runner that
  evaluates a task, checks what the processor returned and commits it (\<open>runNext\<close>).

  \<open>runNext\<close> holds the queue lock only while it takes the task and while it remembers the
  key, and no lock of the data manager at all. Its parts are definitions of their own;
  \<open>runNext\<close> composes them for a caller that runs alone, and the relation \<open>px_step\<close> lets
  other threads schedule tasks and change the data manager between any two parts.
\<close>

section \<open>Limits, tasks and results\<close>

record processor_executor_limits =
  xl_max_queued_tasks :: size_t
  xl_max_queue_bytes :: size_t
  xl_max_recent_keys :: size_t

definition ProcessorExecutorLimits_validate :: "processor_executor_limits \<Rightarrow> pdcm_status" where
  "ProcessorExecutorLimits_validate l =
    (if xl_max_queued_tasks l = 0 \<or> xl_max_queue_bytes l = 0 \<or> xl_max_recent_keys l = 0
     then INVALID_ARGUMENT else SUCCESS)"

record processor_task =
  tk_processor :: metric_processor
  tk_context :: processor_context
  tk_snapshot :: "observation list"
  tk_dedup_key :: string
  tk_bytes :: size_t

record processor_run_result =
  prr_status :: pdcm_status
  prr_ran :: bool
  prr_discarded :: bool
  prr_commit :: data_commit_result

definition default_run_result :: processor_run_result where
  "default_run_result =
     \<lparr>prr_status = SUCCESS, prr_ran = False, prr_discarded = False,
      prr_commit = \<lparr>dcr_status = SUCCESS, dcr_commit_epoch = 0, dcr_committed_items = 0\<rparr>\<rparr>"

record processor_executor =
  px_limits :: processor_executor_limits
  px_queue :: "processor_task list"
  px_queued_bytes :: size_t
  px_queued_keys :: "string set"
  px_recent_order :: "string list"
  px_recent_keys :: "string set"

definition processor_executor_start :: "processor_executor_limits \<Rightarrow> processor_executor" where
  "processor_executor_start l =
     \<lparr>px_limits = l, px_queue = [], px_queued_bytes = 0, px_queued_keys = {},
      px_recent_order = [], px_recent_keys = {}\<rparr>"

text \<open>The constructor throws on invalid limits.\<close>

definition ProcessorExecutor :: "processor_executor_limits \<Rightarrow> processor_executor option" where
  "ProcessorExecutor l =
     (if \<not> ok (ProcessorExecutorLimits_validate l) then None else Some (processor_executor_start l))"

section \<open>Sizes and keys\<close>

text \<open>\<open>sizeof(Task)\<close> on the 64-bit ABI the project builds for.\<close>

definition sizeof_Task :: size_t where "sizeof_Task = 128"

definition readableProcessorStatus :: "pdcm_status \<Rightarrow> bool" where
  "readableProcessorStatus st \<longleftrightarrow> ok st \<or> st = PARTIAL_RESULT"

definition task_observationBytes :: "observation \<Rightarrow> size_t" where
  "task_observationBytes o' =
     sizeof_Observation + length (src_provider (obs_source o')) +
     length (src_native_source (obs_source o')) +
     length (status_message (em_status (obs_error o'))) +
     length (dv_processor_id (obs_derivation o')) +
     length (dv_input_sequences (obs_derivation o')) * sizeof_uint64 +
     (case obs_value o' of None \<Rightarrow> 0 | Some v \<Rightarrow> valueBytes v)"

fun add_bytes :: "size_t \<Rightarrow> observation list \<Rightarrow> size_t" where
  "add_bytes bytes [] = bytes"
| "add_bytes bytes (item # items) =
    (if bytes > szsub size_max (task_observationBytes item) then size_max
     else add_bytes (bytes + task_observationBytes item) items)"

definition taskBytes :: "metric_processor \<Rightarrow> observation list \<Rightarrow> size_t" where
  "taskBytes p items = add_bytes (sizeof_Task + length (mp_id p)) items"

definition dedupKey :: "metric_processor \<Rightarrow> processor_context \<Rightarrow> observation list \<Rightarrow> string" where
  "dedupKey p c items =
     mp_id p @ '':'' @ to_string (entity_kind_num (er_kind (pc_entity c))) @ '':'' @
     to_string (unat (er_id (pc_entity c))) @ '':'' @ to_string (unat (er_generation (pc_entity c))) @ '':'' @
     to_string (unat (pc_catalog_generation c)) @
     concat (map (\<lambda>(m, e). '':'' @ to_string (unat m) @ ''@'' @ to_string (unat e))
       (sort (map (\<lambda>i. (obs_metric i, obs_commit_epoch i)) items)))"

section \<open>Scheduling\<close>

definition schedule ::
  "metric_processor option \<Rightarrow> processor_context \<Rightarrow> observation list \<Rightarrow> processor_executor \<Rightarrow>
   (pdcm_status \<times> bool) \<times> processor_executor" where
  "schedule processor c items x =
    (case processor of
       None \<Rightarrow> ((INVALID_ARGUMENT, False), x)
     | Some p \<Rightarrow>
        if mp_id p = [] \<or> mp_version p = 0 \<or> er_kind (pc_entity c) \<noteq> EK_Device \<or>
           er_generation (pc_entity c) = 0 \<or> pc_catalog_generation c = 0 \<or>
           pc_evaluated_monotonic_time_ns c < 0 \<or> pc_derivation_depth c = 0 \<or>
           pc_derivation_depth c > 4 \<or> items = []
        then ((INVALID_ARGUMENT, False), x)
        else if list_ex (\<lambda>item. obs_entity item \<noteq> pc_entity c \<or>
             obs_catalog_generation item \<noteq> pc_catalog_generation c \<or> obs_commit_epoch item = 0 \<or>
             \<not> ok (validateObservation item)) items
        then ((STALE_GENERATION, False), x)
        else
         let l = px_limits x; bytes = taskBytes p items; key = dedupKey p c items
         in if bytes > xl_max_queue_bytes l then ((RESOURCE_EXHAUSTED, False), x)
            else if key \<in> px_queued_keys x \<or> key \<in> px_recent_keys x then ((SUCCESS, False), x)
            else if length (px_queue x) \<ge> xl_max_queued_tasks l \<or>
               bytes > szsub (xl_max_queue_bytes l) (px_queued_bytes x)
            then ((RESOURCE_EXHAUSTED, False), x)
            else
             ((SUCCESS, True),
              x\<lparr>px_queued_bytes := px_queued_bytes x + bytes, px_queued_keys := insert key (px_queued_keys x),
                px_queue := px_queue x @ [\<lparr>tk_processor = p, tk_context = c, tk_snapshot = items,
                  tk_dedup_key = key, tk_bytes = bytes\<rparr>]\<rparr>))"

section \<open>Running\<close>

definition run_take :: "processor_executor \<Rightarrow> (processor_task \<times> processor_executor) option" where
  "run_take x =
    (case px_queue x of
       [] \<Rightarrow> None
     | t # queue \<Rightarrow>
        Some (t, x\<lparr>px_queue := queue, px_queued_bytes := szsub (px_queued_bytes x) (tk_bytes t),
                  px_queued_keys := px_queued_keys x - {tk_dedup_key t}\<rparr>))"

definition run_stale :: "processor_task \<Rightarrow> data_manager \<Rightarrow> bool" where
  "run_stale t m \<longleftrightarrow> cst_generation (dm_catalog m) \<noteq> pc_catalog_generation (tk_context t)"

definition expected_versions :: "processor_metric list \<Rightarrow> (metric_id, u32) omap" where
  "expected_versions outputs =
     fold (\<lambda>out m. omap_emplace (pm_metric out) (pm_semantic_version out) m) outputs []"

fun outputs_conform ::
  "processor_task \<Rightarrow> (metric_id, u32) omap \<Rightarrow> metric_id set \<Rightarrow> observation list \<Rightarrow> bool" where
  "outputs_conform t expected seen [] = True"
| "outputs_conform t expected seen (out # outs) =
    (if (case map_of expected (obs_metric out) of None \<Rightarrow> True
         | Some version \<Rightarrow>
            obs_metric out \<in> seen \<or> obs_entity out \<noteq> pc_entity (tk_context t) \<or>
            obs_catalog_generation out \<noteq> pc_catalog_generation (tk_context t) \<or>
            obs_commit_epoch out \<noteq> 0 \<or> obs_metric_semantic_version out \<noteq> version \<or>
            dv_processor_id (obs_derivation out) \<noteq> mp_id (tk_processor t) \<or>
            dv_processor_version (obs_derivation out) \<noteq> mp_version (tk_processor t) \<or>
            dv_depth (obs_derivation out) \<noteq> pc_derivation_depth (tk_context t) \<or>
            \<not> ok (validateObservation out))
     then False
     else outputs_conform t expected (insert (obs_metric out) seen) outs)"

text \<open>Evaluation and the check of the result: a status that ends the run, or the outputs.\<close>

definition run_evaluate :: "processor_task \<Rightarrow> pdcm_status + observation list" where
  "run_evaluate t =
    (let evaluation = mp_evaluate (tk_processor t) (tk_context t) (tk_snapshot t);
         expected = mp_outputs (tk_processor t)
     in if \<not> readableProcessorStatus (pe_status evaluation) then Inl (pe_status evaluation)
        else if length (pe_outputs evaluation) \<noteq> length expected then Inl INTERNAL
        else if \<not> outputs_conform t (expected_versions expected) {} (pe_outputs evaluation) then Inl INTERNAL
        else Inr (pe_outputs evaluation))"

text \<open>\<open>remember\<close>: the loop drops the oldest keys above the limit.\<close>

function forget :: "size_t \<Rightarrow> string list \<Rightarrow> string set \<Rightarrow> string list \<times> string set" where
  "forget limit order keys =
    (if length order > limit then forget limit (tl order) (keys - {hd order}) else (order, keys))"
  by pat_completeness auto
termination
  by (relation "measure (\<lambda>(limit, order, keys). length order)") auto

declare forget.simps [simp del]

definition remember :: "string \<Rightarrow> processor_executor \<Rightarrow> processor_executor" where
  "remember key x =
    (if key \<in> px_recent_keys x then x
     else
      let (order, keys) = forget (xl_max_recent_keys (px_limits x)) (px_recent_order x @ [key])
            (insert key (px_recent_keys x))
      in x\<lparr>px_recent_order := order, px_recent_keys := keys\<rparr>)"

text \<open>\<open>runNext\<close> for a caller that runs alone.\<close>

definition runNext ::
  "data_manager \<Rightarrow> processor_executor \<Rightarrow> processor_run_result \<times> data_manager \<times> processor_executor" where
  "runNext m x =
    (case run_take x of
       None \<Rightarrow> (default_run_result, m, x)
     | Some (t, x) \<Rightarrow>
        let result = default_run_result\<lparr>prr_ran := True\<rparr>; finish = remember (tk_dedup_key t) x
        in if run_stale t m
           then (result\<lparr>prr_status := STALE_GENERATION, prr_discarded := True\<rparr>, m, finish)
           else
            case run_evaluate t of
              Inl st \<Rightarrow> (result\<lparr>prr_status := st\<rparr>, m, finish)
            | Inr outputs \<Rightarrow>
               if run_stale t m
               then (result\<lparr>prr_status := STALE_GENERATION, prr_discarded := True\<rparr>, m, finish)
               else
                let (commit, m) = DataManager_commit outputs m
                in (result\<lparr>prr_commit := commit, prr_status := dcr_status commit\<rparr>, m, finish))"

definition queuedTasks :: "processor_executor \<Rightarrow> size_t" where
  "queuedTasks x = length (px_queue x)"

definition queuedBytes :: "processor_executor \<Rightarrow> size_t" where
  "queuedBytes x = px_queued_bytes x"

section \<open>The runner among other threads\<close>

text \<open>
  Where the runner is: the run lock admits one at a time. \<open>Committing\<close> is after the second
  check of the generation and before the commit, \<open>Finishing\<close> before the key is remembered.
  \<open>xs_commits\<close> records each commit that was accepted, with the generation of the data manager.
\<close>

datatype runner =
    Resting
  | Took processor_task
  | Produced processor_task "observation list"
  | Committing processor_task "observation list"
  | Finishing processor_task

record executor_system =
  xs_data :: data_manager
  xs_executor :: processor_executor
  xs_runner :: runner
  xs_commits :: "(processor_task \<times> observation list \<times> u64) list"

definition executor_system_start :: "data_manager \<Rightarrow> processor_executor_limits \<Rightarrow> executor_system" where
  "executor_system_start m l =
     \<lparr>xs_data = m, xs_executor = processor_executor_start l, xs_runner = Resting, xs_commits = []\<rparr>"

inductive px_step :: "executor_system \<Rightarrow> executor_system \<Rightarrow> bool" where
  scheduled: "px_step s (s\<lparr>xs_executor := snd (schedule p c items (xs_executor s))\<rparr>)"
| data_changed: "px_step s (s\<lparr>xs_data := dm_step op (xs_data s)\<rparr>)"
| taken: "xs_runner s = Resting \<Longrightarrow> run_take (xs_executor s) = Some (t, x) \<Longrightarrow>
    px_step s (s\<lparr>xs_executor := x, xs_runner := Took t\<rparr>)"
| stale: "xs_runner s = Took t \<Longrightarrow> run_stale t (xs_data s) \<Longrightarrow> px_step s (s\<lparr>xs_runner := Finishing t\<rparr>)"
| refused: "xs_runner s = Took t \<Longrightarrow> \<not> run_stale t (xs_data s) \<Longrightarrow> run_evaluate t = Inl st \<Longrightarrow>
    px_step s (s\<lparr>xs_runner := Finishing t\<rparr>)"
| evaluated: "xs_runner s = Took t \<Longrightarrow> \<not> run_stale t (xs_data s) \<Longrightarrow> run_evaluate t = Inr outs \<Longrightarrow>
    px_step s (s\<lparr>xs_runner := Produced t outs\<rparr>)"
| became_stale: "xs_runner s = Produced t outs \<Longrightarrow> run_stale t (xs_data s) \<Longrightarrow>
    px_step s (s\<lparr>xs_runner := Finishing t\<rparr>)"
| checked: "xs_runner s = Produced t outs \<Longrightarrow> \<not> run_stale t (xs_data s) \<Longrightarrow>
    px_step s (s\<lparr>xs_runner := Committing t outs\<rparr>)"
| committed: "xs_runner s = Committing t outs \<Longrightarrow> DataManager_commit outs (xs_data s) = (r, m) \<Longrightarrow>
    px_step s (s\<lparr>xs_data := m, xs_runner := Finishing t,
      xs_commits := (if readableProcessorStatus (dcr_status r)
        then xs_commits s @ [(t, outs, cst_generation (dm_catalog (xs_data s)))] else xs_commits s)\<rparr>)"
| finished: "xs_runner s = Finishing t \<Longrightarrow>
    px_step s (s\<lparr>xs_executor := remember (tk_dedup_key t) (xs_executor s), xs_runner := Resting\<rparr>)"

inductive_cases px_stepE: "px_step s s'"

definition xs_reachable :: "data_manager \<Rightarrow> processor_executor_limits \<Rightarrow> executor_system \<Rightarrow> bool" where
  "xs_reachable m l s \<longleftrightarrow>
     ok (ProcessorExecutorLimits_validate l) \<and> px_step\<^sup>*\<^sup>* (executor_system_start m l) s"

section \<open>The invariant of the executor\<close>

definition task_ok :: "processor_executor_limits \<Rightarrow> processor_task \<Rightarrow> bool" where
  "task_ok l t \<longleftrightarrow>
    (let p = tk_processor t; c = tk_context t; items = tk_snapshot t
     in mp_id p \<noteq> [] \<and> mp_version p \<noteq> 0 \<and> er_kind (pc_entity c) = EK_Device \<and>
        er_generation (pc_entity c) \<noteq> 0 \<and> pc_catalog_generation c \<noteq> 0 \<and>
        0 \<le> pc_evaluated_monotonic_time_ns c \<and> pc_derivation_depth c \<noteq> 0 \<and> pc_derivation_depth c \<le> 4 \<and>
        items \<noteq> [] \<and>
        (\<forall>i \<in> set items. obs_entity i = pc_entity c \<and> obs_catalog_generation i = pc_catalog_generation c \<and>
           obs_commit_epoch i \<noteq> 0 \<and> validateObservation i = SUCCESS) \<and>
        tk_dedup_key t = dedupKey p c items \<and> tk_bytes t = taskBytes p items \<and>
        tk_bytes t \<le> xl_max_queue_bytes l)"

definition px_inv :: "processor_executor \<Rightarrow> bool" where
  "px_inv x \<longleftrightarrow>
     list_all (task_ok (px_limits x)) (px_queue x) \<and>
     length (px_queue x) \<le> xl_max_queued_tasks (px_limits x) \<and>
     px_queued_bytes x = sum_list (map tk_bytes (px_queue x)) \<and>
     px_queued_bytes x \<le> xl_max_queue_bytes (px_limits x) \<and>
     px_queued_keys x = tk_dedup_key ` set (px_queue x) \<and> distinct (map tk_dedup_key (px_queue x)) \<and>
     px_recent_keys x = set (px_recent_order x) \<and> distinct (px_recent_order x) \<and>
     length (px_recent_order x) \<le> xl_max_recent_keys (px_limits x)"

text \<open>The task that \<open>schedule\<close> builds, and the three ways it ends.\<close>

abbreviation new_task :: "metric_processor \<Rightarrow> processor_context \<Rightarrow> observation list \<Rightarrow> processor_task" where
  "new_task p c items \<equiv>
     \<lparr>tk_processor = p, tk_context = c, tk_snapshot = items, tk_dedup_key = dedupKey p c items,
      tk_bytes = taskBytes p items\<rparr>"

abbreviation enqueued :: "processor_task \<Rightarrow> processor_executor \<Rightarrow> processor_executor" where
  "enqueued t x \<equiv>
     x\<lparr>px_queued_bytes := px_queued_bytes x + tk_bytes t, px_queued_keys := insert (tk_dedup_key t) (px_queued_keys x),
       px_queue := px_queue x @ [t]\<rparr>"

lemma task_ok_new_iff:
  "task_ok l (new_task p c items) \<longleftrightarrow>
     \<not> (mp_id p = [] \<or> mp_version p = 0 \<or> er_kind (pc_entity c) \<noteq> EK_Device \<or>
        er_generation (pc_entity c) = 0 \<or> pc_catalog_generation c = 0 \<or>
        pc_evaluated_monotonic_time_ns c < 0 \<or> pc_derivation_depth c = 0 \<or>
        pc_derivation_depth c > 4 \<or> items = []) \<and>
     \<not> list_ex (\<lambda>item. obs_entity item \<noteq> pc_entity c \<or>
        obs_catalog_generation item \<noteq> pc_catalog_generation c \<or> obs_commit_epoch item = 0 \<or>
        \<not> ok (validateObservation item)) items \<and> taskBytes p items \<le> xl_max_queue_bytes l"
  by (auto simp: task_ok_def Let_def list_ex_iff not_less ok_def)

lemma schedule_valid:
  assumes "task_ok (px_limits x) (new_task p c items)" "px_queued_bytes x \<le> xl_max_queue_bytes (px_limits x)"
  shows "schedule (Some p) c items x =
    (if dedupKey p c items \<in> px_queued_keys x \<or> dedupKey p c items \<in> px_recent_keys x
     then ((SUCCESS, False), x)
     else if length (px_queue x) \<ge> xl_max_queued_tasks (px_limits x) \<or>
       taskBytes p items + px_queued_bytes x > xl_max_queue_bytes (px_limits x)
     then ((RESOURCE_EXHAUSTED, False), x) else ((SUCCESS, True), enqueued (new_task p c items) x))"
  using assms(1) [unfolded task_ok_new_iff]
  by (simp add: schedule_def Let_def less_szsub_iff [OF assms(2)])

lemma task_ok_new: "task_ok l t \<Longrightarrow> t = new_task (tk_processor t) (tk_context t) (tk_snapshot t)"
  by (simp add: task_ok_def Let_def)

lemma schedule_elim:
  obtains (kept) "snd (schedule p c items x) = x"
  | (queued) q where "p = Some q" "task_ok (px_limits x) (new_task q c items)"
    "dedupKey q c items \<notin> px_queued_keys x" "dedupKey q c items \<notin> px_recent_keys x"
    "length (px_queue x) < xl_max_queued_tasks (px_limits x)"
    "\<not> szsub (xl_max_queue_bytes (px_limits x)) (px_queued_bytes x) < taskBytes q items"
    "snd (schedule p c items x) = enqueued (new_task q c items) x"
proof (cases "\<exists>q. p = Some q \<and> task_ok (px_limits x) (new_task q c items) \<and>
    dedupKey q c items \<notin> px_queued_keys x \<and> dedupKey q c items \<notin> px_recent_keys x \<and>
    length (px_queue x) < xl_max_queued_tasks (px_limits x) \<and>
    \<not> szsub (xl_max_queue_bytes (px_limits x)) (px_queued_bytes x) < taskBytes q items")
  case True
  then obtain q where q: "p = Some q" "task_ok (px_limits x) (new_task q c items)"
    "dedupKey q c items \<notin> px_queued_keys x" "dedupKey q c items \<notin> px_recent_keys x"
    "length (px_queue x) < xl_max_queued_tasks (px_limits x)"
    "\<not> szsub (xl_max_queue_bytes (px_limits x)) (px_queued_bytes x) < taskBytes q items" by blast
  then have "snd (schedule p c items x) = enqueued (new_task q c items) x"
    using q(2) [unfolded task_ok_new_iff] by (simp add: schedule_def Let_def)
  with q show ?thesis using queued by blast
next
  case False
  have "snd (schedule p c items x) = x"
  proof (rule ccontr)
    assume "snd (schedule p c items x) \<noteq> x"
    then show False
      using False unfolding task_ok_new_iff
      by (auto simp: schedule_def Let_def not_less not_le split: option.splits if_splits)
  qed
  then show ?thesis by (rule kept)
qed

lemma px_inv_schedule:
  assumes "px_inv x" shows "px_inv (snd (schedule p c items x))"
proof (cases rule: schedule_elim [of p c items x])
  case (queued q)
  then have "taskBytes q items + px_queued_bytes x \<le> xl_max_queue_bytes (px_limits x)"
    using assms less_szsub_iff [of "px_queued_bytes x"] by (metis px_inv_def not_less)
  then show ?thesis using assms queued by (auto simp: px_inv_def)
qed (use assms in simp)

lemma px_inv_take:
  assumes "px_inv x" "run_take x = Some (t, x')"
  shows "px_inv x' \<and> task_ok (px_limits x) t \<and> px_limits x' = px_limits x"
proof -
  obtain queue where q: "px_queue x = t # queue"
    and x': "x' = x\<lparr>px_queue := queue, px_queued_bytes := szsub (px_queued_bytes x) (tk_bytes t),
      px_queued_keys := px_queued_keys x - {tk_dedup_key t}\<rparr>"
    using assms(2) by (auto simp: run_take_def split: list.splits)
  show ?thesis using assms(1) q by (auto simp: px_inv_def x')
qed

lemma forget_spec:
  "distinct order \<Longrightarrow> keys = set order \<Longrightarrow> forget limit order keys = (order', keys') \<Longrightarrow>
   order' = drop (length order - limit) order \<and> keys' = set order'"
proof (induction limit order keys rule: forget.induct)
  case (1 limit order keys)
  show ?case
  proof (cases "length order > limit")
    case True
    then obtain k ks where "order = k # ks" by (cases order) auto
    with True 1 show ?thesis
      by (subst (asm) (2) forget.simps) (auto simp: Suc_diff_le split: if_splits)
  next
    case False
    with 1 show ?thesis by (subst (asm) (2) forget.simps) auto
  qed
qed

lemma px_inv_remember:
  assumes "px_inv x" shows "px_inv (remember key x)" and "px_limits (remember key x) = px_limits x"
proof -
  obtain order' keys' where f: "forget (xl_max_recent_keys (px_limits x)) (px_recent_order x @ [key])
      (insert key (px_recent_keys x)) = (order', keys')"
    by fastforce
  show "px_limits (remember key x) = px_limits x" by (simp add: remember_def f)
  show "px_inv (remember key x)"
  proof (cases "key \<in> px_recent_keys x")
    case False
    then have order': "order' = drop (length (px_recent_order x @ [key]) - xl_max_recent_keys (px_limits x))
        (px_recent_order x @ [key])" "keys' = set order'"
      using assms forget_spec [OF _ _ f] by (auto simp: px_inv_def)
    have "distinct order'" "length order' \<le> xl_max_recent_keys (px_limits x)"
      using False assms by (auto simp: px_inv_def order' simp del: drop_append intro: distinct_drop)
    with False assms f order'(2) show ?thesis by (simp add: px_inv_def remember_def)
  qed (use assms in \<open>simp add: remember_def\<close>)
qed

section \<open>What the runner accepts\<close>

text \<open>
  What a result must look like to be committed: the declared metrics, each once, with their
  versions, for the entity and the generation of the task, with the provenance of the processor.
\<close>

definition conforming :: "processor_task \<Rightarrow> observation list \<Rightarrow> bool" where
  "conforming t outs \<longleftrightarrow>
     mset (map (\<lambda>out. (obs_metric out, obs_metric_semantic_version out)) outs) =
     mset (map (\<lambda>d. (pm_metric d, pm_semantic_version d)) (mp_outputs (tk_processor t))) \<and>
     (\<forall>out \<in> set outs. obs_entity out = pc_entity (tk_context t) \<and>
        obs_catalog_generation out = pc_catalog_generation (tk_context t) \<and>
        dv_processor_id (obs_derivation out) = mp_id (tk_processor t) \<and>
        dv_processor_version (obs_derivation out) = mp_version (tk_processor t) \<and>
        dv_depth (obs_derivation out) = pc_derivation_depth (tk_context t) \<and>
        validateObservation out = SUCCESS)"

abbreviation declared :: "processor_metric list \<Rightarrow> (metric_id \<times> u32) list" where
  "declared ds \<equiv> map (\<lambda>d. (pm_metric d, pm_semantic_version d)) ds"

abbreviation observed :: "observation list \<Rightarrow> (metric_id \<times> u32) list" where
  "observed outs \<equiv> map (\<lambda>out. (obs_metric out, obs_metric_semantic_version out)) outs"

lemma fold_emplace_versions:
  "omap_ok m \<Longrightarrow>
   map_of (fold (\<lambda>out m. omap_emplace (pm_metric out) (pm_semantic_version out) m) ds m) k =
   (case map_of m k of Some v \<Rightarrow> Some v | None \<Rightarrow> map_of (declared ds) k)"
  by (induction ds arbitrary: m) (auto simp: map_of_omap_emplace split: option.splits)

lemma map_of_expected_versions: "map_of (expected_versions ds) = map_of (declared ds)"
  by (rule ext) (simp add: expected_versions_def fold_emplace_versions)

lemma outputs_conformD:
  "outputs_conform t expected seen outs \<Longrightarrow>
   distinct (map obs_metric outs) \<and> (\<forall>out \<in> set outs.
     obs_metric out \<notin> seen \<and> map_of expected (obs_metric out) = Some (obs_metric_semantic_version out) \<and>
     obs_entity out = pc_entity (tk_context t) \<and>
     obs_catalog_generation out = pc_catalog_generation (tk_context t) \<and>
     dv_processor_id (obs_derivation out) = mp_id (tk_processor t) \<and>
     dv_processor_version (obs_derivation out) = mp_version (tk_processor t) \<and>
     dv_depth (obs_derivation out) = pc_derivation_depth (tk_context t) \<and>
     validateObservation out = SUCCESS)"
proof (induction outs arbitrary: seen)
  case (Cons out outs)
  then have "outputs_conform t expected (insert (obs_metric out) seen) outs"
    by (auto split: if_splits)
  from Cons.IH [OF this] Cons.prems show ?case by (auto simp: ok_def split: option.splits if_splits)
qed simp

text \<open>As many distinct elements of a list as it is long are the list, in another order.\<close>

lemma distinct_sublist_mset:
  assumes "distinct xs" "set xs \<subseteq> set ys" "length xs = length ys"
  shows "mset xs = mset ys"
proof -
  have "length ys \<le> card (set ys)"
    using card_mono [OF _ assms(2)] distinct_card [OF assms(1)] assms(3) by simp
  then have "distinct ys" by (intro card_distinct) (metis card_length le_antisym)
  moreover have "set xs = set ys"
    by (rule card_subset_eq [OF _ assms(2)]) (use assms distinct_card calculation in \<open>auto simp: distinct_card\<close>)
  ultimately show ?thesis using assms(1) by (simp add: set_eq_iff_mset_eq_distinct)
qed

lemma run_evaluate_conforming:
  assumes "run_evaluate t = Inr outs"
  shows "conforming t outs" and "outs = pe_outputs (mp_evaluate (tk_processor t) (tk_context t) (tk_snapshot t))"
proof -
  let ?ds = "mp_outputs (tk_processor t)"
  have c: "outputs_conform t (expected_versions ?ds) {} outs" and len: "length outs = length ?ds"
    using assms by (auto simp: run_evaluate_def Let_def split: if_splits)
  note f = outputs_conformD [OF c]
  show "outs = pe_outputs (mp_evaluate (tk_processor t) (tk_context t) (tk_snapshot t))"
    using assms by (auto simp: run_evaluate_def Let_def split: if_splits)
  have "distinct (map fst (observed outs))" using f by (simp add: comp_def)
  then have "distinct (observed outs)" by (simp only: distinct_map)
  moreover have "set (observed outs) \<subseteq> set (declared ?ds)"
  proof
    fix v assume "v \<in> set (observed outs)"
    then have "map_of (declared ?ds) (fst v) = Some (snd v)" using f by (auto simp: map_of_expected_versions)
    then show "v \<in> set (declared ?ds)" using map_of_SomeD by fastforce
  qed
  ultimately have "mset (observed outs) = mset (declared ?ds)"
    by (rule distinct_sublist_mset) (simp add: len)
  then show "conforming t outs" using f by (auto simp: conforming_def)
qed

lemma commit_readable:
  assumes "DataManager_commit outs m = (r, m')" "readableProcessorStatus (dcr_status r)"
  shows "outs \<noteq> [] \<and> (\<forall>out \<in> set outs. obs_catalog_generation out = cst_generation (dm_catalog m))"
proof -
  have "outs \<noteq> [] \<and> validateBatch (dm_limits m) (dm_catalog m) {} outs = SUCCESS"
    using assms validateBatch_status [of "dm_limits m" "dm_catalog m" "{}" outs]
    by (auto simp: DataManager_commit_def Let_def readableProcessorStatus_def ok_def split: if_splits)
  then show ?thesis using validateBatch_SUCCESS by (auto simp: batch_item_ok_def)
qed

section \<open>The invariant of the system\<close>

primrec runner_ok :: "processor_executor_limits \<Rightarrow> runner \<Rightarrow> bool" where
  "runner_ok l Resting = True"
| "runner_ok l (Took t) = task_ok l t"
| "runner_ok l (Produced t outs) = (task_ok l t \<and> run_evaluate t = Inr outs)"
| "runner_ok l (Committing t outs) = (task_ok l t \<and> run_evaluate t = Inr outs)"
| "runner_ok l (Finishing t) = task_ok l t"

definition commit_ok :: "processor_task \<times> observation list \<times> u64 \<Rightarrow> bool" where
  "commit_ok c \<longleftrightarrow>
    (case c of (t, outs, g) \<Rightarrow>
       run_evaluate t = Inr outs \<and> outs \<noteq> [] \<and> g = pc_catalog_generation (tk_context t))"

definition xs_inv :: "processor_executor_limits \<Rightarrow> executor_system \<Rightarrow> bool" where
  "xs_inv l s \<longleftrightarrow> px_inv (xs_executor s) \<and> px_limits (xs_executor s) = l \<and> runner_ok l (xs_runner s) \<and>
     list_all commit_ok (xs_commits s)"

lemma px_limits_schedule: "px_limits (snd (schedule p c items x)) = px_limits x"
  by (cases rule: schedule_elim [of p c items x]) simp_all

lemma commit_ok_new:
  assumes "run_evaluate t = Inr outs" "DataManager_commit outs m = (r, m')" "readableProcessorStatus (dcr_status r)"
  shows "commit_ok (t, outs, cst_generation (dm_catalog m))"
proof -
  obtain out where "out \<in> set outs" "obs_catalog_generation out = cst_generation (dm_catalog m)"
    using commit_readable [OF assms(2,3)] by (cases outs) auto
  then show ?thesis
    using run_evaluate_conforming(1) [OF assms(1)] assms(1) commit_readable [OF assms(2,3)]
    by (auto simp: commit_ok_def conforming_def)
qed

lemma xs_inv_step:
  assumes "px_step s s'" "xs_inv l s" shows "xs_inv l s'"
  using assms
proof cases
  case taken
  then show ?thesis using px_inv_take [of "xs_executor s"] assms(2) by (auto simp: xs_inv_def)
qed (use assms(2) in \<open>auto simp: xs_inv_def px_inv_schedule px_limits_schedule px_inv_remember commit_ok_new\<close>)

lemma xs_inv_start: "xs_inv l (executor_system_start m l)"
  by (simp add: xs_inv_def executor_system_start_def px_inv_def processor_executor_start_def)

lemma xs_reachable_inv:
  assumes "xs_reachable m l s" shows "xs_inv l s"
proof -
  have "px_step\<^sup>*\<^sup>* (executor_system_start m l) s" using assms by (simp add: xs_reachable_def)
  then show ?thesis by induction (auto intro: xs_inv_step xs_inv_start)
qed

section \<open>Running alone\<close>

text \<open>A call of \<open>runNext\<close> by a caller that runs alone is a run of the system.\<close>

lemma px_steps_Cons: "px_step s u \<Longrightarrow> px_step\<^sup>*\<^sup>* u v \<Longrightarrow> px_step\<^sup>*\<^sup>* s v"
  by (rule converse_rtranclp_into_rtranclp)

lemma runNext_steps:
  assumes "xs_runner s = Resting" "runNext (xs_data s) (xs_executor s) = (r, m, x)"
  shows "\<exists>s'. px_step\<^sup>*\<^sup>* s s' \<and> xs_data s' = m \<and> xs_executor s' = x \<and> xs_runner s' = Resting"
proof (cases "run_take (xs_executor s)")
  case None
  then show ?thesis using assms by (auto simp: runNext_def)
next
  case (Some tx)
  then obtain t x1 where take: "run_take (xs_executor s) = Some (t, x1)" by (cases tx) auto
  let ?s1 = "s\<lparr>xs_executor := x1, xs_runner := Took t\<rparr>"
  have s1: "px_step s ?s1" by (rule taken [OF assms(1) take])
  have finish: "\<exists>s'. px_step\<^sup>*\<^sup>* s s' \<and> xs_data s' = xs_data u \<and> xs_executor s' = remember (tk_dedup_key t) x1 \<and>
      xs_runner s' = Resting"
    if "px_step\<^sup>*\<^sup>* ?s1 u" "xs_runner u = Finishing t" "xs_executor u = x1" for u
  proof -
    have "px_step\<^sup>*\<^sup>* s u" using s1 that(1) by (rule converse_rtranclp_into_rtranclp)
    from rtranclp.rtrancl_into_rtrancl [OF this finished [OF that(2)]] show ?thesis using that(3) by fastforce
  qed
  show ?thesis
  proof (cases "run_stale t (xs_data s)")
    case True
    then have "px_step\<^sup>*\<^sup>* ?s1 (?s1\<lparr>xs_runner := Finishing t\<rparr>)"
      by (intro r_into_rtranclp stale) simp_all
    from finish [OF this] show ?thesis
      using True assms(2) by (simp add: runNext_def take Let_def)
  next
    case fresh: False
    show ?thesis
    proof (cases "run_evaluate t")
      case (Inl st)
      then have "px_step\<^sup>*\<^sup>* ?s1 (?s1\<lparr>xs_runner := Finishing t\<rparr>)"
      using fresh by (intro r_into_rtranclp refused) simp_all
    from finish [OF this] show ?thesis
        using fresh Inl assms(2) by (simp add: runNext_def take Let_def)
    next
      case (Inr outs)
      obtain c m' where commit: "DataManager_commit outs (xs_data s) = (c, m')" by fastforce
      let ?s2 = "?s1\<lparr>xs_runner := Produced t outs\<rparr>" and ?s3 = "?s1\<lparr>xs_runner := Committing t outs\<rparr>"
      have a: "px_step ?s1 ?s2" using fresh Inr by (intro evaluated) simp_all
      have b: "px_step ?s2 ?s3" using fresh checked [of ?s2 t outs] by simp
      obtain u where u: "px_step ?s3 u" "xs_data u = m'" "xs_runner u = Finishing t" "xs_executor u = x1"
        using committed [of ?s3 t outs c m'] commit by fastforce
      have "px_step\<^sup>*\<^sup>* ?s1 u" by (rule px_steps_Cons [OF a px_steps_Cons [OF b px_steps_Cons [OF u(1)]]]) simp
      then show ?thesis using finish [of u] u fresh Inr commit assms(2) by (auto simp: runNext_def take Let_def)
    qed
  qed
qed

section \<open>What a key identifies\<close>

lemma split_last:
  "c \<notin> set xs \<Longrightarrow> c \<notin> set ys \<Longrightarrow> a @ c # xs = b @ c # ys \<longleftrightarrow> a = b \<and> xs = ys"
  by (auto simp: append_eq_append_conv2 Cons_eq_append_conv append_eq_Cons_conv)

lemma digit_char: "n < 10 \<Longrightarrow> of_char (char_of (48 + n) :: char) = 48 + (n::nat)"
  by (simp add: of_char_of)

lemma to_string_digits: "c \<in> set (to_string n) \<Longrightarrow> 48 \<le> (of_char c :: nat) \<and> (of_char c :: nat) \<le> 57"
proof (induction n rule: to_string.induct)
  case (1 n)
  then show ?case by (subst (asm) (2) to_string.simps) (auto split: if_splits)
qed

lemma to_string_nonempty [simp]: "to_string n \<noteq> []" "[] \<noteq> to_string n"
  by (subst to_string.simps; simp)+

lemma to_string_inject [simp]: "to_string a = to_string b \<longleftrightarrow> a = b"
proof
  show "to_string a = to_string b \<Longrightarrow> a = b"
  proof (induction a arbitrary: b rule: to_string.induct)
    case (1 a)
    have char: "char_of (48 + m) = (char_of (48 + n) :: char) \<longleftrightarrow> m = n" if "m < 10" "n < 10" for m n :: nat
      using digit_char [OF that(1)] digit_char [OF that(2)] by (metis add_left_cancel)
    show ?case
    proof (cases "a < 10 \<or> b < 10")
      case True
      with "1.prems" show ?thesis
        by (subst (asm) (1 2) to_string.simps) (auto simp: char split: if_splits)
    next
      case False
      then have "to_string (a div 10) = to_string (b div 10)" "a mod 10 = b mod 10"
        using "1.prems" by (subst (asm) (1 2) to_string.simps, simp add: char)+
      with "1.IH" False have "a div 10 = b div 10" by simp
      with \<open>a mod 10 = b mod 10\<close> show ?thesis by (metis div_mult_mod_eq)
    qed
  qed
qed simp

lemma separators [simp]: "CHR '':'' \<notin> set (to_string n)" "CHR ''@'' \<notin> set (to_string n)"
  using to_string_digits [of "CHR '':''" n] to_string_digits [of "CHR ''@''" n] by auto

definition key_input :: "metric_id \<times> u64 \<Rightarrow> string" where
  "key_input i = to_string (unat (fst i)) @ CHR ''@'' # to_string (unat (snd i))"

lemma key_input_inject: "key_input i = key_input j \<longleftrightarrow> i = j"
  by (cases i; cases j) (simp add: key_input_def split_last word_unat_eq_iff)

lemma key_input_separators: "CHR '':'' \<notin> set (key_input i)" "CHR ''@'' \<in> set (key_input i)"
  by (simp_all add: key_input_def)

text \<open>Fields with the character of the inputs never meet the last field of the head.\<close>

lemma key_fields:
  assumes "CHR '':'' \<notin> set f" "CHR '':'' \<notin> set f'" "CHR ''@'' \<notin> set f" "CHR ''@'' \<notin> set f'"
  shows "a @ CHR '':'' # f @ concat (map (\<lambda>i. CHR '':'' # key_input i) is) =
         b @ CHR '':'' # f' @ concat (map (\<lambda>i. CHR '':'' # key_input i) js) \<longleftrightarrow> a = b \<and> f = f' \<and> is = js"
proof
  assume "a @ CHR '':'' # f @ concat (map (\<lambda>i. CHR '':'' # key_input i) is) =
    b @ CHR '':'' # f' @ concat (map (\<lambda>i. CHR '':'' # key_input i) js)"
  then show "a = b \<and> f = f' \<and> is = js"
  proof (induction "is" arbitrary: js rule: rev_induct)
    case Nil
    then show ?case
    proof (cases js rule: rev_exhaust)
      case (snoc ks k)
      with Nil have "f = key_input k"
        using split_last [OF assms(1) key_input_separators(1) [of k],
          of a "b @ CHR '':'' # f' @ concat (map (\<lambda>i. CHR '':'' # key_input i) ks)"] by simp
      then show ?thesis using assms(3) key_input_separators(2) by metis
    qed (use Nil split_last [OF assms(1,2)] in simp)
  next
    case (snoc i "is")
    let ?l = "a @ CHR '':'' # f @ concat (map (\<lambda>i. CHR '':'' # key_input i) is)"
    show ?case
    proof (cases js rule: rev_exhaust)
      case Nil
      with snoc.prems have "key_input i = f'"
        using split_last [OF key_input_separators(1) [of i] assms(2), of ?l b] by simp
      then show ?thesis using assms(4) key_input_separators(2) by metis
    next
      case (snoc ks k)
      have "?l = b @ CHR '':'' # f' @ concat (map (\<lambda>i. CHR '':'' # key_input i) ks) \<and> i = k"
        using split_last [OF key_input_separators(1) [of i] key_input_separators(1) [of k], of ?l
          "b @ CHR '':'' # f' @ concat (map (\<lambda>i. CHR '':'' # key_input i) ks)"] snoc.prems snoc
        by (simp add: key_input_inject)
      with snoc.IH [of ks] show ?thesis using snoc by simp
    qed
  qed
qed simp

lemma sort_eq_iff_mset: "sort xs = sort ys \<longleftrightarrow> mset xs = mset ys"
proof
  assume "sort xs = sort ys"
  then have "mset (sort xs) = mset (sort ys)" by simp
  then show "mset xs = mset ys" by simp
qed (rule properties_for_sort, simp_all)

section \<open>Properties\<close>

text \<open>
  C6: Whatever other threads schedule, commit or activate while a task is evaluated, the
  executor commits only results that conform: the declared outputs, each once and with its
  version, for the entity of the task, with the provenance of the processor, valid, and under
  the catalog generation that the task was scheduled for and that the store has at the commit.
\<close>

theorem executor_commits_conform:
  assumes "xs_reachable m l s" and "(t, outs, g) \<in> set (xs_commits s)"
  shows "outs \<noteq> [] \<and> conforming t outs \<and> g = pc_catalog_generation (tk_context t) \<and>
    outs = pe_outputs (mp_evaluate (tk_processor t) (tk_context t) (tk_snapshot t))"
proof -
  have "commit_ok (t, outs, g)"
    using xs_reachable_inv [OF assms(1)] assms(2) by (auto simp: xs_inv_def list_all_iff)
  then show ?thesis using run_evaluate_conforming by (simp add: commit_ok_def)
qed

text \<open>
  In every state that the executor reaches, the queue respects the limits on tasks and
  bytes, the byte count is the sum over the queue, no two queued tasks have the same key, and
  at most the configured number of keys is remembered.
\<close>

theorem executor_bounded:
  assumes "xs_reachable m l s"
  shows "let x = xs_executor s in
    queuedTasks x \<le> xl_max_queued_tasks l \<and> queuedBytes x = sum_list (map tk_bytes (px_queue x)) \<and>
    queuedBytes x \<le> xl_max_queue_bytes l \<and> distinct (map tk_dedup_key (px_queue x)) \<and>
    card (px_recent_keys x) \<le> xl_max_recent_keys l"
  using xs_reachable_inv [OF assms] distinct_card [of "px_recent_order (xs_executor s)"]
  by (auto simp: xs_inv_def px_inv_def queuedTasks_def queuedBytes_def Let_def)

text \<open>
  The deduplication key identifies the work exactly: two tasks have the same key if and
  only if they are for the same processor, the same entity reference, the same catalog
  generation and the same collection of input metrics and commit epochs, in any order. No
  character of a processor identifier can make two different tasks collide.
\<close>

theorem dedup_key_exact:
  "dedupKey p c items = dedupKey p' c' items' \<longleftrightarrow>
     mp_id p = mp_id p' \<and> pc_entity c = pc_entity c' \<and> pc_catalog_generation c = pc_catalog_generation c' \<and>
     mset (map (\<lambda>i. (obs_metric i, obs_commit_epoch i)) items) =
     mset (map (\<lambda>i. (obs_metric i, obs_commit_epoch i)) items')"
proof -
  let ?in = "\<lambda>items. map (\<lambda>i. (obs_metric i, obs_commit_epoch i)) items"
  have key: "dedupKey p c items =
      (((mp_id p @ CHR '':'' # to_string (entity_kind_num (er_kind (pc_entity c)))) @
        CHR '':'' # to_string (unat (er_id (pc_entity c)))) @
        CHR '':'' # to_string (unat (er_generation (pc_entity c)))) @
      CHR '':'' # to_string (unat (pc_catalog_generation c)) @
      concat (map (\<lambda>i. CHR '':'' # key_input i) (sort (?in items)))" for p c items
    by (simp add: dedupKey_def key_input_def split_def)
  have same: "sort (?in items) = sort (?in items') \<longleftrightarrow> mset (?in items) = mset (?in items')"
    by (rule sort_eq_iff_mset)
  show ?thesis
    unfolding key key_fields [OF separators(1) separators(1) separators(2) separators(2)]
      split_last [OF separators(1) separators(1)] same
    by (cases "pc_entity c"; cases "pc_entity c'") (simp add: word_unat_eq_iff)
qed

text \<open>
  C34: Deduplication has a gap while a task is evaluated. A task that is queued is refused as
  a duplicate, but from the moment the runner has taken it until its key is remembered the
  key is in neither set, so the same work is queued a second time.
\<close>

theorem running_task_queued_again:
  assumes "xs_reachable m l s" and take: "run_take (xs_executor s) = Some (t, x)"
    and "tk_dedup_key t \<notin> px_recent_keys x"
  shows "fst (schedule (Some (tk_processor t)) (tk_context t) (tk_snapshot t) (xs_executor s)) = (SUCCESS, False) \<and>
    fst (schedule (Some (tk_processor t)) (tk_context t) (tk_snapshot t) x) = (SUCCESS, True)"
proof -
  let ?x = "xs_executor s"
  have inv: "px_inv ?x" "px_limits ?x = l" using xs_reachable_inv [OF assms(1)] by (simp_all add: xs_inv_def)
  note x = px_inv_take [OF inv(1) take]
  obtain queue where q: "px_queue ?x = t # queue" and keys: "px_queue x = queue"
    using take by (auto simp: run_take_def split: list.splits)
  have t: "task_ok l (new_task (tk_processor t) (tk_context t) (tk_snapshot t))"
    "tk_dedup_key t = dedupKey (tk_processor t) (tk_context t) (tk_snapshot t)"
    "tk_bytes t = taskBytes (tk_processor t) (tk_snapshot t)"
    using x inv(2) task_ok_new [of l t] by (auto simp: task_ok_def Let_def)
  have "tk_dedup_key t \<in> px_queued_keys ?x" "tk_dedup_key t \<notin> px_queued_keys x"
    "tk_bytes t + px_queued_bytes x \<le> xl_max_queue_bytes l" "length (px_queue x) < xl_max_queued_tasks l"
    using inv q x keys by (auto simp: px_inv_def)
  moreover have "px_queued_bytes ?x \<le> xl_max_queue_bytes l" "px_queued_bytes x \<le> xl_max_queue_bytes l"
    using inv x by (auto simp: px_inv_def)
  ultimately show ?thesis
    using schedule_valid [of ?x] schedule_valid [of x] t inv(2) x assms(3) by simp
qed

text \<open>The witnesses: one processor, one task, and the run that commits its result.\<close>

definition executor_limits :: processor_executor_limits where
  "executor_limits = \<lparr>xl_max_queued_tasks = 1, xl_max_queue_bytes = 1000, xl_max_recent_keys = 1\<rparr>"

definition derived_output :: observation where
  "derived_output = (witness_obs 5)\<lparr>obs_derivation :=
     \<lparr>dv_processor_id = ''p'', dv_input_sequences = [1], dv_processor_version = 1, dv_depth = 1\<rparr>\<rparr>"

definition witness_task :: processor_task where
  "witness_task = new_task ((witness_processor ''p'' 3 7)
       \<lparr>mp_evaluate := (\<lambda>c items. \<lparr>pe_status = SUCCESS, pe_outputs = [derived_output]\<rparr>)\<rparr>)
     \<lparr>pc_entity = EntityRef EK_Device 0 1, pc_catalog_generation = 1, pc_evaluated_monotonic_time_ns = 5,
      pc_derivation_depth = 1\<rparr>
     [(witness_obs 1)\<lparr>obs_metric := 3, obs_commit_epoch := 1\<rparr>]"

text \<open>The system after one task was scheduled.\<close>

definition queued_system :: "data_manager \<Rightarrow> processor_executor_limits \<Rightarrow> processor_task \<Rightarrow> executor_system" where
  "queued_system m l t = (executor_system_start m l)\<lparr>xs_executor := enqueued t (processor_executor_start l)\<rparr>"

lemma queued_system_reachable:
  assumes "ok (ProcessorExecutorLimits_validate l)" "task_ok l t"
  shows "xs_reachable m l (queued_system m l t)"
proof -
  let ?start = "processor_executor_start l"
  have "snd (schedule (Some (tk_processor t)) (tk_context t) (tk_snapshot t) ?start) = enqueued t ?start"
    using schedule_valid [of ?start "tk_processor t" "tk_context t" "tk_snapshot t"] assms task_ok_new [OF assms(2)]
    by (auto simp: processor_executor_start_def task_ok_def Let_def ok_def ProcessorExecutorLimits_validate_def
        split: if_splits)
  then have "px_step (executor_system_start m l) (queued_system m l t)"
    using scheduled [of "executor_system_start m l"]
    by (metis queued_system_def executor_system.select_convs(2) executor_system_start_def)
  then show ?thesis using assms(1) by (simp add: xs_reachable_def r_into_rtranclp)
qed

abbreviation witness_queued :: executor_system where
  "witness_queued \<equiv> queued_system (witness_data []) executor_limits witness_task"

lemma executor_limits_ok: "ok (ProcessorExecutorLimits_validate executor_limits)"
  by (simp add: ok_def executor_limits_def ProcessorExecutorLimits_validate_def)

lemma witness_task_ok: "task_ok executor_limits witness_task"
  unfolding witness_task_def task_ok_new_iff by code_simp

lemmas witness_queued_reachable = queued_system_reachable [OF executor_limits_ok witness_task_ok, of "witness_data []"]

lemma witness_take:
  "run_take (xs_executor witness_queued) = Some (witness_task, processor_executor_start executor_limits)"
  by (simp add: run_take_def queued_system_def processor_executor_start_def)

lemma witness_evaluate: "run_evaluate witness_task = Inr [derived_output]"
  by code_simp

lemma witness_derived_commit: "dcr_status (fst (DataManager_commit [derived_output] (witness_data []))) = SUCCESS"
  by code_simp

lemma witness_committed:
  obtains s where "xs_reachable (witness_data []) executor_limits s"
    "xs_commits s = [(witness_task, [derived_output], 1)]"
proof -
  let ?q = witness_queued and ?x = "processor_executor_start executor_limits" and ?t = witness_task
  let ?s1 = "?q\<lparr>xs_executor := ?x, xs_runner := Took ?t\<rparr>"
  let ?s2 = "?s1\<lparr>xs_runner := Produced ?t [derived_output]\<rparr>"
  let ?s3 = "?s1\<lparr>xs_runner := Committing ?t [derived_output]\<rparr>"
  have fresh: "xs_data ?q = witness_data []" "xs_commits ?q = []" "xs_runner ?q = Resting"
    "\<not> run_stale ?t (witness_data [])" "cst_generation (dm_catalog (witness_data [])) = 1"
    by (simp_all add: queued_system_def executor_system_start_def run_stale_def witness_task_def witness_data_def
        witness_base_def)
  have "px_step ?q ?s1" by (rule taken [OF fresh(3) witness_take])
  moreover have "px_step ?s1 ?s2" using witness_evaluate fresh by (intro evaluated) simp_all
  moreover have "px_step ?s2 ?s3" using checked [of ?s2 ?t "[derived_output]"] fresh by simp
  moreover obtain r m where r: "DataManager_commit [derived_output] (witness_data []) = (r, m)" "dcr_status r = SUCCESS"
    using witness_derived_commit by (metis prod.collapse)
  moreover have "\<exists>s. px_step ?s3 s \<and> xs_commits s = [(?t, [derived_output], 1)]"
    using committed [of ?s3 ?t "[derived_output]" r m] r fresh by (fastforce simp: readableProcessorStatus_def ok_def)
  ultimately obtain s where "px_step\<^sup>*\<^sup>* ?q s" "xs_commits s = [(?t, [derived_output], 1)]"
    by (meson px_steps_Cons rtranclp.rtrancl_refl)
  then show ?thesis using that witness_queued_reachable by (auto simp: xs_reachable_def intro: rtranclp_trans)
qed

theorem executor_commits_conform_witness:
  "\<exists>s. xs_reachable (witness_data []) executor_limits s \<and>
     (witness_task, [derived_output], 1) \<in> set (xs_commits s) \<and> conforming witness_task [derived_output]"
proof -
  obtain s where "xs_reachable (witness_data []) executor_limits s"
    "xs_commits s = [(witness_task, [derived_output], 1)]"
    by (rule witness_committed)
  with executor_commits_conform [of "witness_data []" executor_limits s witness_task "[derived_output]" 1]
  show ?thesis by auto
qed

theorem running_task_queued_again_witness:
  "xs_reachable (witness_data []) executor_limits witness_queued \<and>
   fst (schedule (Some (tk_processor witness_task)) (tk_context witness_task) (tk_snapshot witness_task)
     (processor_executor_start executor_limits)) = (SUCCESS, True)"
  using running_task_queued_again [OF witness_queued_reachable witness_take] witness_queued_reachable
  by (simp add: processor_executor_start_def)

end
