(* ===== verification/Doubles.thy ===== *)
theory Doubles
  imports Prelude "HOL-Library.Log_Nat"
begin

text \<open>
  The arithmetic of \<open>double\<close> that the sources use: conversion of an integer, product and
  quotient of nonnegative values, in IEEE 754 binary64 with rounding to nearest, ties to even
  (the C++ default; every operation is rounded to \<open>double\<close>). A finite \<open>double\<close> is modelled by its
  value, a rational. \<open>double_round\<close> rounds to 53 significant bits with an unbounded exponent:
  \<open>counter_rate_in_range\<close> in \<open>Counter_Processor\<close> shows that the values computed there are far
  from overflow and underflow.
\<close>

definition round_half_even :: "rat \<Rightarrow> int" where
  "round_half_even x =
    (let f = \<lfloor>x\<rfloor>; r = x - of_int f
     in if r < 1 / 2 then f else if r > 1 / 2 then f + 1 else if even f then f else f + 1)"

text \<open>The exponent of the last place: \<open>x\<close> is between \<open>2 ^ 52\<close> and \<open>2 ^ 53\<close> units of it.\<close>

definition double_exponent :: "rat \<Rightarrow> int" where
  "double_exponent x =
    (let (p, q) = quotient_of x; d = bitlen p - bitlen q
     in if x \<ge> 2 powi d then d - 52 else d - 53)"

definition double_round :: "rat \<Rightarrow> rat" where
  "double_round x =
    (if x = 0 then 0
     else of_int (round_half_even (x / 2 powi double_exponent x)) * 2 powi double_exponent x)"

definition double_of_int :: "int \<Rightarrow> rat" where
  "double_of_int i = double_round (of_int i)"

definition double_mult :: "rat \<Rightarrow> rat \<Rightarrow> rat" where
  "double_mult x y = double_round (x * y)"

definition double_divide :: "rat \<Rightarrow> rat \<Rightarrow> rat" where
  "double_divide x y = double_round (x / y)"

section \<open>Rounding is to the nearest double\<close>

definition is_double :: "rat \<Rightarrow> bool" where
  "is_double y \<longleftrightarrow> (\<exists>m e. 0 \<le> m \<and> m < 2 ^ 53 \<and> y = of_int m * 2 powi e)"

lemma round_half_even_cases:
  obtains (down) "round_half_even x = \<lfloor>x\<rfloor>" "x - of_int \<lfloor>x\<rfloor> \<le> 1 / 2"
  | (up) "round_half_even x = \<lfloor>x\<rfloor> + 1" "x - of_int \<lfloor>x\<rfloor> \<ge> 1 / 2"
  unfolding round_half_even_def Let_def by (meson linorder_not_le nle_le order.strict_implies_order)

lemma round_half_even_nearest: "\<bar>of_int (round_half_even x) - x\<bar> \<le> \<bar>of_int n - x\<bar>"
proof -
  have "n \<le> \<lfloor>x\<rfloor> \<or> \<lfloor>x\<rfloor> + 1 \<le> n" by linarith
  then have n: "(of_int n :: rat) \<le> of_int \<lfloor>x\<rfloor> \<or> of_int \<lfloor>x\<rfloor> + 1 \<le> (of_int n :: rat)"
    by (metis of_int_1 of_int_add of_int_le_iff)
  have x: "of_int \<lfloor>x\<rfloor> \<le> x" "x < of_int \<lfloor>x\<rfloor> + 1" by linarith+
  show ?thesis
  proof (cases rule: round_half_even_cases [of x])
    case down
    show ?thesis unfolding down(1) using down(2) n x by linarith
  next
    case up
    show ?thesis unfolding up(1) of_int_add of_int_1 using up(2) n x by linarith
  qed
qed

lemma round_half_even_error: "\<bar>of_int (round_half_even x) - x\<bar> \<le> 1 / 2"
proof -
  have x: "of_int \<lfloor>x\<rfloor> \<le> x" "x < of_int \<lfloor>x\<rfloor> + 1" by linarith+
  show ?thesis
  proof (cases rule: round_half_even_cases [of x])
    case down
    show ?thesis unfolding down(1) using down(2) x by linarith
  next
    case up
    show ?thesis unfolding up(1) of_int_add of_int_1 using up(2) x by linarith
  qed
qed

lemma round_half_even_between:
  assumes "of_int a \<le> x" "x \<le> of_int b"
  shows "a \<le> round_half_even x \<and> round_half_even x \<le> b"
proof -
  have "a \<le> \<lfloor>x\<rfloor>" using assms(1) by (simp add: le_floor_iff)
  moreover have "\<lfloor>x\<rfloor> + 1 \<le> b \<or> x - of_int \<lfloor>x\<rfloor> = 0"
    using assms(2) by linarith
  moreover have "\<lfloor>x\<rfloor> \<le> b" using assms(2) by linarith
  ultimately show ?thesis by (auto simp: round_half_even_def Let_def)
qed

lemma bitlen_powi:
  assumes "0 < p"
  shows "2 powi (bitlen p - 1) \<le> (of_int p :: rat)" "(of_int p :: rat) < 2 powi bitlen p"
proof -
  have pos: "bitlen p > 0" using assms by (simp add: bitlen_def compute_floorlog)
  have "2 ^ nat (bitlen p - 1) \<le> p" "p < 2 ^ nat (bitlen p)" using bitlen_bounds [OF assms] by auto
  then have "(of_int (2 ^ nat (bitlen p - 1)) :: rat) \<le> of_int p" "(of_int p :: rat) < of_int (2 ^ nat (bitlen p))"
    by (simp_all only: of_int_le_iff of_int_less_iff)
  then show "2 powi (bitlen p - 1) \<le> (of_int p :: rat)" "(of_int p :: rat) < 2 powi bitlen p"
    using pos by (simp_all add: power_int_def)
qed

lemma double_exponent_bounds:
  assumes "0 < x"
  shows "2 ^ 52 * 2 powi double_exponent x \<le> x" "x < 2 ^ 53 * 2 powi double_exponent x"
proof -
  obtain p q where pq: "quotient_of x = (p, q)" by fastforce
  have x: "x = of_int p / of_int q" and q: "0 < q" using quotient_of_div [OF pq] quotient_of_denom_pos [OF pq] by auto
  have p: "0 < p" using assms x q by (simp add: zero_less_divide_iff)
  let ?d = "bitlen p - bitlen q"
  have "2 powi (bitlen p - 1) / 2 powi bitlen q \<le> x"
    unfolding x using bitlen_powi [OF p] bitlen_powi [OF q] p q by (intro frac_le) auto
  then have "2 powi (bitlen p - 1 - bitlen q) \<le> x" by (subst power_int_diff) simp_all
  then have low: "2 powi (?d - 1) \<le> x" by (simp add: algebra_simps)
  have "x < 2 powi bitlen p / 2 powi (bitlen q - 1)"
    unfolding x using bitlen_powi [OF p] bitlen_powi [OF q] p by (intro frac_less) auto
  then have "x < 2 powi (bitlen p - (bitlen q - 1))" by (subst power_int_diff) simp_all
  then have up: "x < 2 powi (?d + 1)" by (simp add: algebra_simps)
  have shift: "2 ^ 52 * 2 powi (d - 52) = (2 powi d :: rat)" "2 ^ 53 * 2 powi (d - 52) = (2 powi (d + 1) :: rat)"
    "2 ^ 52 * 2 powi (d - 53) = (2 powi (d - 1) :: rat)" "2 ^ 53 * 2 powi (d - 53) = (2 powi d :: rat)" for d
    by (simp_all add: power_int_diff power_int_add)
  show "2 ^ 52 * 2 powi double_exponent x \<le> x" "x < 2 ^ 53 * 2 powi double_exponent x"
  proof (atomize (full), cases "2 powi ?d \<le> x")
    case True
    then have "double_exponent x = ?d - 52" by (simp add: double_exponent_def pq)
    then show "2 ^ 52 * 2 powi double_exponent x \<le> x \<and> x < 2 ^ 53 * 2 powi double_exponent x"
      unfolding shift using True up by (simp only: shift simp_thms)
  next
    case False
    then have "double_exponent x = ?d - 53" by (simp add: double_exponent_def pq)
    then show "2 ^ 52 * 2 powi double_exponent x \<le> x \<and> x < 2 ^ 53 * 2 powi double_exponent x"
      using False low by (simp only: shift simp_thms not_le)
  qed
qed

lemma double_round_eq:
  assumes "0 < x"
  shows "double_round x = of_int (round_half_even (x / 2 powi double_exponent x)) * 2 powi double_exponent x"
  using assms by (simp add: double_round_def)

lemma double_round_mantissa:
  assumes "0 < x"
  shows "2 ^ 52 \<le> round_half_even (x / 2 powi double_exponent x)"
    and "round_half_even (x / 2 powi double_exponent x) \<le> 2 ^ 53"
  using round_half_even_between [of "2 ^ 52" "x / 2 powi double_exponent x" "2 ^ 53"] double_exponent_bounds [OF assms]
  by (simp_all add: field_simps)

lemma double_round_is_double:
  assumes "0 \<le> x"
  shows "is_double (double_round x)"
proof (cases "x = 0")
  case True
  then show ?thesis unfolding is_double_def double_round_def by (intro exI [of _ 0]) simp
next
  case False
  let ?e = "double_exponent x" and ?m = "round_half_even (x / 2 powi double_exponent x)"
  note m = double_round_mantissa [of x] and eq = double_round_eq [of x]
  show ?thesis
  proof (cases "?m = 2 ^ 53")
    case True
    have "(2 powi (?e + 1) :: rat) = 2 * 2 powi ?e" by (subst power_int_add) simp_all
    moreover have "double_round x = of_int (2 ^ 53) * 2 powi ?e"
      unfolding True [symmetric] using eq assms False by simp
    ultimately have "double_round x = of_int (2 ^ 52) * 2 powi (?e + 1)" by simp
    then have "0 \<le> (2 ^ 52 :: int) \<and> (2 ^ 52 :: int) < 2 ^ 53 \<and> double_round x = of_int (2 ^ 52) * 2 powi (?e + 1)"
      by simp
    then show ?thesis unfolding is_double_def by blast
  next
    case neq: False
    have "0 \<le> ?m \<and> ?m < 2 ^ 53 \<and> double_round x = of_int ?m * 2 powi ?e"
      using m eq neq assms False by simp
    then show ?thesis unfolding is_double_def by blast
  qed
qed

text \<open>No value of the format is nearer: below the binade of \<open>x\<close> its lower end is between.\<close>

lemma double_round_nearest:
  assumes "0 \<le> x" "is_double y"
  shows "\<bar>double_round x - x\<bar> \<le> \<bar>y - x\<bar>"
proof (cases "x = 0")
  case True
  then show ?thesis by (simp add: double_round_def)
next
  case False
  then have pos: "0 < x" using assms(1) by simp
  let ?e = "double_exponent x" and ?u = "2 powi double_exponent x :: rat"
  have u: "0 < ?u" by simp
  have multiple: "\<bar>double_round x - x\<bar> \<le> \<bar>of_int n * ?u - x\<bar>" for n
  proof -
    have "\<bar>double_round x - x\<bar> = \<bar>of_int (round_half_even (x / ?u)) - x / ?u\<bar> * ?u"
      using u by (simp add: double_round_eq [OF pos] abs_mult_pos' field_simps)
    also have "\<dots> \<le> \<bar>of_int n - x / ?u\<bar> * ?u" using round_half_even_nearest u by (simp add: mult_right_mono)
    also have "\<dots> = \<bar>of_int n * ?u - x\<bar>" using u by (simp add: abs_mult_pos' field_simps)
    finally show ?thesis .
  qed
  obtain m e where y: "0 \<le> m" "m < 2 ^ 53" "y = of_int m * 2 powi e" using assms(2) by (auto simp: is_double_def)
  show ?thesis
  proof (cases "?e \<le> e")
    case True
    have "2 powi e = (2 powi (e - ?e) * ?u :: rat)" by (subst power_int_diff) simp_all
    also have "2 powi (e - ?e) = (2 ^ nat (e - ?e) :: rat)" using True by (simp add: power_int_def)
    finally have "y = of_int (m * 2 ^ nat (e - ?e)) * ?u" by (simp add: y(3))
    then show ?thesis by (simp only: multiple)
  next
    case False
    have "y \<le> 2 ^ 53 * 2 powi e" unfolding y(3) using y(2) by (intro mult_right_mono) auto
    also have "\<dots> \<le> 2 ^ 53 * 2 powi (?e - 1)" using False by (intro mult_left_mono power_int_increasing) auto
    also have "\<dots> = of_int (2 ^ 52) * ?u" by (simp add: power_int_diff)
    finally have "y \<le> of_int (2 ^ 52) * ?u" .
    moreover have "of_int (2 ^ 52) * ?u \<le> x" using double_exponent_bounds(1) [OF pos] by simp
    ultimately show ?thesis using multiple [of "2 ^ 52"] by linarith
  qed
qed

lemma double_round_error:
  assumes "0 \<le> x"
  shows "\<bar>double_round x - x\<bar> \<le> x / 2 ^ 53"
proof (cases "x = 0")
  case True
  then show ?thesis by (simp add: double_round_def)
next
  case False
  then have pos: "0 < x" using assms(1) by simp
  let ?u = "2 powi double_exponent x :: rat"
  have u: "0 < ?u" by simp
  have "\<bar>double_round x - x\<bar> = \<bar>of_int (round_half_even (x / ?u)) - x / ?u\<bar> * ?u"
    using u by (simp add: double_round_eq [OF pos] abs_mult_pos' field_simps)
  also have "\<dots> \<le> 1 / 2 * ?u" using round_half_even_error u by (intro mult_right_mono) auto
  also have "\<dots> \<le> x / 2 ^ 53" using double_exponent_bounds(1) [OF pos] by simp
  finally show ?thesis .
qed

lemma double_round_exact:
  assumes "is_double x" "0 \<le> x"
  shows "double_round x = x"
  using double_round_nearest [OF assms(2,1)] by simp

end
