(* ===== verification/Counter_Processor.thy ===== *)
theory Counter_Processor
  imports Processor_Executor Doubles
begin

text \<open>
  \<open>src/product/src/metrics/counter_processor.*\<close>: the processor that derives the increment
  (and optionally the rate) of a cumulative counter from two samples. It implements the
  interface \<open>MetricProcessor\<close>; the locale \<open>processor_contract\<close> states what the executor
  expects of an implementation, and the counter processor is an instance of it.
\<close>

section \<open>Configuration\<close>

record counter_wrap_rule =
  wr_modulus :: u64
  wr_minimum_previous :: u64
  wr_maximum_current :: u64

definition CounterWrapRule_validate :: "counter_wrap_rule \<Rightarrow> pdcm_status" where
  "CounterWrapRule_validate w =
    (if wr_modulus w < 2 \<or> wr_minimum_previous w \<ge> wr_modulus w \<or> wr_maximum_current w \<ge> wr_modulus w \<or>
        wr_minimum_previous w \<le> wr_maximum_current w
     then INVALID_ARGUMENT else SUCCESS)"

record counter_processor_config =
  cc_processor_id :: string
  cc_processor_version :: u32
  cc_input :: processor_metric
  cc_delta_output :: processor_metric
  cc_rate_output :: "processor_metric option"
  cc_minimum_interval_ns :: i64
  cc_maximum_gap_ns :: i64
  cc_wrap :: "counter_wrap_rule option"

definition CounterProcessorConfig_validate :: "counter_processor_config \<Rightarrow> pdcm_status" where
  "CounterProcessorConfig_validate cfg =
    (if cc_processor_id cfg = [] \<or> cc_processor_version cfg = 0 \<or>
        pm_metric (cc_input cfg) = 0 \<or> pm_semantic_version (cc_input cfg) = 0 \<or>
        pm_metric (cc_delta_output cfg) = 0 \<or> pm_semantic_version (cc_delta_output cfg) = 0 \<or>
        pm_metric (cc_input cfg) = pm_metric (cc_delta_output cfg) \<or> cc_minimum_interval_ns cfg \<le> 0 \<or>
        cc_maximum_gap_ns cfg < cc_minimum_interval_ns cfg
     then INVALID_ARGUMENT
     else if (case cc_rate_output cfg of None \<Rightarrow> False
       | Some r \<Rightarrow> pm_metric r = 0 \<or> pm_semantic_version r = 0 \<or> pm_metric r = pm_metric (cc_input cfg) \<or>
           pm_metric r = pm_metric (cc_delta_output cfg))
     then INVALID_ARGUMENT
     else case cc_wrap cfg of None \<Rightarrow> SUCCESS | Some w \<Rightarrow> CounterWrapRule_validate w)"

section \<open>Evaluation\<close>

definition counter_outputs :: "counter_processor_config \<Rightarrow> processor_metric list" where
  "counter_outputs cfg =
     cc_delta_output cfg # (case cc_rate_output cfg of None \<Rightarrow> [] | Some r \<Rightarrow> [r])"

definition counter_unavailable ::
  "counter_processor_config \<Rightarrow> processor_context \<Rightarrow> observation option \<Rightarrow> string \<Rightarrow> processor_evaluation" where
  "counter_unavailable cfg c newest reason =
     \<lparr>pe_status = PARTIAL_RESULT,
      pe_outputs = map (\<lambda>out.
        default_observation\<lparr>obs_entity := pc_entity c, obs_metric := pm_metric out,
          obs_status := OS_NotAvailable, obs_metric_semantic_version := pm_semantic_version out,
          obs_scheduled_monotonic_time_ns :=
            (case newest of None \<Rightarrow> pc_evaluated_monotonic_time_ns c | Some n \<Rightarrow> obs_scheduled_monotonic_time_ns n),
          obs_observed_monotonic_time_ns := pc_evaluated_monotonic_time_ns c,
          obs_observed_wall_time_ns := (case newest of None \<Rightarrow> 0 | Some n \<Rightarrow> obs_observed_wall_time_ns n),
          obs_catalog_generation := pc_catalog_generation c,
          obs_counter_epoch := (case newest of None \<Rightarrow> 0 | Some n \<Rightarrow> obs_counter_epoch n),
          obs_source := \<lparr>src_provider = ''pdcm-processor'', src_native_source = cc_processor_id cfg\<rparr>,
          obs_error := default_error\<lparr>em_status := Status UNAVAILABLE reason\<rparr>,
          obs_derivation := \<lparr>dv_processor_id = cc_processor_id cfg,
            dv_input_sequences = [case newest of None \<Rightarrow> 1 | Some n \<Rightarrow> obs_commit_epoch n],
            dv_processor_version = cc_processor_version cfg, dv_depth = pc_derivation_depth c\<rparr>\<rparr>)
        (counter_outputs cfg)\<rparr>"

definition outputBase ::
  "counter_processor_config \<Rightarrow> processor_context \<Rightarrow> observation \<Rightarrow> observation \<Rightarrow> processor_metric \<Rightarrow>
   observation" where
  "outputBase cfg c oldest newest out =
     default_observation\<lparr>obs_entity := pc_entity c, obs_metric := pm_metric out,
       obs_scheduled_monotonic_time_ns := obs_scheduled_monotonic_time_ns newest,
       obs_source_sample_time_ns := obs_source_sample_time_ns newest,
       obs_observed_monotonic_time_ns := pc_evaluated_monotonic_time_ns c,
       obs_metric_semantic_version := pm_semantic_version out,
       obs_observed_wall_time_ns := obs_observed_wall_time_ns newest,
       obs_catalog_generation := pc_catalog_generation c, obs_counter_epoch := obs_counter_epoch newest,
       obs_source := \<lparr>src_provider = ''pdcm-processor'', src_native_source = cc_processor_id cfg\<rparr>,
       obs_derivation := \<lparr>dv_processor_id = cc_processor_id cfg,
         dv_input_sequences = [obs_commit_epoch oldest, obs_commit_epoch newest],
         dv_processor_version = cc_processor_version cfg, dv_depth = pc_derivation_depth c\<rparr>\<rparr>"

text \<open>\<open>std::holds_alternative<std::uint64_t>\<close> of an optional value.\<close>

fun counter_value :: "metric_value option \<Rightarrow> u64 option" where
  "counter_value (Some (V_uint64 v)) = Some v"
| "counter_value _ = None"

definition counter_delta :: "counter_wrap_rule option \<Rightarrow> u64 \<Rightarrow> u64 \<Rightarrow> u64 option" where
  "counter_delta wrap old_value new_value =
    (if new_value \<ge> old_value then Some (new_value - old_value)
     else case wrap of
       Some w \<Rightarrow>
        if old_value \<ge> wr_minimum_previous w \<and> old_value < wr_modulus w \<and> new_value \<le> wr_maximum_current w
        then Some ((wr_modulus w - old_value) + new_value) else None
     | None \<Rightarrow> None)"

text \<open>
  \<open>static_cast<double>(delta) * 1000000000.0 / static_cast<double>(interval)\<close>: four rounded
  operations; the literal is exact.
\<close>

definition counter_rate :: "int \<Rightarrow> int \<Rightarrow> rat" where
  "counter_rate delta interval =
     double_divide (double_mult (double_of_int delta) 1000000000) (double_of_int interval)"

text \<open>
  \<open>std::sort\<close> on the two samples: by time, then commit epoch. On a list this short the library
  sorts by insertion, which keeps the order of equal elements.
\<close>

definition counter_evaluate ::
  "counter_processor_config \<Rightarrow> processor_context \<Rightarrow> observation list \<Rightarrow> processor_evaluation" where
  "counter_evaluate cfg c items =
    (if er_kind (pc_entity c) \<noteq> EK_Device \<or> er_generation (pc_entity c) = 0 \<or> pc_catalog_generation c = 0 \<or>
        pc_evaluated_monotonic_time_ns c < 0 \<or> pc_derivation_depth c = 0 \<or> pc_derivation_depth c > 4 \<or>
        length items \<noteq> 2
     then counter_unavailable cfg c (if items = [] then None else Some (last items)) ''insufficient samples''
     else
      let samples = sort_key (\<lambda>o'. (obs_observed_monotonic_time_ns o', obs_commit_epoch o')) items;
          oldest = hd samples; newest = last samples; na = counter_unavailable cfg c (Some newest)
      in if obs_entity oldest \<noteq> pc_entity c \<or> obs_entity newest \<noteq> pc_entity c \<or>
            obs_catalog_generation oldest \<noteq> pc_catalog_generation c \<or>
            obs_catalog_generation newest \<noteq> pc_catalog_generation c \<or>
            obs_metric oldest \<noteq> pm_metric (cc_input cfg) \<or> obs_metric newest \<noteq> pm_metric (cc_input cfg) \<or>
            obs_metric_semantic_version oldest \<noteq> pm_semantic_version (cc_input cfg) \<or>
            obs_metric_semantic_version newest \<noteq> pm_semantic_version (cc_input cfg) \<or>
            obs_status oldest \<noteq> OS_Valid \<or> obs_status newest \<noteq> OS_Valid \<or>
            counter_value (obs_value oldest) = None \<or> counter_value (obs_value newest) = None
         then na ''counter samples are invalid or changed generation''
         else if obs_counter_epoch oldest \<noteq> obs_counter_epoch newest then na ''counter epoch changed''
         else if obs_observed_monotonic_time_ns newest \<le> obs_observed_monotonic_time_ns oldest \<or>
            pc_evaluated_monotonic_time_ns c < obs_observed_monotonic_time_ns newest
         then na ''counter sample time is invalid''
         else
          let interval = obs_observed_monotonic_time_ns newest - obs_observed_monotonic_time_ns oldest
          in if interval < cc_minimum_interval_ns cfg then na ''counter interval is too small''
             else if interval > cc_maximum_gap_ns cfg then na ''counter gap is too large''
             else
              case counter_delta (cc_wrap cfg) (the (counter_value (obs_value oldest)))
                     (the (counter_value (obs_value newest))) of
                None \<Rightarrow> na ''counter reset was detected''
              | Some delta \<Rightarrow>
                 \<lparr>pe_status = SUCCESS,
                  pe_outputs =
                    (outputBase cfg c oldest newest (cc_delta_output cfg))
                      \<lparr>obs_value := Some (V_uint64 delta), obs_status := OS_Valid\<rparr> #
                    (case cc_rate_output cfg of
                       None \<Rightarrow> []
                     | Some r \<Rightarrow>
                        [(outputBase cfg c oldest newest r)
                           \<lparr>obs_value := Some (V_double (counter_rate (uint delta) interval)),
                            obs_status := OS_Valid\<rparr>])\<rparr>)"

definition counter_processor :: "counter_processor_config \<Rightarrow> metric_processor" where
  "counter_processor cfg =
     \<lparr>mp_id = cc_processor_id cfg, mp_version = cc_processor_version cfg, mp_inputs = [cc_input cfg],
      mp_outputs = counter_outputs cfg, mp_evaluate = counter_evaluate cfg\<rparr>"

text \<open>The constructor throws on an invalid configuration.\<close>

definition CounterDeltaRateProcessor :: "counter_processor_config \<Rightarrow> metric_processor option" where
  "CounterDeltaRateProcessor cfg =
     (if \<not> ok (CounterProcessorConfig_validate cfg) then None else Some (counter_processor cfg))"

section \<open>The rounding of the rate\<close>

lemma double_round_upper: "0 \<le> x \<Longrightarrow> double_round x \<le> x * (1 + 1 / 2 ^ 53)"
  using double_round_error [of x] by (simp only: distrib_left mult_1_right times_divide_eq_right True_implies_equals)

lemma double_round_lower: "0 \<le> x \<Longrightarrow> x * (1 - 1 / 2 ^ 53) \<le> double_round x"
  using double_round_error [of x] by (simp only: right_diff_distrib mult_1_right times_divide_eq_right True_implies_equals)

lemma double_round_nonneg: "0 \<le> x \<Longrightarrow> 0 \<le> double_round x"
  by (rule order.trans [OF _ double_round_lower]) simp_all

text \<open>Every operation errs by at most one part in \<open>2 ^ 53\<close>; the four together by one in \<open>2 ^ 50\<close>.\<close>

lemma counter_rate_bounds:
  assumes "0 \<le> d" "0 < i"
  shows "of_int d * 1000000000 / of_int i * (1 - 1 / 2 ^ 50) \<le> counter_rate d i"
    and "counter_rate d i \<le> of_int d * 1000000000 / of_int i * (1 + 1 / 2 ^ 50)"
proof -
  let ?u = "1 / 2 ^ 53 :: rat" and ?d = "of_int d :: rat" and ?i = "of_int i :: rat"
  let ?p = "double_mult (double_of_int d) 1000000000" and ?q = "double_of_int i"
  have d: "0 \<le> ?d" and i: "0 < ?i" using assms by simp_all
  have a: "?d * (1 - ?u) \<le> double_of_int d" "double_of_int d \<le> ?d * (1 + ?u)"
    unfolding double_of_int_def using double_round_lower [OF d] double_round_upper [OF d] .
  have a0: "0 \<le> double_of_int d * 1000000000" using double_round_nonneg [OF d] by (simp add: double_of_int_def)
  have "?d * 1000000000 * (1 - ?u) * (1 - ?u) \<le> double_of_int d * 1000000000 * (1 - ?u)"
    by (rule mult_right_mono) (use a in simp_all)
  also have "\<dots> \<le> ?p" unfolding double_mult_def by (rule double_round_lower [OF a0])
  finally have p1: "?d * 1000000000 * (1 - ?u) * (1 - ?u) \<le> ?p" .
  have "?p \<le> double_of_int d * 1000000000 * (1 + ?u)" unfolding double_mult_def by (rule double_round_upper [OF a0])
  also have "\<dots> \<le> ?d * 1000000000 * (1 + ?u) * (1 + ?u)" by (rule mult_right_mono) (use a in simp_all)
  finally have p2: "?p \<le> ?d * 1000000000 * (1 + ?u) * (1 + ?u)" .
  have q: "?i * (1 - ?u) \<le> ?q" "?q \<le> ?i * (1 + ?u)"
    unfolding double_of_int_def using double_round_lower double_round_upper i by simp_all
  have q0: "0 < ?i * (1 - ?u)" using i by simp
  have p0: "0 \<le> ?p" unfolding double_mult_def by (rule double_round_nonneg [OF a0])
  have pq0: "0 \<le> ?p / ?q" using p0 q(1) q0 by simp
  have "?d * 1000000000 / ?i * (1 - 1 / 2 ^ 50) \<le> ?d * 1000000000 / ?i * ((1 - ?u) * (1 - ?u) / (1 + ?u) * (1 - ?u))"
    using d i by (intro mult_left_mono) simp_all
  also have "\<dots> = ?d * 1000000000 * (1 - ?u) * (1 - ?u) / (?i * (1 + ?u)) * (1 - ?u)" by simp
  also have "\<dots> \<le> ?p / ?q * (1 - ?u)"
    by (intro mult_right_mono frac_le) (use p1 p0 q q0 in simp_all)
  also have "\<dots> \<le> counter_rate d i"
    unfolding counter_rate_def double_divide_def by (rule double_round_lower [OF pq0])
  finally show "?d * 1000000000 / ?i * (1 - 1 / 2 ^ 50) \<le> counter_rate d i" .
  have "counter_rate d i \<le> ?p / ?q * (1 + ?u)"
    unfolding counter_rate_def double_divide_def by (rule double_round_upper [OF pq0])
  also have "\<dots> \<le> ?d * 1000000000 * (1 + ?u) * (1 + ?u) / (?i * (1 - ?u)) * (1 + ?u)"
    by (intro mult_right_mono frac_le) (use p2 p0 q q0 d in simp_all)
  also have "\<dots> = ?d * 1000000000 / ?i * ((1 + ?u) * (1 + ?u) / (1 - ?u) * (1 + ?u))" by simp
  also have "\<dots> \<le> ?d * 1000000000 / ?i * (1 + 1 / 2 ^ 50)"
    using d i by (intro mult_left_mono) simp_all
  finally show "counter_rate d i \<le> ?d * 1000000000 / ?i * (1 + 1 / 2 ^ 50)" .
qed

lemma counter_rate_error:
  assumes "0 \<le> d" "0 < i"
  shows "\<bar>counter_rate d i - of_int d * 1000000000 / of_int i\<bar> \<le> of_int d * 1000000000 / of_int i / 2 ^ 50"
  using counter_rate_bounds [OF assms] by (simp add: abs_le_iff field_simps)

text \<open>
  No operation leaves the normal range of the format, \<open>2 ^ -1022\<close> to \<open>2 ^ 1024\<close>, which is why the
  rounding needs no bound on the exponent. (The integers convert to values of at least 1.)
\<close>

lemma counter_rate_in_range:
  assumes "0 < d" "d < 2 ^ 64" "0 < i" "i < 2 ^ 63"
  shows "1 / 2 ^ 34 \<le> counter_rate d i" and "counter_rate d i \<le> 2 ^ 95"
proof -
  have i: "0 < (of_int i :: rat)" "(of_int i :: rat) \<le> 2 ^ 63" "1 \<le> (of_int i :: rat)"
    and d: "1 \<le> (of_int d :: rat)" "(of_int d :: rat) \<le> 2 ^ 64" using assms by simp_all
  have "1 * 1000000000 / 2 ^ 63 \<le> (of_int d * 1000000000 / of_int i :: rat)"
    by (intro frac_le mult_right_mono) (use i d in simp_all)
  then have "1 * 1000000000 / 2 ^ 63 * (1 - 1 / 2 ^ 50) \<le> (of_int d * 1000000000 / of_int i * (1 - 1 / 2 ^ 50) :: rat)"
    by (rule mult_right_mono) simp
  then show "1 / 2 ^ 34 \<le> counter_rate d i" using counter_rate_bounds(1) [of d i] assms by simp
  have "(of_int d * 1000000000 / of_int i :: rat) \<le> 2 ^ 64 * 1000000000 / 1"
    by (intro frac_le mult_right_mono) (use i d in simp_all)
  then have "(of_int d * 1000000000 / of_int i * (1 + 1 / 2 ^ 50) :: rat) \<le> 2 ^ 64 * 1000000000 / 1 * (1 + 1 / 2 ^ 50)"
    by (rule mult_right_mono) simp
  then show "counter_rate d i \<le> 2 ^ 95" using counter_rate_bounds(2) [of d i] assms by simp
qed

section \<open>The contract of a processor\<close>

text \<open>
  What the executor expects of an implementation of \<open>MetricProcessor\<close>, for every
  configuration it accepts: an identity, and an answer that passes the checks of \<open>runNext\<close>
  for every task that \<open>schedule\<close> admits.
\<close>

locale processor_contract =
  fixes processor :: "'c \<Rightarrow> metric_processor"
    and valid :: "'c \<Rightarrow> bool"
  assumes identity: "valid cfg \<Longrightarrow> mp_id (processor cfg) \<noteq> [] \<and> mp_version (processor cfg) \<noteq> 0"
    and answers: "valid cfg \<Longrightarrow> task_ok l t \<Longrightarrow> tk_processor t = processor cfg \<Longrightarrow> \<exists>outs. run_evaluate t = Inr outs"
begin

lemma run_commits_or_discards:
  assumes "valid cfg" "px_inv x" "px_queue x = t # queue" "tk_processor t = processor cfg"
    and run: "runNext m x = (r, m', x')"
  shows "if run_stale t m then prr_discarded r \<and> prr_status r = STALE_GENERATION \<and> m' = m
    else \<exists>outs. conforming t outs \<and> DataManager_commit outs m = (prr_commit r, m') \<and>
      prr_status r = dcr_status (prr_commit r) \<and> \<not> prr_discarded r"
proof -
  have "task_ok (px_limits x) t" using assms(2,3) by (simp add: px_inv_def)
  then obtain outs where outs: "run_evaluate t = Inr outs" using answers [OF assms(1) _ assms(4)] by blast
  note run_evaluate_conforming(1) [OF outs]
  then show ?thesis
    using run outs assms(3)
    by (auto simp: runNext_def run_take_def default_run_result_def Let_def split: prod.splits if_splits)
qed

end

section \<open>The counter processor keeps the contract\<close>

lemma config_valid:
  assumes "CounterProcessorConfig_validate cfg = SUCCESS"
  shows "cc_processor_id cfg \<noteq> []" "cc_processor_version cfg \<noteq> 0"
    "\<forall>out \<in> set (counter_outputs cfg). pm_metric out \<noteq> 0 \<and> pm_semantic_version out \<noteq> 0"
    "distinct (map pm_metric (counter_outputs cfg))" "0 < cc_minimum_interval_ns cfg"
    "\<And>w. cc_wrap cfg = Some w \<Longrightarrow> CounterWrapRule_validate w = SUCCESS"
  using assms
  by (auto simp: CounterProcessorConfig_validate_def counter_outputs_def split: if_splits option.splits)

lemma outputs_conformI:
  assumes "distinct (map obs_metric outs)"
    and "\<And>out. out \<in> set outs \<Longrightarrow> obs_metric out \<notin> seen \<and>
      map_of expected (obs_metric out) = Some (obs_metric_semantic_version out) \<and>
      obs_entity out = pc_entity (tk_context t) \<and>
      obs_catalog_generation out = pc_catalog_generation (tk_context t) \<and> obs_commit_epoch out = 0 \<and>
      dv_processor_id (obs_derivation out) = mp_id (tk_processor t) \<and>
      dv_processor_version (obs_derivation out) = mp_version (tk_processor t) \<and>
      dv_depth (obs_derivation out) = pc_derivation_depth (tk_context t) \<and> validateObservation out = SUCCESS"
  shows "outputs_conform t expected seen outs"
  using assms
proof (induction outs arbitrary: seen)
  case (Cons out outs)
  have "outputs_conform t expected (insert (obs_metric out) seen) outs"
  proof (rule Cons.IH)
    fix out' assume "out' \<in> set outs"
    moreover from imageI [OF this, of obs_metric] have "obs_metric out' \<noteq> obs_metric out"
      using Cons.prems(1) by (simp, metis)
    ultimately show "obs_metric out' \<notin> insert (obs_metric out) seen \<and>
      map_of expected (obs_metric out') = Some (obs_metric_semantic_version out') \<and>
      obs_entity out' = pc_entity (tk_context t) \<and>
      obs_catalog_generation out' = pc_catalog_generation (tk_context t) \<and> obs_commit_epoch out' = 0 \<and>
      dv_processor_id (obs_derivation out') = mp_id (tk_processor t) \<and>
      dv_processor_version (obs_derivation out') = mp_version (tk_processor t) \<and>
      dv_depth (obs_derivation out') = pc_derivation_depth (tk_context t) \<and> validateObservation out' = SUCCESS"
      using Cons.prems(2) [of out'] by simp
  qed (use Cons.prems(1) in simp)
  with Cons.prems(2) [of out] show ?case by (simp add: ok_def)
qed simp

text \<open>The result for one declared output: what both kinds of outputs of the counter have.\<close>

definition answers_output :: "processor_task \<Rightarrow> processor_metric \<Rightarrow> observation \<Rightarrow> bool" where
  "answers_output t d out \<longleftrightarrow>
     obs_metric out = pm_metric d \<and> obs_metric_semantic_version out = pm_semantic_version d \<and>
     obs_entity out = pc_entity (tk_context t) \<and>
     obs_catalog_generation out = pc_catalog_generation (tk_context t) \<and> obs_commit_epoch out = 0 \<and>
     dv_processor_id (obs_derivation out) = mp_id (tk_processor t) \<and>
     dv_processor_version (obs_derivation out) = mp_version (tk_processor t) \<and>
     dv_depth (obs_derivation out) = pc_derivation_depth (tk_context t) \<and> validateObservation out = SUCCESS"

lemma answers_conform:
  assumes "list_all2 (answers_output t) ds outs" "distinct (map pm_metric ds)"
  shows "outputs_conform t (expected_versions ds) {} outs"
proof (rule outputs_conformI)
  have metrics: "map obs_metric outs = map pm_metric ds"
    using assms(1) by (induction rule: list_all2_induct) (auto simp: answers_output_def)
  then show "distinct (map obs_metric outs)" using assms(2) by simp
  fix out assume "out \<in> set outs"
  then obtain d where d: "d \<in> set ds" "answers_output t d out" using list_all2_set2 [OF assms(1)] by blast
  then have "map_of (declared ds) (pm_metric d) = Some (pm_semantic_version d)"
    using assms(2) by (intro map_of_is_SomeI) (auto simp: comp_def)
  with d show "obs_metric out \<notin> {} \<and>
      map_of (expected_versions ds) (obs_metric out) = Some (obs_metric_semantic_version out) \<and>
      obs_entity out = pc_entity (tk_context t) \<and>
      obs_catalog_generation out = pc_catalog_generation (tk_context t) \<and> obs_commit_epoch out = 0 \<and>
      dv_processor_id (obs_derivation out) = mp_id (tk_processor t) \<and>
      dv_processor_version (obs_derivation out) = mp_version (tk_processor t) \<and>
      dv_depth (obs_derivation out) = pc_derivation_depth (tk_context t) \<and> validateObservation out = SUCCESS"
    by (simp add: answers_output_def map_of_expected_versions)
qed

text \<open>The declared outputs, and the value of each when the two samples can be compared.\<close>

definition counter_result ::
  "counter_processor_config \<Rightarrow> processor_context \<Rightarrow> observation \<Rightarrow> observation \<Rightarrow> u64 \<Rightarrow> processor_evaluation" where
  "counter_result cfg c oldest newest delta =
     \<lparr>pe_status = SUCCESS,
      pe_outputs =
        (outputBase cfg c oldest newest (cc_delta_output cfg))
          \<lparr>obs_value := Some (V_uint64 delta), obs_status := OS_Valid\<rparr> #
        (case cc_rate_output cfg of
           None \<Rightarrow> []
         | Some r \<Rightarrow>
            [(outputBase cfg c oldest newest r)
               \<lparr>obs_value := Some (V_double (counter_rate (uint delta)
                  (obs_observed_monotonic_time_ns newest - obs_observed_monotonic_time_ns oldest))),
                obs_status := OS_Valid\<rparr>])\<rparr>"

definition comparable :: "counter_processor_config \<Rightarrow> processor_context \<Rightarrow> observation \<Rightarrow> observation \<Rightarrow> bool" where
  "comparable cfg c oldest newest \<longleftrightarrow>
     (\<forall>o' \<in> {oldest, newest}. obs_entity o' = pc_entity c \<and> obs_catalog_generation o' = pc_catalog_generation c \<and>
        obs_metric o' = pm_metric (cc_input cfg) \<and>
        obs_metric_semantic_version o' = pm_semantic_version (cc_input cfg) \<and>
        obs_status o' = OS_Valid \<and> counter_value (obs_value o') \<noteq> None) \<and>
     obs_counter_epoch oldest = obs_counter_epoch newest \<and>
     obs_observed_monotonic_time_ns oldest < obs_observed_monotonic_time_ns newest \<and>
     obs_observed_monotonic_time_ns newest \<le> pc_evaluated_monotonic_time_ns c \<and>
     obs_observed_monotonic_time_ns newest - obs_observed_monotonic_time_ns oldest
       \<in> {cc_minimum_interval_ns cfg .. cc_maximum_gap_ns cfg}"

abbreviation sample_delta :: "counter_processor_config \<Rightarrow> observation \<Rightarrow> observation \<Rightarrow> u64 option" where
  "sample_delta cfg oldest newest \<equiv>
     counter_delta (cc_wrap cfg) (the (counter_value (obs_value oldest))) (the (counter_value (obs_value newest)))"

lemma length_two: "length xs = 2 \<Longrightarrow> \<exists>a b. xs = [a, b]"
  by (auto simp: length_Suc_conv numeral_2_eq_2)

lemma sort_two:
  assumes "length items = 2" "mset items = {#a, b#}" "f a < f b"
  shows "sort_key f items = [a, b]"
proof -
  obtain x y where "items = [x, y]" using length_two [OF assms(1)] by blast
  with assms(2,3) show ?thesis by (auto simp: add_eq_conv_ex)
qed

lemma evaluate_comparable:
  assumes "er_kind (pc_entity c) = EK_Device" "er_generation (pc_entity c) \<noteq> 0" "pc_catalog_generation c \<noteq> 0"
    "0 \<le> pc_evaluated_monotonic_time_ns c" "pc_derivation_depth c \<noteq> 0" "pc_derivation_depth c \<le> 4"
    and "mset items = {#oldest, newest#}" "comparable cfg c oldest newest"
  shows "counter_evaluate cfg c items =
    (case sample_delta cfg oldest newest of
       None \<Rightarrow> counter_unavailable cfg c (Some newest) ''counter reset was detected''
     | Some delta \<Rightarrow> counter_result cfg c oldest newest delta)"
proof -
  have len: "length items = 2" using arg_cong [OF assms(7), of size] by simp
  have "sort_key (\<lambda>o'. (obs_observed_monotonic_time_ns o', obs_commit_epoch o')) items = [oldest, newest]"
    by (rule sort_two [OF len assms(7)]) (use assms(8) in \<open>simp add: comparable_def\<close>)
  then show ?thesis
    using assms(1-6,8) len
    by (auto simp: counter_evaluate_def Let_def comparable_def counter_result_def not_less not_le
        split: option.splits)
qed

lemma first_failure:
  "A \<or> B \<or> C \<or> D \<or> E \<Longrightarrow>
   \<exists>r. (if A then f r1 else if B then f r2 else if C then f r3 else if D then f r4 else if E then f r5 else x) = f r"
  by auto

lemma evaluate_cases:
  obtains (na) newest reason where "counter_evaluate cfg c items = counter_unavailable cfg c newest reason"
    "set_option newest \<subseteq> set items"
  | (counted) oldest newest delta where "mset items = {#oldest, newest#}" "comparable cfg c oldest newest"
    "sample_delta cfg oldest newest = Some delta"
    "counter_evaluate cfg c items = counter_result cfg c oldest newest delta"
proof (cases "er_kind (pc_entity c) \<noteq> EK_Device \<or> er_generation (pc_entity c) = 0 \<or> pc_catalog_generation c = 0 \<or>
        pc_evaluated_monotonic_time_ns c < 0 \<or> pc_derivation_depth c = 0 \<or> pc_derivation_depth c > 4 \<or>
        length items \<noteq> 2")
  case True
  then have "counter_evaluate cfg c items =
      counter_unavailable cfg c (if items = [] then None else Some (last items)) ''insufficient samples''"
    by (simp add: counter_evaluate_def)
  then show ?thesis by (rule na) simp
next
  case False
  let ?samples = "sort_key (\<lambda>o'. (obs_observed_monotonic_time_ns o', obs_commit_epoch o')) items"
  have "length ?samples = 2" using False by simp
  then obtain a b where ab: "?samples = [a, b]" using length_two by blast
  have set: "mset items = {#a, b#}" "{a, b} \<subseteq> set items"
    using arg_cong [OF ab, of mset] arg_cong [OF ab, of set] by simp_all
  show ?thesis
  proof (cases "comparable cfg c a b")
    case True
    then show ?thesis
      using evaluate_comparable [OF _ _ _ _ _ _ set(1) True] False counted [OF set(1) True] na [where newest = "Some b"] set(2)
      by (cases "sample_delta cfg a b") (auto simp: not_less)
  next
    case bad: False
    have ends: "hd [a, b] = a" "last [a, b] = b" by simp_all
    have "\<exists>reason. counter_evaluate cfg c items = counter_unavailable cfg c (Some b) reason"
      unfolding counter_evaluate_def Let_def ab if_not_P [OF False] ends
      by (rule first_failure) (use bad in \<open>auto simp: comparable_def\<close>)
    then show ?thesis using na [where newest = "Some b"] set(2) by auto
  qed
qed

lemma unavailable_answers:
  assumes "CounterProcessorConfig_validate cfg = SUCCESS" "task_ok l t" "tk_processor t = counter_processor cfg"
    and "set_option newest \<subseteq> set (tk_snapshot t)"
  shows "list_all2 (answers_output t) (counter_outputs cfg) (pe_outputs (counter_unavailable cfg (tk_context t) newest reason))"
proof -
  have newest: "validateObservation n = SUCCESS" if "newest = Some n" for n
    using that assms(2,4) by (auto simp: task_ok_def Let_def)
  have "answers_output t d out" if "d \<in> set (counter_outputs cfg)"
    "out = default_observation\<lparr>obs_entity := pc_entity (tk_context t), obs_metric := pm_metric d,
          obs_status := OS_NotAvailable, obs_metric_semantic_version := pm_semantic_version d,
          obs_scheduled_monotonic_time_ns :=
            (case newest of None \<Rightarrow> pc_evaluated_monotonic_time_ns (tk_context t) | Some n \<Rightarrow> obs_scheduled_monotonic_time_ns n),
          obs_observed_monotonic_time_ns := pc_evaluated_monotonic_time_ns (tk_context t),
          obs_observed_wall_time_ns := (case newest of None \<Rightarrow> 0 | Some n \<Rightarrow> obs_observed_wall_time_ns n),
          obs_catalog_generation := pc_catalog_generation (tk_context t),
          obs_counter_epoch := (case newest of None \<Rightarrow> 0 | Some n \<Rightarrow> obs_counter_epoch n),
          obs_source := \<lparr>src_provider = ''pdcm-processor'', src_native_source = cc_processor_id cfg\<rparr>,
          obs_error := default_error\<lparr>em_status := Status UNAVAILABLE reason\<rparr>,
          obs_derivation := \<lparr>dv_processor_id = cc_processor_id cfg,
            dv_input_sequences = [case newest of None \<Rightarrow> 1 | Some n \<Rightarrow> obs_commit_epoch n],
            dv_processor_version = cc_processor_version cfg, dv_depth = pc_derivation_depth (tk_context t)\<rparr>\<rparr>" for d out
    using that assms(2,3) config_valid(1-3) [OF assms(1)] newest
    by (auto simp: answers_output_def task_ok_def Let_def counter_processor_def validateObservation_SUCCESS_iff
        obs_identity_ok_def obs_status_coherent_def obs_provenance_ok_def default_observation_def split: option.splits)
  then show ?thesis by (simp add: counter_unavailable_def list_all2_map2 list_all2_same)
qed

lemma outputBase_answers:
  assumes "CounterProcessorConfig_validate cfg = SUCCESS" "task_ok l t" "tk_processor t = counter_processor cfg"
    and "newest \<in> set (tk_snapshot t)" "d \<in> set (counter_outputs cfg)"
  shows "answers_output t d ((outputBase cfg (tk_context t) oldest newest d)
    \<lparr>obs_value := Some v, obs_status := OS_Valid\<rparr>)"
proof -
  have "validateObservation newest = SUCCESS" using assms(2,4) by (auto simp: task_ok_def Let_def)
  then show ?thesis
    using assms(2,3,5) config_valid(1-3) [OF assms(1)]
    by (auto simp: answers_output_def task_ok_def Let_def counter_processor_def validateObservation_SUCCESS_iff
        obs_identity_ok_def obs_status_coherent_def obs_provenance_ok_def default_observation_def outputBase_def
        default_error_def status_success_def)
qed

lemma counter_answers:
  assumes "CounterProcessorConfig_validate cfg = SUCCESS" "task_ok l t" "tk_processor t = counter_processor cfg"
  shows "\<exists>outs. run_evaluate t = Inr outs"
proof -
  let ?e = "counter_evaluate cfg (tk_context t) (tk_snapshot t)"
  have "readableProcessorStatus (pe_status ?e) \<and> list_all2 (answers_output t) (counter_outputs cfg) (pe_outputs ?e)"
  proof (cases rule: evaluate_cases [of cfg "tk_context t" "tk_snapshot t"])
    case (na newest reason)
    then show ?thesis
      using unavailable_answers [OF assms] by (simp add: readableProcessorStatus_def counter_unavailable_def)
  next
    case (counted oldest newest delta)
    then have "newest \<in> set (tk_snapshot t)" using mset_eq_setD [of "tk_snapshot t" "[oldest, newest]"] by simp
    note out = outputBase_answers [OF assms this]
    show ?thesis
      using out [of "cc_delta_output cfg"] out [of "the (cc_rate_output cfg)"] counted(4)
      by (auto simp: counter_result_def counter_outputs_def readableProcessorStatus_def ok_def split: option.splits)
  qed
  then show ?thesis
    using assms(3) answers_conform [OF _ config_valid(4) [OF assms(1)]]
    by (auto simp: run_evaluate_def counter_processor_def Let_def dest: list_all2_lengthD)
qed

interpretation counter: processor_contract counter_processor "\<lambda>cfg. ok (CounterProcessorConfig_validate cfg)"
  by unfold_locales (auto simp: counter_processor_def ok_def config_valid intro: counter_answers)

section \<open>The increment\<close>

text \<open>
  A counter that showed \<open>old\<close> and shows \<open>new\<close> counted \<open>k\<close> steps: directly, or across one
  wrap of the declared modulus when the wrap rule applies.
\<close>

definition counted_steps :: "counter_wrap_rule option \<Rightarrow> nat \<Rightarrow> nat \<Rightarrow> nat \<Rightarrow> bool" where
  "counted_steps wrap old new k \<longleftrightarrow> old + k = new \<or>
    (\<exists>w. wrap = Some w \<and> new < old \<and> unat (wr_minimum_previous w) \<le> old \<and> old < unat (wr_modulus w) \<and>
       new \<le> unat (wr_maximum_current w) \<and> k < unat (wr_modulus w) \<and> (old + k) mod unat (wr_modulus w) = new)"

lemma u64_bound: "unat (x :: u64) < 18446744073709551616"
  using unsigned_less [where 'a = nat, of x] by simp

lemma counter_delta_counted:
  assumes "counter_delta wrap old_value new_value = Some delta"
    and "\<And>w. wrap = Some w \<Longrightarrow> CounterWrapRule_validate w = SUCCESS"
  shows "counted_steps wrap (unat old_value) (unat new_value) (unat delta)"
proof (cases "old_value \<le> new_value")
  case True
  then show ?thesis
    using assms(1) by (auto simp: counter_delta_def counted_steps_def unat_sub word_le_nat_alt)
next
  case False
  then obtain w where w: "wrap = Some w" "wr_minimum_previous w \<le> old_value" "old_value < wr_modulus w"
    "new_value \<le> wr_maximum_current w" "delta = (wr_modulus w - old_value) + new_value"
    using assms(1) by (auto simp: counter_delta_def split: option.splits if_splits)
  have lt: "unat new_value < unat old_value" "unat old_value < unat (wr_modulus w)"
    using False w(3) by (auto simp: word_le_nat_alt word_less_nat_alt)
  have "unat (wr_modulus w - old_value) = unat (wr_modulus w) - unat old_value"
    using w(3) by (simp add: unat_sub)
  moreover have "unat (wr_modulus w) - unat old_value + unat new_value < 2 ^ 64"
    using lt u64_bound [of "wr_modulus w"] by simp
  ultimately have d: "unat delta = unat (wr_modulus w) - unat old_value + unat new_value"
    using w(5) by (simp add: unat_word_ariths)
  then have "unat old_value + unat delta = unat (wr_modulus w) + unat new_value" using lt by simp
  then have "(unat old_value + unat delta) mod unat (wr_modulus w) = unat new_value" using lt by simp
  then show ?thesis using w lt d by (auto simp: counted_steps_def word_le_nat_alt)
qed

lemma counted_counter_delta:
  assumes "counted_steps wrap (unat old_value) (unat new_value) k"
  shows "\<exists>delta. counter_delta wrap old_value new_value = Some delta \<and> unat delta = k"
proof (cases "unat old_value + k = unat new_value")
  case True
  then have "old_value \<le> new_value" by (simp add: word_le_nat_alt)
  then show ?thesis using True by (auto simp: counter_delta_def unat_sub)
next
  case False
  with assms obtain w where w: "wrap = Some w" "unat new_value < unat old_value"
    "wr_minimum_previous w \<le> old_value" "old_value < wr_modulus w" "new_value \<le> wr_maximum_current w"
    "k < unat (wr_modulus w)" "(unat old_value + k) mod unat (wr_modulus w) = unat new_value"
    by (auto simp: counted_steps_def word_le_nat_alt word_less_nat_alt)
  have lt: "unat old_value < unat (wr_modulus w)" using w(4) by (simp add: word_less_nat_alt)
  have "\<not> unat old_value + k < unat (wr_modulus w)" using w(2,7) by (auto simp: mod_less)
  then have "unat new_value = unat old_value + k - unat (wr_modulus w)"
    using w(6,7) lt by (simp add: mod_if split: if_splits)
  then have k: "k = unat (wr_modulus w) - unat old_value + unat new_value"
    using \<open>\<not> unat old_value + k < unat (wr_modulus w)\<close> lt by simp
  have "unat ((wr_modulus w - old_value) + new_value) = k"
    using k w(6) u64_bound [of "wr_modulus w"] w(4) by (simp add: unat_word_ariths unat_sub)
  moreover have "\<not> old_value \<le> new_value" using w(2) by (simp add: word_le_nat_alt)
  ultimately show ?thesis using w by (auto simp: counter_delta_def)
qed

section \<open>Properties\<close>

abbreviation sample_count :: "observation \<Rightarrow> nat" where
  "sample_count o' \<equiv> unat (the (counter_value (obs_value o')))"

definition counted_pair ::
  "counter_processor_config \<Rightarrow> processor_task \<Rightarrow> observation \<Rightarrow> observation \<Rightarrow> nat \<Rightarrow> bool" where
  "counted_pair cfg t oldest newest k \<longleftrightarrow>
     mset (tk_snapshot t) = {#oldest, newest#} \<and> comparable cfg (tk_context t) oldest newest \<and>
     counted_steps (cc_wrap cfg) (sample_count oldest) (sample_count newest) k"

lemma task_evaluate_pair:
  assumes "CounterProcessorConfig_validate cfg = SUCCESS" "task_ok l t" "counted_pair cfg t oldest newest k"
  shows "\<exists>delta. unat delta = k \<and>
    counter_evaluate cfg (tk_context t) (tk_snapshot t) = counter_result cfg (tk_context t) oldest newest delta"
proof -
  obtain delta where "sample_delta cfg oldest newest = Some delta" "unat delta = k"
    using counted_counter_delta assms(3) unfolding counted_pair_def by blast
  then show ?thesis
    using evaluate_comparable [of "tk_context t" "tk_snapshot t" oldest newest cfg] assms(2,3)
    by (auto simp: task_ok_def Let_def counted_pair_def)
qed

text \<open>
  C20: A counter increment is published exactly when the two samples can be compared: both
  valid, of one entity, generation, metric version and counter epoch, in time order with an
  interval between the limits, and with a reading that did not fall or fell under the wrap
  rule. Then the increment is the exact number of steps (nothing overflows or is clamped) and
  the rate is the increment per second as the four \<open>double\<close> operations of the code compute it,
  within one part in \<open>2 ^ 50\<close> of the exact quotient. Otherwise every output is published as not
  available.
\<close>

theorem counter_evaluation_exact:
  assumes "ok (CounterProcessorConfig_validate cfg)" and "task_ok l t"
  shows "let e = counter_evaluate cfg (tk_context t) (tk_snapshot t) in
    (pe_status e = SUCCESS \<longleftrightarrow> (\<exists>oldest newest k. counted_pair cfg t oldest newest k)) \<and>
    (pe_status e \<noteq> SUCCESS \<longrightarrow> pe_status e = PARTIAL_RESULT \<and>
       (\<forall>out \<in> set (pe_outputs e). obs_status out = OS_NotAvailable \<and> obs_value out = None)) \<and>
    (\<forall>oldest newest k. counted_pair cfg t oldest newest k \<longrightarrow>
       map obs_value (pe_outputs e) = Some (V_uint64 (of_nat k)) #
         (case cc_rate_output cfg of None \<Rightarrow> [] | Some _ \<Rightarrow>
            [Some (V_double (counter_rate (int k)
               (obs_observed_monotonic_time_ns newest - obs_observed_monotonic_time_ns oldest)))]) \<and>
       k < 2 ^ 64 \<and>
       (let exact = of_nat k * 1000000000 /
              of_int (obs_observed_monotonic_time_ns newest - obs_observed_monotonic_time_ns oldest)
        in \<bar>counter_rate (int k) (obs_observed_monotonic_time_ns newest - obs_observed_monotonic_time_ns oldest)
              - exact\<bar> \<le> exact / 2 ^ 50))"
proof -
  have valid: "CounterProcessorConfig_validate cfg = SUCCESS" using assms(1) by (simp add: ok_def)
  let ?e = "counter_evaluate cfg (tk_context t) (tk_snapshot t)"
  have result: "pe_status ?e = SUCCESS \<and> map obs_value (pe_outputs ?e) = Some (V_uint64 (of_nat k)) #
         (case cc_rate_output cfg of None \<Rightarrow> [] | Some _ \<Rightarrow>
            [Some (V_double (counter_rate (int k)
               (obs_observed_monotonic_time_ns newest - obs_observed_monotonic_time_ns oldest)))]) \<and> k < 2 ^ 64"
    if pair: "counted_pair cfg t oldest newest k" for oldest newest k
  proof -
    obtain delta where "unat delta = k" "?e = counter_result cfg (tk_context t) oldest newest delta"
      using task_evaluate_pair [OF valid assms(2) pair] by blast
    then show ?thesis using u64_bound [of delta] by (auto simp: counter_result_def split: option.splits)
  qed
  have "(\<exists>oldest newest k. counted_pair cfg t oldest newest k) \<or> pe_status ?e = PARTIAL_RESULT \<and>
      (\<forall>out \<in> set (pe_outputs ?e). obs_status out = OS_NotAvailable \<and> obs_value out = None)"
  proof (cases rule: evaluate_cases [of cfg "tk_context t" "tk_snapshot t"])
    case (na newest reason)
    then show ?thesis by (auto simp: counter_unavailable_def default_observation_def)
  next
    case (counted oldest newest delta)
    then have "counted_pair cfg t oldest newest (unat delta)"
      using counter_delta_counted [OF counted(3)] config_valid(6) [OF valid] by (auto simp: counted_pair_def)
    then show ?thesis by blast
  qed
  moreover have "\<bar>counter_rate (int k) (obs_observed_monotonic_time_ns newest - obs_observed_monotonic_time_ns oldest)
      - of_nat k * 1000000000 / of_int (obs_observed_monotonic_time_ns newest - obs_observed_monotonic_time_ns oldest)\<bar>
      \<le> of_nat k * 1000000000 / of_int (obs_observed_monotonic_time_ns newest - obs_observed_monotonic_time_ns oldest) / 2 ^ 50"
    if "counted_pair cfg t oldest newest k" for oldest newest k
    using counter_rate_error [of "int k"
        "obs_observed_monotonic_time_ns newest - obs_observed_monotonic_time_ns oldest"] that
    by (simp add: counted_pair_def comparable_def)
  ultimately show ?thesis using result unfolding Let_def by (metis pdcm_status.distinct(1))
qed

text \<open>
  The counter processor keeps the contract of the executor. A task of it that is next in
  the queue is discarded when the catalog moved on; otherwise its outputs are committed, and
  the run never ends because of an answer that the executor rejects.
\<close>

theorem counter_run_commits:
  assumes "ok (CounterProcessorConfig_validate cfg)" and "xs_reachable m0 l s"
    and "px_queue (xs_executor s) = t # queue" and "tk_processor t = counter_processor cfg"
    and "runNext m (xs_executor s) = (r, m', x')"
  shows "if run_stale t m then prr_discarded r \<and> prr_status r = STALE_GENERATION \<and> m' = m
    else \<exists>outs. conforming t outs \<and> DataManager_commit outs m = (prr_commit r, m') \<and>
      prr_status r = dcr_status (prr_commit r) \<and> \<not> prr_discarded r"
proof (rule counter.run_commits_or_discards [OF assms(1) _ assms(3-5)])
  show "px_inv (xs_executor s)" using xs_reachable_inv [OF assms(2)] by (simp add: xs_inv_def)
qed

text \<open>The witnesses: a counter that wrapped from 95 to 3 below 100.\<close>

definition witness_counter :: counter_processor_config where
  "witness_counter =
     \<lparr>cc_processor_id = ''p'', cc_processor_version = 1,
      cc_input = \<lparr>pm_metric = 3, pm_semantic_version = 1\<rparr>,
      cc_delta_output = \<lparr>pm_metric = 7, pm_semantic_version = 1\<rparr>,
      cc_rate_output = Some \<lparr>pm_metric = 8, pm_semantic_version = 1\<rparr>,
      cc_minimum_interval_ns = 1, cc_maximum_gap_ns = 10,
      cc_wrap = Some \<lparr>wr_modulus = 100, wr_minimum_previous = 90, wr_maximum_current = 10\<rparr>\<rparr>"

definition counter_sample :: "i64 \<Rightarrow> u64 \<Rightarrow> observation" where
  "counter_sample time v = (witness_obs time)\<lparr>obs_metric := 3, obs_value := Some (V_uint64 v), obs_commit_epoch := 1\<rparr>"

definition counter_task :: processor_task where
  "counter_task = new_task (counter_processor witness_counter) (tk_context witness_task)
     [counter_sample 4 3, counter_sample 1 95]"

lemma witness_counter_ok: "ok (CounterProcessorConfig_validate witness_counter)"
  by code_simp

lemma counter_task_ok: "task_ok executor_limits counter_task"
  by (simp add: task_ok_def counter_task_def witness_task_def counter_processor_def witness_counter_def
      counter_sample_def witness_obs_def default_observation_def taskBytes_def task_observationBytes_def
      sizeof_Task_def sizeof_Observation_def sizeof_uint64_def executor_limits_def size_max_def
      validateObservation_SUCCESS_iff obs_identity_ok_def obs_status_coherent_def obs_provenance_ok_def
      default_source_def default_error_def default_derivation_def status_success_def)

theorem counter_evaluation_exact_witness:
  "map obs_value (pe_outputs (counter_evaluate witness_counter (tk_context counter_task) (tk_snapshot counter_task))) =
     [Some (V_uint64 8), Some (V_double (5592405333333333 / 2097152))]"
proof -
  have "counter_rate 8 3 = 5592405333333333 / 2097152" by code_simp
  moreover
  have "counted_pair witness_counter counter_task (counter_sample 1 95) (counter_sample 4 3) 8"
    by (simp add: counted_pair_def comparable_def counted_steps_def counter_task_def witness_counter_def
        counter_sample_def witness_obs_def witness_task_def default_observation_def)
  ultimately show ?thesis
    using counter_evaluation_exact [OF witness_counter_ok counter_task_ok]
    by (auto simp: Let_def witness_counter_def counter_sample_def witness_obs_def)
qed

end
