(* ===== verification/Mock_Provider.thy ===== *)
theory Mock_Provider
  imports Provider
begin

text \<open>
  \<open>src/testkit/src/mock_provider.cpp\<close>: the scripted provider that the component and end-to-end
  tests run the service against, here a second provider that meets the contract of \<open>Provider\<close>.
  Its clock, a manual one, is the parameter \<open>now\<close>.
\<close>

datatype mock_scenario =
  MS_ProviderUnavailable | MS_ZeroDevice | MS_SingleDevice | MS_MultipleDevices | MS_PartialMetricFailure

datatype mock_heartbeat_class = MH_Normal | MH_Warning | MH_Fault

record mock_provider_config =
  mc_scenario :: mock_scenario
  mc_heartbeat :: mock_heartbeat_class
  mc_target :: target_kind

record mock_provider =
  mk_config :: mock_provider_config
  mk_state :: provider_state
  mk_sample_sequence :: u64

definition mock_provider_start :: "mock_provider_config \<Rightarrow> mock_provider" where
  "mock_provider_start c = \<lparr>mk_config = c, mk_state = PS_Uninitialized, mk_sample_sequence = 0\<rparr>"

section \<open>Scripted data\<close>

definition kTestGaugeMetricId :: u32 where
  "kTestGaugeMetricId = 0xF0000001"

definition kTestCounterMetricId :: u32 where
  "kTestCounterMetricId = 0xF0000002"

definition kTestDerivedRateMetricId :: u32 where
  "kTestDerivedRateMetricId = 0xF0000003"

definition kTestPeriodicFailureMetricId :: u32 where
  "kTestPeriodicFailureMetricId = 0xF0000004"

definition kTestHeartbeatEvidenceId :: u32 where
  "kTestHeartbeatEvidenceId = 0xF00000F0"

lemmas mock_ids = kTestGaugeMetricId_def kTestCounterMetricId_def kTestDerivedRateMetricId_def
  kTestPeriodicFailureMetricId_def kTestHeartbeatEvidenceId_def

definition makeDevice :: "nat \<Rightarrow> provider_entity" where
  "makeDevice index =
     \<lparr>pe_stable_native_id = ''mock-device-'' @ to_string index,
      pe_pci_bdf = (if index = 0 then ''0000:01:00.0'' else ''0000:02:00.0''),
      pe_pdrv_version = ''mock-pdrv-1.0'', pe_incarnation = ''mock-boot-1'', pe_state = PES_Ready,
      pe_manageable = True\<rparr>"

definition makeCapability :: "provider_data_kind \<Rightarrow> u32 \<Rightarrow> provider_capability" where
  "makeCapability kind data_id =
     \<lparr>pcap_kind = kind, pcap_data_id = data_id, pcap_supported = True, pcap_reason = ''MOCK_SUPPORTED''\<rparr>"

definition makeItemFailure ::
  "provider_read_item \<Rightarrow> observation_status \<Rightarrow> i64 \<Rightarrow> bool \<Rightarrow> provider_read_item_result" where
  "makeItemFailure item status native_code retryable =
     (default_read_item_result item)\<lparr>rr_status := status, rr_native_source := ''mock-script'',
       rr_native_code := native_code, rr_retryable := retryable\<rparr>"

definition mock_descriptor :: "mock_provider \<Rightarrow> provider_descriptor" where
  "mock_descriptor p =
    (let value = default_descriptor\<lparr>pd_provider_version := ''mock-provider-1'',
           pd_target := mc_target (mk_config p), pd_state := mk_state p\<rparr>;
         scenario = mc_scenario (mk_config p)
     in if scenario = MS_ProviderUnavailable
        then value\<lparr>pd_failure_phase := PF_NativeInitialize,
               pd_errors := [Status UNAVAILABLE ''scripted provider unavailable'']\<rparr>
        else if scenario = MS_ZeroDevice then value
        else
         let device_count = (if scenario = MS_MultipleDevices then 2 else 1)
         in value\<lparr>pd_detected_device_count := of_nat device_count, pd_entities := map makeDevice [0..<device_count],
              pd_capabilities :=
               [makeCapability PD_Metric kTestGaugeMetricId, makeCapability PD_Metric kTestCounterMetricId,
                makeCapability PD_Metric kTestPeriodicFailureMetricId,
                makeCapability PD_HeartbeatEvidence kTestHeartbeatEvidenceId]\<rparr>)"

definition native_class :: "mock_heartbeat_class \<Rightarrow> heartbeat_class" where
  "native_class c = (case c of MH_Normal \<Rightarrow> HB_Normal | MH_Warning \<Rightarrow> HB_Warning | MH_Fault \<Rightarrow> HB_Fault)"

definition mock_readItem :: "i64 \<Rightarrow> mock_provider \<Rightarrow> provider_read_item \<Rightarrow> u64 \<Rightarrow> provider_read_item_result" where
  "mock_readItem now p item sequence =
    (if er_kind (ri_entity item) \<noteq> EK_Device \<or> er_id (ri_entity item) \<noteq> 0 \<or> er_generation (ri_entity item) \<noteq> 1
     then makeItemFailure item OS_Error 1002 False
     else
      let result = (default_read_item_result item)\<lparr>rr_status := OS_Valid, rr_source_sample_time_ns := Some now,
            rr_native_source := ''mock-script''\<rparr>
      in if ri_kind item = PD_HeartbeatEvidence \<and> ri_data_id item = kTestHeartbeatEvidenceId
         then result\<lparr>rr_heartbeat_class := Some (native_class (mc_heartbeat (mk_config p))),
                rr_sequence_or_token := Some sequence\<rparr>
         else if ri_kind item \<noteq> PD_Metric then makeItemFailure item OS_Unsupported 0 False
         else if ri_data_id item = kTestGaugeMetricId then result\<lparr>rr_value := Some (V_uint64 (sequence * 10))\<rparr>
         else if ri_data_id item = kTestCounterMetricId then result\<lparr>rr_value := Some (V_uint64 (sequence * 100))\<rparr>
         else if ri_data_id item = kTestPeriodicFailureMetricId
         then (if mc_scenario (mk_config p) = MS_PartialMetricFailure then makeItemFailure item OS_Error 2001 True
               else result\<lparr>rr_value := Some (V_uint64 sequence)\<rparr>)
         else makeItemFailure item OS_Unsupported 0 False)"

section \<open>The operations of a provider\<close>

definition MockProvider_initialize ::
  "i64 \<Rightarrow> provider_init_options \<Rightarrow> mock_provider \<Rightarrow> status \<times> mock_provider" where
  "MockProvider_initialize now opts p =
    (let unavailable = p\<lparr>mk_state := PS_Unavailable\<rparr>
     in if mk_state p = PS_Shutdown
        then (Status NOT_INITIALIZED ''shutdown provider cannot be initialized again'', p)
        else if po_target opts \<noteq> TK_Unknown \<and> po_target opts \<noteq> mc_target (mk_config p)
        then (Status UNSUPPORTED ''mock target mismatch'', unavailable)
        else if now > po_deadline opts then (Status TIMEOUT ''mock initialization deadline expired'', unavailable)
        else if mc_scenario (mk_config p) = MS_ProviderUnavailable
        then (Status UNAVAILABLE ''scripted provider unavailable'', unavailable)
        else (Status SUCCESS [], p\<lparr>mk_state := PS_Ready\<rparr>))"

definition MockProvider_discover :: "i64 \<Rightarrow> i64 \<Rightarrow> mock_provider \<Rightarrow> provider_discovery_result \<times> mock_provider" where
  "MockProvider_discover now deadline p =
     (\<lparr>pdr_call_status =
        (if mk_state p \<noteq> PS_Ready then Status UNAVAILABLE ''provider is not ready''
         else if now > deadline then Status TIMEOUT ''discovery deadline expired''
         else Status SUCCESS []),
       pdr_descriptor = mock_descriptor p\<rparr>, p)"

definition call_status :: "provider_read_item_result list \<Rightarrow> status" where
  "call_status items =
    (let valid_count = length (filter (\<lambda>i. rr_status i = OS_Valid) items);
         unsupported_count = length (filter (\<lambda>i. rr_status i = OS_Unsupported) items)
     in if valid_count = length items then Status SUCCESS []
        else if valid_count > 0 then Status PARTIAL_RESULT ''scripted partial result''
        else if items \<noteq> [] \<and> unsupported_count = length items
        then Status UNSUPPORTED ''all requested data is unsupported''
        else if items = [] then Status INVALID_ARGUMENT ''empty read request''
        else Status INTERNAL ''all scripted reads failed'')"

definition MockProvider_batchRead ::
  "i64 \<Rightarrow> provider_read_request \<Rightarrow> mock_provider \<Rightarrow> provider_read_result \<times> mock_provider" where
  "MockProvider_batchRead now request p =
    (if mk_state p \<noteq> PS_Ready
     then (\<lparr>prr_call_status = Status UNAVAILABLE ''provider is not ready'', prr_items = []\<rparr>, p)
     else if now > rq_deadline request
     then (\<lparr>prr_call_status = Status TIMEOUT ''read deadline expired'',
            prr_items = map (\<lambda>item. makeItemFailure item OS_Error 1001 True) (rq_items request)\<rparr>, p)
     else
      let p = p\<lparr>mk_sample_sequence := mk_sample_sequence p + 1\<rparr>;
          items = map (\<lambda>item. mock_readItem now p item (mk_sample_sequence p)) (rq_items request)
      in (\<lparr>prr_call_status = call_status items, prr_items = items\<rparr>, p))"

definition MockProvider :: "i64 \<Rightarrow> mock_provider provider_ops" where
  "MockProvider now =
     \<lparr>p_initialize = MockProvider_initialize now, p_shutdown = (\<lambda>p. p\<lparr>mk_state := PS_Shutdown\<rparr>),
      p_state = mk_state, p_concurrency = (\<lambda>p. \<lparr>pc_max_concurrency = 1, pc_reentrant = False\<rparr>),
      p_discover = MockProvider_discover now, p_batchRead = MockProvider_batchRead now\<rparr>"

lemmas MockProvider_defs = MockProvider_def MockProvider_initialize_def MockProvider_discover_def
  MockProvider_batchRead_def

section \<open>The contract\<close>

lemma readItem_item [simp]: "rr_item (mock_readItem now p item sequence) = item"
  by (simp add: mock_readItem_def makeItemFailure_def default_read_item_result_def Let_def)

interpretation mk: provider "MockProvider now" "mock_provider_start c" for now c
proof
  fix opts p st p'
  assume "p_initialize (MockProvider now) opts p = (st, p')" "status_ok st"
  then show "p_state (MockProvider now) p' = PS_Ready"
    by (auto simp: MockProvider_defs Let_def status_ok_def ok_def split: if_splits)
next
  fix request p result p'
  assume "p_batchRead (MockProvider now) request p = (result, p')"
    "status_code (prr_call_status result) \<in> {SUCCESS, PARTIAL_RESULT}"
  then show "map rr_item (prr_items result) = rq_items request"
    by (auto simp: MockProvider_defs Let_def comp_def split: if_splits)
qed (simp_all add: MockProvider_def mock_provider_start_def)

text \<open>An empty request succeeds: the count of valid items equals the number of items.\<close>

lemma empty_read_succeeds:
  "mk_state p = PS_Ready \<Longrightarrow> now \<le> rq_deadline request \<Longrightarrow> rq_items request = [] \<Longrightarrow>
   prr_call_status (fst (MockProvider_batchRead now request p)) = Status SUCCESS []"
  by (simp add: MockProvider_batchRead_def call_status_def)

end
