(* ===== verification/Service_Core.thy ===== *)
theory Service_Core
  imports Session Metrics_Manager Mock_Provider
begin

text \<open>
  \<open>src/product/src/core/service_core.*\<close>: the core that owns the
  provider manager, the semantic catalog, the data manager and the metrics manager, brings them
  up in order and answers discovery, capability and health requests. The provider is a
  parameter; the clock readings of \<open>start\<close> are the arguments \<open>t1\<close> to \<open>t4\<close>, in their order.
\<close>

text \<open>The defaults of \<open>DataStoreLimits\<close>, with which the core constructs its data manager.\<close>

definition default_data_limits :: data_store_limits where
  "default_data_limits =
     \<lparr>dl_shard_count = 8, dl_max_keys = 4096, dl_max_history_samples_per_key = 64,
      dl_max_history_duration_ns = 60000000000, dl_max_total_bytes = 16 * 1024 * 1024,
      dl_max_value_bytes = 4096, dl_max_query_items = 4096, dl_max_tombstones = 1024,
      dl_max_events = 4096, dl_max_event_bytes = 4 * 1024 * 1024, dl_max_evidence_items = 1024,
      dl_max_evidence_bytes = 1024 * 1024, dl_evidence_ttl_ns = 60000000000,
      dl_max_health_entries = 8, dl_max_health_evidence_refs = 8, dl_max_health_result_bytes = 16384,
      dl_max_health_bytes = 128 * 1024\<rparr>"

section \<open>State\<close>

datatype core_state = CS_Created | CS_Starting | CS_Ready | CS_Degraded | CS_Failed | CS_Stopping | CS_Stopped

datatype core_degraded_reason = DR_None | DR_ProviderUnavailable | DR_DiscoveryFailed | DR_TopologyUnsupported

record core_snapshot =
  cn_state :: core_state
  cn_provider_state :: provider_state
  cn_degraded_reason :: core_degraded_reason
  cn_detail_status :: pdcm_status
  cn_detected_device_count :: u32
  cn_catalog_generation :: u64

definition default_core_snapshot :: core_snapshot where
  "default_core_snapshot =
     \<lparr>cn_state = CS_Created, cn_provider_state = PS_Uninitialized, cn_degraded_reason = DR_None,
      cn_detail_status = SUCCESS, cn_detected_device_count = 0, cn_catalog_generation = 0\<rparr>"

record 'p service_core =
  co_config :: runtime_config
  co_provider :: "'p provider_manager"
  co_target_catalog :: target_catalog
  co_catalog :: semantic_catalog
  co_data :: data_manager
  co_metrics :: metrics_manager
  co_snapshot :: core_snapshot

definition defaultCatalog :: "target_kind \<Rightarrow> target_catalog" where
  "defaultCatalog target = TargetCatalog_blocked (if target = TK_Unknown then TK_Fpga else target)"

text \<open>The constructor throws on an invalid target catalog, through the semantic catalog it holds.\<close>

definition PdcmServiceCore :: "runtime_config \<Rightarrow> 'p \<Rightarrow> target_catalog \<Rightarrow> 'p service_core option" where
  "PdcmServiceCore config p tc =
     map_option (\<lambda>cat.
       \<lparr>co_config = config, co_provider = ProviderManager p, co_target_catalog = tc, co_catalog = cat,
        co_data = data_manager_start default_data_limits, co_metrics = MetricsManager [],
        co_snapshot = default_core_snapshot\<rparr>) (SemanticCatalog tc)"

definition core_publish :: "core_snapshot \<Rightarrow> 'p service_core \<Rightarrow> 'p service_core" where
  "core_publish s c = c\<lparr>co_snapshot := s\<rparr>"

section \<open>start and stop\<close>

text \<open>
  \<open>start\<close> holds the lock of the state only at its two ends: when it claims the start and when it
  publishes the outcome. Between them it calls the components; \<open>start_run\<close> is that part, with
  the status \<open>start\<close> returns and the snapshot it is about to publish.
\<close>

definition start_begin :: "'p service_core \<Rightarrow> 'p service_core option" where
  "start_begin c =
    (if cn_state (co_snapshot c) \<noteq> CS_Created then None
     else Some (c\<lparr>co_snapshot := (co_snapshot c)\<lparr>cn_state := CS_Starting\<rparr>\<rparr>))"

definition activate_services ::
  "'p provider_ops \<Rightarrow> i64 \<Rightarrow> i64 \<Rightarrow> catalog_commit_result \<Rightarrow> 'p service_core \<Rightarrow>
   (pdcm_status \<times> core_snapshot) \<times> 'p service_core" where
  "activate_services P t3 t4 committed c =
    (let v = sc_snapshot (co_catalog c);
         (data_status, m) = DataManager_activateCatalog (Some v) (co_target_catalog c) (co_data c);
         (metrics_status, mm, m) = metrics_activateCatalog (Some v) (co_target_catalog c) t3 (co_metrics c, m);
         c = c\<lparr>co_data := m, co_metrics := mm\<rparr>;
         snap = (\<lambda>state reason st.
           \<lparr>cn_state = state, cn_provider_state = pm_state (co_provider c), cn_degraded_reason = reason,
            cn_detail_status = st, cn_detected_device_count = ccr_detected_device_count committed,
            cn_catalog_generation = ccr_catalog_generation committed\<rparr>)
     in if \<not> ok data_status \<or> \<not> ok metrics_status
        then let failure = (if \<not> ok data_status then data_status else metrics_status)
             in ((failure, snap CS_Failed DR_DiscoveryFailed failure), c)
        else
         let m = snd (onProviderStateChanged (pm_state (co_provider c)) t4 (co_metrics c) (co_data c))
         in ((SUCCESS, snap CS_Ready DR_None (ccr_status committed)), c\<lparr>co_data := m\<rparr>))"

definition start_run ::
  "'p provider_ops \<Rightarrow> i64 \<Rightarrow> i64 \<Rightarrow> i64 \<Rightarrow> i64 \<Rightarrow> 'p service_core \<Rightarrow>
   (pdcm_status \<times> core_snapshot) \<times> 'p service_core" where
  "start_run P t1 t2 t3 t4 c =
    (let config_status = RuntimeConfig_validate (co_config c); timeout = rc_provider_call_timeout (co_config c) * 1000000;
         snap = (\<lambda>state ps reason st n g.
           \<lparr>cn_state = state, cn_provider_state = ps, cn_degraded_reason = reason, cn_detail_status = st,
            cn_detected_device_count = n, cn_catalog_generation = g\<rparr>)
     in if \<not> ok config_status
        then ((config_status, snap CS_Failed PS_Uninitialized DR_None config_status 0 0), c)
        else
         let (st, pm) = ProviderManager_initialize P \<lparr>po_target = rc_target (co_config c), po_deadline = t1 + timeout\<rparr>
               (co_provider c);
             c = c\<lparr>co_provider := pm\<rparr>
         in if \<not> status_ok st
            then ((SUCCESS, snap CS_Degraded (pm_state pm) DR_ProviderUnavailable (status_code st) 0 0), c)
            else
             let (discovery, pm) = ProviderManager_discover P (t2 + timeout) pm; c = c\<lparr>co_provider := pm\<rparr>;
                 d = pdr_descriptor discovery
             in if \<not> status_ok (pdr_call_status discovery)
                then ((SUCCESS, snap CS_Degraded (pm_state pm) DR_DiscoveryFailed
                         (status_code (pdr_call_status discovery)) (pd_detected_device_count d) 0), c)
                else
                 let (committed, cat) = SemanticCatalog_commit d (co_catalog c); c = c\<lparr>co_catalog := cat\<rparr>
                 in if \<not> ccr_committed committed
                    then ((SUCCESS, snap CS_Degraded (pm_state pm) DR_DiscoveryFailed (ccr_status committed)
                             (pd_detected_device_count d) (ccr_catalog_generation committed)), c)
                    else if ccr_status committed = UNSUPPORTED
                    then ((SUCCESS, snap CS_Degraded (pm_state pm) DR_TopologyUnsupported UNSUPPORTED
                             (ccr_detected_device_count committed) (ccr_catalog_generation committed)), c)
                    else activate_services P t3 t4 committed c)"

definition core_start ::
  "'p provider_ops \<Rightarrow> i64 \<Rightarrow> i64 \<Rightarrow> i64 \<Rightarrow> i64 \<Rightarrow> 'p service_core \<Rightarrow> pdcm_status \<times> 'p service_core" where
  "core_start P t1 t2 t3 t4 c =
    (case start_begin c of
       None \<Rightarrow> (NOT_INITIALIZED, c)
     | Some c \<Rightarrow> let ((st, s), c) = start_run P t1 t2 t3 t4 c in (st, core_publish s c))"

definition stop_begin :: "'p service_core \<Rightarrow> 'p service_core option" where
  "stop_begin c =
    (if cn_state (co_snapshot c) = CS_Stopped then None
     else Some (c\<lparr>co_snapshot := (co_snapshot c)\<lparr>cn_state := CS_Stopping\<rparr>\<rparr>))"

definition stopped_snapshot :: core_snapshot where
  "stopped_snapshot =
     \<lparr>cn_state = CS_Stopped, cn_provider_state = PS_Shutdown, cn_degraded_reason = DR_None,
      cn_detail_status = SUCCESS, cn_detected_device_count = 0, cn_catalog_generation = 0\<rparr>"

definition core_stop :: "'p provider_ops \<Rightarrow> 'p service_core \<Rightarrow> pdcm_status \<times> 'p service_core" where
  "core_stop P c =
    (case stop_begin c of
       None \<Rightarrow> (SUCCESS, c)
     | Some c \<Rightarrow>
        (SUCCESS, core_publish stopped_snapshot (c\<lparr>co_provider := ProviderManager_shutdown P (co_provider c)\<rparr>)))"

section \<open>Requests\<close>

definition serving :: "core_state \<Rightarrow> bool" where
  "serving s \<longleftrightarrow> \<not> (s = CS_Created \<or> s = CS_Starting \<or> s = CS_Failed \<or> s = CS_Stopping \<or> s = CS_Stopped)"

definition core_entities :: "entity_kind \<Rightarrow> 'p service_core \<Rightarrow> entity_list_result" where
  "core_entities kind c =
    (let v = sc_snapshot (co_catalog c);
         fail = (\<lambda>st n. \<lparr>el_status = st, el_detected_device_count = n, el_catalog_generation = 0, el_entities = []\<rparr>)
     in if \<not> serving (cn_state (co_snapshot c)) then fail NOT_INITIALIZED 0
        else if cv_generation v = 0 then fail UNAVAILABLE (cn_detected_device_count (co_snapshot c))
        else CatalogView_list kind v)"

definition core_capabilities :: "entity_ref \<Rightarrow> 'p service_core \<Rightarrow> pdcm_status \<times> capability_set option" where
  "core_capabilities entity c =
    (let v = sc_snapshot (co_catalog c)
     in if \<not> serving (cn_state (co_snapshot c)) then (NOT_INITIALIZED, None)
        else if cv_generation v = 0 then (UNAVAILABLE, None)
        else CatalogView_capabilities entity v)"

definition core_health :: "health_request \<Rightarrow> i64 \<Rightarrow> 'p service_core \<Rightarrow> health_query_result" where
  "core_health q now c =
    (let fail = (\<lambda>st. \<lparr>hqr_status = st, hqr_item = None, hqr_aggregate = None\<rparr>)
     in if \<not> serving (cn_state (co_snapshot c)) then fail NOT_INITIALIZED
        else if cn_catalog_generation (co_snapshot c) = 0 then fail UNAVAILABLE
        else queryHealth q now (co_metrics c) (co_data c))"

section \<open>Bringing the services up\<close>

lemma graph_without_processors:
  assumes "TargetCatalog_validate tc = SUCCESS" "g \<noteq> 0"
  shows "ProcessorGraph_rebuild tc g [] ProcessorGraph =
    (if list_ex (\<lambda>d. md_collection_mode d = CM_Derived) (tc_metrics tc) then (UNSUPPORTED, ProcessorGraph)
     else (SUCCESS, \<lparr>gs_catalog_generation = g, gs_nodes = []\<rparr>))"
  using assms health_base_parts(2) by (simp add: ProcessorGraph_rebuild_def ok_def ProcessorGraph_def)

lemma default_data_limits_ok: "ok (DataStoreLimits_validate default_data_limits)"
  by (simp add: DataStoreLimits_validate_def default_data_limits_def ok_def)

text \<open>A view that a commit has just published can be activated in a fresh store.\<close>

lemma committed_view_entities:
  assumes "SemanticCatalog_commit d c = (r, c')" "ccr_committed r" "cat_inv c" "e \<in> set (cv_entities (sc_snapshot c'))"
  shows "cv_entities (sc_snapshot c') = [e]" "en_target e = tc_target (sc_target_catalog c)"
    "er_kind (en_ref e) = EK_Device" "er_generation (en_ref e) \<noteq> 0"
proof -
  have inv: "cat_inv c'" using cat_inv_step [OF assms(3), of d] assms(1) by (simp add: cat_step_def)
  show "cv_entities (sc_snapshot c') = [e]" by (rule cat_inv_entities [OF inv assms(4)])
  from assms(1) show "en_target e = tc_target (sc_target_catalog c)"
    by (cases rule: commit_elim) (use assms(2,4) in \<open>auto simp: entity_record_of_def Let_def\<close>)
  obtain h where "map_of (sc_identity_history c') (entity_key (sc_target_catalog c') e) = Some h"
    "en_ref e = EntityRef EK_Device (ih_id h) (ih_generation h)"
    using inv assms(4) by (auto simp: cat_inv_def list_all_iff view_entity_def)
  then show "er_kind (en_ref e) = EK_Device" "er_generation (en_ref e) \<noteq> 0"
    using inv by (auto simp: cat_inv_def history_ok_def)
qed

lemma initial_health_commit:
  assumes "dm_limits m = default_data_limits" "dm_catalog m = cat" "dm_health m = []" "dm_commit_epoch m = 0"
    and "mr_catalog_generation rt = cst_generation cat" "cst_generation cat \<noteq> 0" "entity \<in> set (cst_entities cat)"
    and "cst_heartbeat cat \<noteq> None" "er_kind entity = EK_Device" "er_generation entity \<noteq> 0" "0 \<le> now"
    and "hc_limitation (mr_heartbeat rt) \<noteq> []" "length (hc_limitation (mr_heartbeat rt)) \<le> 16000"
  shows "hcr_status (fst (commitHealth (initial_health rt entity now) m)) = SUCCESS"
proof -
  let ?r = "initial_health rt entity now"
  have f: "hr_entity ?r = entity" "hr_catalog_generation ?r = mr_catalog_generation rt" "hr_evidence ?r = []"
    by (simp_all add: initial_health_def health_unknown_def default_health_result_def)
  have v: "validateHealthResult ?r = SUCCESS"
    using assms by (simp add: validateHealthResult_def initial_health_def health_unknown_def default_health_result_def
        isDeterminateHealth_def)
  have b: "healthResultBytes ?r \<le> 16384"
    using assms(13)
    by (simp add: healthResultBytes_def initial_health_def health_unknown_def default_health_result_def
        sizeof_HealthResult_def sizeof_HealthLimitation_def)
  then have "healthResultBytes ?r \<le> 128 * 1024" by simp
  then show ?thesis using assms f v b by (simp add: commitHealth_def Let_def ok_def default_data_limits_def)
qed

lemma next_runtime_single:
  assumes "cv_entities v = [e]" "CatalogView_capabilities (en_ref e) v = (SUCCESS, Some s)"
  shows "\<exists>rt. next_runtime v tc = Inr rt \<and> mr_entity rt = Some (en_ref e) \<and> mr_catalog_generation rt = cv_generation v"
  using assms by (simp add: next_runtime_def Let_def)

lemma next_runtime_empty:
  "cv_entities v = [] \<Longrightarrow> \<exists>rt. next_runtime v tc = Inr rt \<and> mr_entity rt = None \<and> mr_catalog_generation rt = cv_generation v"
  by (simp add: next_runtime_def Let_def default_metrics_runtime_def)

definition fresh_metrics :: "metrics_runtime \<Rightarrow> metrics_manager" where
  "fresh_metrics rt =
     \<lparr>mm_runtime = rt, mm_processors = [],
      mm_graph = \<lparr>gs_catalog_generation = mr_catalog_generation rt, gs_nodes = []\<rparr>\<rparr>"

lemma metrics_activate_fresh:
  assumes "TargetCatalog_validate tc = SUCCESS" "cv_generation v \<noteq> 0" "dm_generation m = cv_generation v"
    and "\<not> cv_topology_unsupported v" "next_runtime v tc = Inr rt" "mr_catalog_generation rt = cv_generation v"
  shows "metrics_activateCatalog (Some v) tc now (MetricsManager [], m) =
    (if list_ex (\<lambda>d. md_collection_mode d = CM_Derived) (tc_metrics tc) then (UNSUPPORTED, MetricsManager [], m)
     else case mr_entity rt of
       None \<Rightarrow> (SUCCESS, fresh_metrics rt, m)
     | Some entity \<Rightarrow> (hcr_status (fst (commitHealth (initial_health rt entity now) m)), fresh_metrics rt,
                       snd (commitHealth (initial_health rt entity now) m)))"
  using assms graph_without_processors [OF assms(1,2)]
  by (simp add: metrics_activateCatalog_def MetricsManager_def ok_def default_metrics_runtime_def fresh_metrics_def
      split: option.split prod.split)

lemma data_activate_fresh:
  assumes "TargetCatalog_validate tc = SUCCESS" "cv_generation v \<noteq> 0"
    and "\<And>e. e \<in> set (cv_entities v) \<Longrightarrow> en_target e = tc_target tc \<and> er_kind (en_ref e) = EK_Device \<and> er_generation (en_ref e) \<noteq> 0"
  obtains m where "DataManager_activateCatalog (Some v) tc (data_manager_start l) = (SUCCESS, m)"
    "dm_catalog m = next_catalog_state v tc" "dm_limits m = l" "dm_health m = []" "dm_commit_epoch m = 0"
proof -
  have "\<not> list_ex (\<lambda>e. en_target e \<noteq> tc_target tc \<or> er_kind (en_ref e) \<noteq> EK_Device \<or> er_generation (en_ref e) = 0) (cv_entities v)"
    using assms(3) by (auto simp: list_ex_iff)
  then show ?thesis
    using assms(1,2) that
    by (simp add: DataManager_activateCatalog_def ok_def Let_def data_manager_start_def default_catalog_state_def)
qed

text \<open>The components agree on the generation and on the device of the published view.\<close>

definition core_agrees :: "'p service_core \<Rightarrow> bool" where
  "core_agrees c \<longleftrightarrow>
    (let v = sc_snapshot (co_catalog c); rt = mm_runtime (co_metrics c)
     in cv_generation v \<noteq> 0 \<and> \<not> cv_topology_unsupported v \<and>
        dm_generation (co_data c) = cv_generation v \<and> cst_entities (dm_catalog (co_data c)) = map en_ref (cv_entities v) \<and>
        mr_catalog_generation rt = cv_generation v \<and>
        (case mr_entity rt of None \<Rightarrow> cv_entities v = [] | Some e \<Rightarrow> map en_ref (cv_entities v) = [e]))"

lemma provider_changed_catalog [simp]: "dm_catalog (snd (onProviderStateChanged st now mm m)) = dm_catalog m"
  by (cases "mr_entity (mm_runtime mm)") (simp_all add: onProviderStateChanged_def Let_def commitHealth_frame)

lemma activate_services_frame:
  assumes "activate_services P t3 t4 r c = ((st, s), c')"
  shows "co_catalog c' = co_catalog c" "co_config c' = co_config c" "co_provider c' = co_provider c"
    "co_target_catalog c' = co_target_catalog c" "co_snapshot c' = co_snapshot c"
    and "\<exists>ops. (co_metrics c', co_data c') = fold metrics_step ops (co_metrics c, co_data c)"
    and "cn_catalog_generation s = ccr_catalog_generation r" "cn_state s \<in> {CS_Ready, CS_Failed}"
    and "cn_state s = CS_Ready \<longleftrightarrow> st = SUCCESS"
proof -
  let ?v = "Some (sc_snapshot (co_catalog c))" and ?tc = "co_target_catalog c"
  let ?up = "[MM_data (DM_activateCatalog ?v ?tc), MM_activateCatalog ?v ?tc t3]"
  let ?ps = "MM_providerStateChanged (pm_state (co_provider c)) t4"
  obtain ds m where d: "DataManager_activateCatalog ?v ?tc (co_data c) = (ds, m)" by fastforce
  obtain ms mm m1 where mm: "metrics_activateCatalog ?v ?tc t3 (co_metrics c, m) = (ms, mm, m1)" by (metis surj_pair)
  note eq = assms [unfolded activate_services_def Let_def d split_conv mm]
  show "co_catalog c' = co_catalog c" "co_config c' = co_config c" "co_provider c' = co_provider c"
    "co_target_catalog c' = co_target_catalog c" "co_snapshot c' = co_snapshot c"
    "cn_catalog_generation s = ccr_catalog_generation r" "cn_state s \<in> {CS_Ready, CS_Failed}"
    "cn_state s = CS_Ready \<longleftrightarrow> st = SUCCESS"
    using eq by (auto simp: ok_def split: if_splits)
  have "(co_metrics c', co_data c') = fold metrics_step ?up (co_metrics c, co_data c) \<or>
      (co_metrics c', co_data c') = fold metrics_step (?up @ [?ps]) (co_metrics c, co_data c)"
    using eq by (auto simp: d mm split: if_splits)
  then show "\<exists>ops. (co_metrics c', co_data c') = fold metrics_step ops (co_metrics c, co_data c)" by blast
qed

text \<open>On fresh components, after a discovery of at most one device.\<close>

lemma activate_services_fresh:
  assumes com: "SemanticCatalog_commit d cat0 = (r, cat)" "ccr_committed r" "ccr_status r \<noteq> UNSUPPORTED" "cat_inv cat0"
    and c: "co_catalog c = cat" "co_target_catalog c = sc_target_catalog cat0"
      "co_data c = data_manager_start default_data_limits" "co_metrics c = MetricsManager []"
    and act: "activate_services P t3 t4 r c = ((st, s), c')"
  shows "st = SUCCESS \<Longrightarrow> core_agrees c'"
    and "0 \<le> t3 \<Longrightarrow> \<not> list_ex (\<lambda>d. md_collection_mode d = CM_Derived) (tc_metrics (co_target_catalog c)) \<Longrightarrow>
      length (hc_limitation (hd (tc_health (co_target_catalog c)))) \<le> 16000 \<Longrightarrow> st = SUCCESS"
proof -
  let ?v = "sc_snapshot cat" and ?tc = "co_target_catalog c"
  let ?derived = "list_ex (\<lambda>d. md_collection_mode d = CM_Derived) (tc_metrics ?tc)"
  have inv: "cat_inv cat" by (rule cat_inv_commit [OF com(4,1)])
  have tc: "TargetCatalog_validate ?tc = SUCCESS" using com(4) c(2) by (simp add: cat_inv_def)
  have gen: "cv_generation ?v \<noteq> 0" and topo: "\<not> cv_topology_unsupported ?v"
    using com(1) by (cases rule: commit_elim; use com(2,3) in \<open>simp add: inc_nonzero split: if_splits\<close>)+
  have es: "en_target e = tc_target ?tc \<and> er_kind (en_ref e) = EK_Device \<and> er_generation (en_ref e) \<noteq> 0"
    if "e \<in> set (cv_entities ?v)" for e
    using committed_view_entities [OF com(1,2,4) that] c(2) by simp
  obtain m where m: "DataManager_activateCatalog (Some ?v) ?tc (data_manager_start default_data_limits) = (SUCCESS, m)"
    "dm_catalog m = next_catalog_state ?v ?tc" "dm_limits m = default_data_limits" "dm_health m = []" "dm_commit_epoch m = 0"
    by (rule data_activate_fresh [OF tc gen es]) simp_all
  have cat: "cst_generation (next_catalog_state ?v ?tc) = cv_generation ?v"
    "cst_entities (next_catalog_state ?v ?tc) = map en_ref (cv_entities ?v)"
    "cst_heartbeat (next_catalog_state ?v ?tc) \<noteq> None"
    by (simp_all add: next_catalog_state_def Let_def)
  obtain rt where rt: "next_runtime ?v ?tc = Inr rt" "mr_catalog_generation rt = cv_generation ?v"
    "case mr_entity rt of None \<Rightarrow> cv_entities ?v = [] | Some e \<Rightarrow> map en_ref (cv_entities ?v) = [e]"
  proof (cases "cv_entities ?v")
    case Nil
    then show ?thesis using next_runtime_empty [OF Nil, of ?tc] that by auto
  next
    case (Cons e es)
    then have e: "e \<in> set (cv_entities ?v)" by simp
    then obtain cs where "CatalogView_capabilities (en_ref e) ?v = (SUCCESS, Some cs)" by (rule view_capabilities [OF inv])
    then show ?thesis
      using next_runtime_single [of ?v e cs ?tc] committed_view_entities(1) [OF com(1,2,4) e] that by auto
  qed
  have mm: "metrics_activateCatalog (Some ?v) ?tc t3 (MetricsManager [], m) =
    (if ?derived then (UNSUPPORTED, MetricsManager [], m)
     else case mr_entity rt of
       None \<Rightarrow> (SUCCESS, fresh_metrics rt, m)
     | Some entity \<Rightarrow> (hcr_status (fst (commitHealth (initial_health rt entity t3) m)), fresh_metrics rt,
                       snd (commitHealth (initial_health rt entity t3) m)))"
    using metrics_activate_fresh [OF tc gen _ topo rt(1,2)] cat(1) by (simp add: m(2))
  note eq = act [unfolded activate_services_def Let_def c(1,3,4) m(1) split_conv mm]
  show "core_agrees c'" if "st = SUCCESS"
  proof -
    have "co_catalog c' = cat \<and> dm_catalog (co_data c') = next_catalog_state ?v ?tc \<and> co_metrics c' = fresh_metrics rt"
      using eq that c(1)
      by (cases "mr_entity rt") (auto simp: ok_def commitHealth_frame m(2) split: if_splits)
    then show ?thesis using gen topo rt(2,3) cat by (simp add: core_agrees_def fresh_metrics_def)
  qed
  show "st = SUCCESS" if "0 \<le> t3" "\<not> ?derived" "length (hc_limitation (hd (tc_health ?tc))) \<le> 16000"
  proof (cases "mr_entity rt")
    case None
    then show ?thesis using eq that(2) by (simp add: ok_def)
  next
    case (Some entity)
    then obtain e where e: "e \<in> set (cv_entities ?v)" "entity = en_ref e" using rt(3) by (auto simp: map_eq_Cons_conv)
    have "hcr_status (fst (commitHealth (initial_health rt entity t3) m)) = SUCCESS"
      using m cat rt(2) gen es [OF e(1)] e that(1,3) health_limitation [OF tc] next_runtime_heartbeat [OF rt(1)]
      by (intro initial_health_commit [OF m(3,2,4,5)]) simp_all
    then show ?thesis using eq that(2) Some by (simp add: ok_def)
  qed
qed

section \<open>Executions\<close>

lemma start_run_elim:
  assumes "start_run P t1 t2 t3 t4 c = ((st, s), c')"
  obtains (config) "RuntimeConfig_validate (co_config c) \<noteq> SUCCESS" "st = RuntimeConfig_validate (co_config c)"
      "cn_state s = CS_Failed" "c' = c"
  | (degraded) pm cat where "st = SUCCESS" "cn_state s = CS_Degraded" "c' = c\<lparr>co_provider := pm, co_catalog := cat\<rparr>"
      "cat = co_catalog c \<or> (\<exists>d r. SemanticCatalog_commit d (co_catalog c) = (r, cat))"
  | (services) pm d r cat where "SemanticCatalog_commit d (co_catalog c) = (r, cat)" "ccr_committed r"
      "ccr_status r \<noteq> UNSUPPORTED"
      "activate_services P t3 t4 r (c\<lparr>co_provider := pm, co_catalog := cat\<rparr>) = ((st, s), c')"
proof -
  let ?timeout = "rc_provider_call_timeout (co_config c) * 1000000"
  obtain ist pm1 where i: "ProviderManager_initialize P \<lparr>po_target = rc_target (co_config c), po_deadline = t1 + ?timeout\<rparr>
      (co_provider c) = (ist, pm1)" by fastforce
  obtain disc pm2 where d: "ProviderManager_discover P (t2 + ?timeout) pm1 = (disc, pm2)" by fastforce
  obtain r cat where k: "SemanticCatalog_commit (pdr_descriptor disc) (co_catalog c) = (r, cat)" by fastforce
  have same: "c\<lparr>co_provider := p\<rparr> = c\<lparr>co_provider := p, co_catalog := co_catalog c\<rparr>" for p by simp
  note eq = assms [unfolded start_run_def Let_def i d split_conv, simplified k, simplified]
  consider "RuntimeConfig_validate (co_config c) \<noteq> SUCCESS"
    | "RuntimeConfig_validate (co_config c) = SUCCESS" "\<not> status_ok ist"
    | "RuntimeConfig_validate (co_config c) = SUCCESS" "status_ok ist" "\<not> status_ok (pdr_call_status disc)"
    | "RuntimeConfig_validate (co_config c) = SUCCESS" "status_ok ist" "status_ok (pdr_call_status disc)"
      "\<not> ccr_committed r \<or> ccr_status r = UNSUPPORTED"
    | "RuntimeConfig_validate (co_config c) = SUCCESS" "status_ok ist" "status_ok (pdr_call_status disc)"
      "ccr_committed r" "ccr_status r \<noteq> UNSUPPORTED"
    by blast
  then show ?thesis
  proof cases
    case 1
    then show ?thesis using eq by (intro config) (auto simp: ok_def)
  next
    case 2
    then show ?thesis using eq by (intro degraded [of "co_catalog c" pm1]) (auto simp: ok_def)
  next
    case 3
    then show ?thesis using eq by (intro degraded [of "co_catalog c" pm2]) (auto simp: ok_def)
  next
    case 4
    then show ?thesis using eq k by (intro degraded [of cat pm2]) (auto simp: ok_def split: if_splits)
  next
    case 5
    then show ?thesis using eq k by (intro services [of "pdr_descriptor disc" r cat pm2]) (auto simp: ok_def)
  qed
qed

datatype core_op = CO_start i64 i64 i64 i64 | CO_stop

primrec core_step :: "'p provider_ops \<Rightarrow> core_op \<Rightarrow> 'p service_core \<Rightarrow> 'p service_core" where
  "core_step P (CO_start t1 t2 t3 t4) c = snd (core_start P t1 t2 t3 t4 c)"
| "core_step P CO_stop c = snd (core_stop P c)"

definition core_fresh :: "'p service_core \<Rightarrow> bool" where
  "core_fresh c \<longleftrightarrow> co_data c = data_manager_start default_data_limits \<and> co_metrics c = MetricsManager []"

definition core_inv :: "'p service_core \<Rightarrow> bool" where
  "core_inv c \<longleftrightarrow>
     cat_inv (co_catalog c) \<and> sc_target_catalog (co_catalog c) = co_target_catalog c \<and>
     metrics_inv (co_metrics c, co_data c) \<and>
     (cn_state (co_snapshot c) = CS_Created \<longrightarrow> core_fresh c) \<and>
     (cn_state (co_snapshot c) = CS_Ready \<longrightarrow> core_agrees c \<and> cn_catalog_generation (co_snapshot c) = cv_generation (sc_snapshot (co_catalog c))) \<and>
     (cn_state (co_snapshot c) = CS_Stopped \<longrightarrow> pm_state (co_provider c) = PS_Shutdown) \<and>
     cn_state (co_snapshot c) \<notin> {CS_Starting, CS_Stopping}"

lemma core_agrees_publish [simp]: "core_agrees (core_publish s c) \<longleftrightarrow> core_agrees c"
  by (simp add: core_agrees_def core_publish_def)

lemma metrics_inv_fold: "metrics_inv s \<Longrightarrow> metrics_inv (fold metrics_step ops s)"
  by (induction ops arbitrary: s) (simp_all add: metrics_inv_step)

lemma commit_target: "SemanticCatalog_commit d c = (r, c') \<Longrightarrow> sc_target_catalog c' = sc_target_catalog c"
  using cat_step_target [of d c] by (simp add: cat_step_def)

lemma core_inv_start:
  assumes inv: "core_inv c" and "core_start P t1 t2 t3 t4 c = (st, c')"
  shows "core_inv c'"
proof (cases "start_begin c")
  case None
  then show ?thesis using assms by (simp add: core_start_def)
next
  case (Some c0)
  then have created: "cn_state (co_snapshot c) = CS_Created" and c0: "c0 = c\<lparr>co_snapshot := (co_snapshot c)\<lparr>cn_state := CS_Starting\<rparr>\<rparr>"
    by (auto simp: start_begin_def split: if_splits)
  obtain s c1 where run: "start_run P t1 t2 t3 t4 c0 = ((st, s), c1)" and c': "c' = core_publish s c1"
    using assms(2) Some by (auto simp: core_start_def Let_def split: prod.splits)
  have old: "cat_inv (co_catalog c0)" "sc_target_catalog (co_catalog c0) = co_target_catalog c0"
      "metrics_inv (co_metrics c0, co_data c0)" "core_fresh c0"
    using inv created metrics_inv_start [OF default_data_limits_ok, of "[]"]
    unfolding core_inv_def c0 core_fresh_def by simp_all
  from run show ?thesis
  proof (cases rule: start_run_elim)
    case config
    then show ?thesis using old by (simp add: c' core_inv_def core_publish_def)
  next
    case (degraded pm cat)
    then have "cat_inv cat" "sc_target_catalog cat = co_target_catalog c0"
      using old(1,2) cat_inv_commit commit_target by metis+
    then show ?thesis using degraded old by (simp add: c' core_inv_def core_publish_def)
  next
    case (services pm d r cat)
    let ?c = "c0\<lparr>co_provider := pm, co_catalog := cat\<rparr>"
    note frame = activate_services_frame [OF services(4)]
    have agree: "st = SUCCESS \<Longrightarrow> core_agrees c1"
      using activate_services_fresh(1) [OF services(1-3) old(1) _ _ _ _ services(4)] old by (simp add: core_fresh_def)
    have "metrics_inv (co_metrics c1, co_data c1)" using frame(6) metrics_inv_fold [OF old(3)] by auto
    moreover have "cat_inv cat" "sc_target_catalog cat = co_target_catalog c0"
      using old(1,2) cat_inv_commit [OF _ services(1)] commit_target [OF services(1)] by auto
    ultimately show ?thesis
      using frame agree commit_result_generation [OF services(1)]
      by (auto simp: c' core_inv_def core_publish_def core_agrees_def)
  qed
qed

lemma core_inv_stop: "core_inv c \<Longrightarrow> core_inv (snd (core_stop P c))"
  by (auto simp: core_stop_def stop_begin_def core_inv_def core_publish_def stopped_snapshot_def shutdown_state)

lemma core_inv_step: "core_inv c \<Longrightarrow> core_inv (core_step P op c)"
proof (cases op)
  case (CO_start t1 t2 t3 t4)
  assume "core_inv c"
  then show ?thesis using core_inv_start [of c P t1 t2 t3 t4 "fst (core_start P t1 t2 t3 t4 c)"] by (simp add: CO_start)
qed (simp add: core_inv_stop)

definition core_initial :: "runtime_config \<Rightarrow> 'p \<Rightarrow> target_catalog \<Rightarrow> 'p service_core" where
  "core_initial config p tc =
     \<lparr>co_config = config, co_provider = ProviderManager p, co_target_catalog = tc, co_catalog = catalog_start tc,
      co_data = data_manager_start default_data_limits, co_metrics = MetricsManager [],
      co_snapshot = default_core_snapshot\<rparr>"

lemma core_inv_initial: "TargetCatalog_validate tc = SUCCESS \<Longrightarrow> core_inv (core_initial config p tc)"
  using cat_inv_init [of tc] metrics_inv_start [OF default_data_limits_ok, of "[]"]
  by (simp add: core_inv_def core_initial_def core_fresh_def default_core_snapshot_def catalog_start_def)

interpretation sc: component "core_initial config p tc" "core_step P"
  "\<lambda>c. TargetCatalog_validate tc = SUCCESS \<longrightarrow> core_inv c" for config p tc P
  by unfold_locales (auto simp: core_inv_initial core_inv_step)

definition core_reachable ::
  "'p provider_ops \<Rightarrow> runtime_config \<Rightarrow> 'p \<Rightarrow> target_catalog \<Rightarrow> core_op list \<Rightarrow> 'p service_core option" where
  "core_reachable P config p tc ops = map_option (fold (core_step P) ops) (PdcmServiceCore config p tc)"

lemma PdcmServiceCore_Some:
  "PdcmServiceCore config p tc = Some c \<longleftrightarrow> TargetCatalog_validate tc = SUCCESS \<and> c = core_initial config p tc"
  by (auto simp: PdcmServiceCore_def SemanticCatalog_def core_initial_def ok_def)

lemma core_reachable_inv: "core_reachable P config p tc ops = Some c \<Longrightarrow> core_inv c"
  using sc.inv_reach [of tc P ops config p] by (auto simp: core_reachable_def PdcmServiceCore_Some)

section \<open>Starting, serving, stopping\<close>

lemma stopped_step: "cn_state (co_snapshot c) = CS_Stopped \<Longrightarrow> core_step P op c = c"
  by (cases op) (simp_all add: core_start_def core_stop_def start_begin_def stop_begin_def)

lemma stopped_fold: "cn_state (co_snapshot c) = CS_Stopped \<Longrightarrow> fold (core_step P) ops c = c"
  by (induction ops) (simp_all add: stopped_step)

lemma stop_stops: "cn_state (co_snapshot (snd (core_stop P c))) = CS_Stopped"
  by (auto simp: core_stop_def stop_begin_def core_publish_def stopped_snapshot_def)

lemma query_answered:
  assumes "mr_entity (mm_runtime mm) = Some (hq_entity q)" "mr_catalog_generation (mm_runtime mm) \<noteq> 0"
    and "hq_catalog_generation q \<in> {0, mr_catalog_generation (mm_runtime mm)}" "0 \<le> now"
  shows "hqr_status (queryHealth q now mm m) \<in> {SUCCESS, PARTIAL_RESULT}" "hqr_item (queryHealth q now mm m) \<noteq> None"
  using assms by (auto simp: queryHealth_def Let_def)

text \<open>The outcomes of the provider calls of a start, one after the other.\<close>

definition start_discovery ::
  "'p provider_ops \<Rightarrow> i64 \<Rightarrow> i64 \<Rightarrow> 'p service_core \<Rightarrow> status \<times> provider_discovery_result" where
  "start_discovery P t1 t2 c =
    (let timeout = rc_provider_call_timeout (co_config c) * 1000000;
         (st, pm) = ProviderManager_initialize P \<lparr>po_target = rc_target (co_config c), po_deadline = t1 + timeout\<rparr>
                      (co_provider c)
     in (st, fst (ProviderManager_discover P (t2 + timeout) pm)))"

lemma start_run_services:
  assumes "RuntimeConfig_validate (co_config c) = SUCCESS" "start_discovery P t1 t2 c = (st, discovery)" "status_ok st"
    and "status_ok (pdr_call_status discovery)" "SemanticCatalog_commit (pdr_descriptor discovery) (co_catalog c) = (r, cat)"
    and "ccr_committed r" "ccr_status r \<noteq> UNSUPPORTED"
  obtains pm where "start_run P t1 t2 t3 t4 c = activate_services P t3 t4 r (c\<lparr>co_provider := pm, co_catalog := cat\<rparr>)"
proof -
  let ?timeout = "rc_provider_call_timeout (co_config c) * 1000000"
  obtain pm1 where i: "ProviderManager_initialize P \<lparr>po_target = rc_target (co_config c), po_deadline = t1 + ?timeout\<rparr>
      (co_provider c) = (st, pm1)"
    using assms(2) by (auto simp: start_discovery_def Let_def split: prod.splits)
  then obtain pm2 where "ProviderManager_discover P (t2 + ?timeout) pm1 = (discovery, pm2)"
    using assms(2) by (cases "ProviderManager_discover P (t2 + ?timeout) pm1") (auto simp: start_discovery_def Let_def)
  then show ?thesis using assms i that [of pm2] by (simp add: start_run_def Let_def ok_def)
qed

section \<open>A stop during a start\<close>

text \<open>
  Two threads, one in \<open>start\<close> and one in \<open>stop\<close>, between the regions that the lock of the state
  protects. The component calls of \<open>start\<close> are one step here, which is one of their schedules.
\<close>

datatype start_pc = SP_Idle | SP_Calling | SP_Publishing pdcm_status core_snapshot | SP_Returned pdcm_status

datatype stop_pc = TP_Idle | TP_ShuttingDown | TP_Returned

record 'p core_system =
  ct_core :: "'p service_core"
  ct_start :: start_pc
  ct_stop :: stop_pc

inductive core_race :: "'p provider_ops \<Rightarrow> 'p core_system \<Rightarrow> 'p core_system \<Rightarrow> bool" for P where
  start_claims: "ct_start s = SP_Idle \<Longrightarrow> start_begin (ct_core s) = Some c \<Longrightarrow>
    core_race P s (s\<lparr>ct_core := c, ct_start := SP_Calling\<rparr>)"
| start_calls: "ct_start s = SP_Calling \<Longrightarrow> start_run P t1 t2 t3 t4 (ct_core s) = ((st, snap), c) \<Longrightarrow>
    core_race P s (s\<lparr>ct_core := c, ct_start := SP_Publishing st snap\<rparr>)"
| start_publishes: "ct_start s = SP_Publishing st snap \<Longrightarrow>
    core_race P s (s\<lparr>ct_core := core_publish snap (ct_core s), ct_start := SP_Returned st\<rparr>)"
| stop_claims: "ct_stop s = TP_Idle \<Longrightarrow> stop_begin (ct_core s) = Some c \<Longrightarrow>
    core_race P s (s\<lparr>ct_core := c, ct_stop := TP_ShuttingDown\<rparr>)"
| stop_publishes: "ct_stop s = TP_ShuttingDown \<Longrightarrow>
    core_race P s (s\<lparr>ct_core := core_publish stopped_snapshot
      ((ct_core s)\<lparr>co_provider := ProviderManager_shutdown P (co_provider (ct_core s))\<rparr>), ct_stop := TP_Returned\<rparr>)"

definition core_threads :: "'p service_core \<Rightarrow> 'p core_system" where
  "core_threads c = \<lparr>ct_core = c, ct_start = SP_Idle, ct_stop = TP_Idle\<rparr>"

lemma race_steps_Cons: "core_race P s s' \<Longrightarrow> (core_race P)\<^sup>*\<^sup>* s' s'' \<Longrightarrow> (core_race P)\<^sup>*\<^sup>* s s''"
  by (rule converse_rtranclp_into_rtranclp)

lemma start_run_keeps_snapshot:
  assumes "start_run P t1 t2 t3 t4 c = ((st, s), c')" shows "co_snapshot c' = co_snapshot c"
  using assms
proof (cases rule: start_run_elim)
  case (services pm d r cat)
  then show ?thesis using activate_services_frame(5) [OF services(4)] by simp
qed simp_all

lemma overtaken_run:
  assumes "cn_state (co_snapshot c) = CS_Created"
    and run: "start_run P t1 t2 t3 t4 (c\<lparr>co_snapshot := (co_snapshot c)\<lparr>cn_state := CS_Starting\<rparr>\<rparr>) = ((st, snap), c1)"
  shows "\<exists>s. (core_race P)\<^sup>*\<^sup>* (core_threads c) s \<and> ct_stop s = TP_Returned \<and> ct_start s = SP_Returned st \<and>
    co_snapshot (ct_core s) = snap \<and> pm_state (co_provider (ct_core s)) = PS_Shutdown"
proof -
  let ?c0 = "c\<lparr>co_snapshot := (co_snapshot c)\<lparr>cn_state := CS_Starting\<rparr>\<rparr>"
  let ?c2 = "c1\<lparr>co_snapshot := (co_snapshot c1)\<lparr>cn_state := CS_Stopping\<rparr>\<rparr>"
  let ?c3 = "core_publish stopped_snapshot (?c2\<lparr>co_provider := ProviderManager_shutdown P (co_provider ?c2)\<rparr>)"
  let ?s = "\<lambda>core a b. \<lparr>ct_core = core, ct_start = a, ct_stop = b\<rparr>"
  have c1: "cn_state (co_snapshot c1) = CS_Starting" using start_run_keeps_snapshot [OF run] by simp
  have 1: "core_race P (core_threads c) (?s ?c0 SP_Calling TP_Idle)"
    using start_claims [of "core_threads c" ?c0 P] assms(1) by (simp add: core_threads_def start_begin_def)
  have 2: "core_race P (?s ?c0 SP_Calling TP_Idle) (?s c1 (SP_Publishing st snap) TP_Idle)"
    using start_calls [of "?s ?c0 SP_Calling TP_Idle" P t1 t2 t3 t4 st snap c1] run by simp
  have 3: "core_race P (?s c1 (SP_Publishing st snap) TP_Idle) (?s ?c2 (SP_Publishing st snap) TP_ShuttingDown)"
    using stop_claims [of "?s c1 (SP_Publishing st snap) TP_Idle" ?c2 P] c1 by (simp add: stop_begin_def)
  have 4: "core_race P (?s ?c2 (SP_Publishing st snap) TP_ShuttingDown) (?s ?c3 (SP_Publishing st snap) TP_Returned)"
    using stop_publishes [of "?s ?c2 (SP_Publishing st snap) TP_ShuttingDown" P] by simp
  have 5: "core_race P (?s ?c3 (SP_Publishing st snap) TP_Returned) (?s (core_publish snap ?c3) (SP_Returned st) TP_Returned)"
    using start_publishes [of "?s ?c3 (SP_Publishing st snap) TP_Returned" st snap P] by simp
  have "(core_race P)\<^sup>*\<^sup>* (core_threads c) (?s (core_publish snap ?c3) (SP_Returned st) TP_Returned)"
    by (rule race_steps_Cons [OF 1], rule race_steps_Cons [OF 2], rule race_steps_Cons [OF 3], rule race_steps_Cons [OF 4],
        rule race_steps_Cons [OF 5], rule rtranclp.rtrancl_refl)
  then show ?thesis
    by (intro exI [of _ "?s (core_publish snap ?c3) (SP_Returned st) TP_Returned"])
      (simp add: core_publish_def shutdown_state)
qed

lemma start_run_early:
  assumes "start_discovery P t1 t2 c = (ist, discovery)"
    and "SemanticCatalog_commit (pdr_descriptor discovery) (co_catalog c) = (r, cat)"
    and "\<not> (RuntimeConfig_validate (co_config c) = SUCCESS \<and> status_ok ist \<and> status_ok (pdr_call_status discovery) \<and>
      ccr_committed r \<and> ccr_status r \<noteq> UNSUPPORTED)"
    and "start_run P t1 t2 t3 t4 c = ((st, s), c')"
  shows "cn_state s = (if st = SUCCESS then CS_Degraded else CS_Failed)"
proof -
  let ?timeout = "rc_provider_call_timeout (co_config c) * 1000000"
  obtain pm1 where i: "ProviderManager_initialize P \<lparr>po_target = rc_target (co_config c), po_deadline = t1 + ?timeout\<rparr>
      (co_provider c) = (ist, pm1)"
    using assms(1) by (auto simp: start_discovery_def Let_def split: prod.splits)
  then obtain pm2 where d: "ProviderManager_discover P (t2 + ?timeout) pm1 = (discovery, pm2)"
    using assms(1) by (cases "ProviderManager_discover P (t2 + ?timeout) pm1") (auto simp: start_discovery_def Let_def)
  note eq = assms(4) [unfolded start_run_def Let_def i d split_conv]
  show ?thesis using eq assms(2,3) by (auto simp: ok_def split: if_splits)
qed

section \<open>Properties\<close>

text \<open>The concrete input of the witnesses: a core on the scripted provider with one device.\<close>

definition mock_config :: runtime_config where
  "mock_config = \<lparr>rc_target = TK_Fpga, rc_limits = default_limits, rc_provider_call_timeout = 1000, rc_shutdown_grace = 5000\<rparr>"

definition mock_device :: mock_provider where
  "mock_device = mock_provider_start \<lparr>mc_scenario = MS_SingleDevice, mc_heartbeat = MH_Normal, mc_target = TK_Fpga\<rparr>"

definition mock_core :: "mock_provider service_core" where
  "mock_core = core_initial mock_config mock_device (defaultCatalog TK_Fpga)"

definition mock_started :: "mock_provider service_core" where
  "mock_started = snd (core_start (MockProvider 5) 5 5 5 5 mock_core)"

lemma mock_core_constructed: "PdcmServiceCore mock_config mock_device (defaultCatalog TK_Fpga) = Some mock_core"
  by (simp add: PdcmServiceCore_Some mock_core_def defaultCatalog_def TargetCatalog_blocked_valid)

lemma mock_started_reachable:
  "core_reachable (MockProvider 5) mock_config mock_device (defaultCatalog TK_Fpga) [CO_start 5 5 5 5] = Some mock_started"
  by (simp add: core_reachable_def mock_core_constructed mock_started_def)

text \<open>
  Starting a core ends ready exactly when it can. For any provider, and a target catalog
  without derived metrics (the core registers no processors) and with a short limitation text,
  \<open>start\<close> succeeds exactly when it publishes ready or degraded; it publishes ready exactly when
  the configuration is valid, the provider initializes and discovers, and the catalog accepts
  at most one device. Activating the data and metrics services then never fails.
\<close>

theorem core_start_ready_iff:
  assumes "PdcmServiceCore config p tc = Some c" "0 \<le> t3"
    and "\<not> list_ex (\<lambda>d. md_collection_mode d = CM_Derived) (tc_metrics tc)" "length (hc_limitation (hd (tc_health tc))) \<le> 16000"
    and "start_discovery P t1 t2 c = (ist, discovery)"
    and "SemanticCatalog_commit (pdr_descriptor discovery) (catalog_start tc) = (r, cat)"
    and "core_start P t1 t2 t3 t4 c = (st, c')"
  shows "(st = SUCCESS \<longleftrightarrow> cn_state (co_snapshot c') \<in> {CS_Ready, CS_Degraded}) \<and>
    (cn_state (co_snapshot c') = CS_Ready \<longleftrightarrow>
       RuntimeConfig_validate config = SUCCESS \<and> status_ok ist \<and> status_ok (pdr_call_status discovery) \<and>
       ccr_committed r \<and> ccr_status r \<noteq> UNSUPPORTED)"
proof -
  let ?c0 = "c\<lparr>co_snapshot := (co_snapshot c)\<lparr>cn_state := CS_Starting\<rparr>\<rparr>"
  have c: "c = core_initial config p tc" and tc: "TargetCatalog_validate tc = SUCCESS"
    using assms(1) by (simp_all add: PdcmServiceCore_Some)
  obtain s c1 where run: "start_run P t1 t2 t3 t4 ?c0 = ((st, s), c1)" and c': "co_snapshot c' = s"
    using assms(7)
    by (auto simp: core_start_def start_begin_def c core_initial_def default_core_snapshot_def core_publish_def split: prod.splits)
  have disc: "start_discovery P t1 t2 ?c0 = (ist, discovery)" using assms(5) by (simp add: start_discovery_def)
  have fields: "co_config ?c0 = config" "co_catalog ?c0 = catalog_start tc" "co_target_catalog ?c0 = tc"
    "co_data ?c0 = data_manager_start default_data_limits" "co_metrics ?c0 = MetricsManager []"
    by (simp_all add: c core_initial_def)
  show ?thesis
  proof (cases "RuntimeConfig_validate config = SUCCESS \<and> status_ok ist \<and> status_ok (pdr_call_status discovery) \<and>
      ccr_committed r \<and> ccr_status r \<noteq> UNSUPPORTED")
    case True
    with assms(6) obtain pm where "start_run P t1 t2 t3 t4 ?c0 = activate_services P t3 t4 r (?c0\<lparr>co_provider := pm, co_catalog := cat\<rparr>)"
      using start_run_services [OF _ disc, of r cat t3 t4 thesis] fields by auto
    with run have act: "activate_services P t3 t4 r (?c0\<lparr>co_provider := pm, co_catalog := cat\<rparr>) = ((st, s), c1)" by simp
    have "st = SUCCESS"
      using activate_services_fresh(2) [OF assms(6) _ _ cat_inv_init [OF tc] _ _ _ _ act] True assms(2-4) fields
      by (simp add: catalog_start_def)
    then show ?thesis using activate_services_frame(9) [OF act] True by (simp add: c')
  next
    case False
    then show ?thesis using start_run_early [OF disc, of r cat t3 t4 st s c1] run fields assms(6) by (auto simp: c')
  qed
qed

text \<open>
  C13: A ready core is consistent and serves. Whatever starts and stops led there, in the ready
  state the published view, the data manager and the metrics manager carry one generation and
  one device or none, no unsupported topology; the device can be listed, its capabilities and
  its health are answered for every request of that generation.
\<close>

theorem core_ready_serves:
  assumes "core_reachable P config p tc ops = Some c" "cn_state (co_snapshot c) = CS_Ready"
  shows "core_agrees c \<and> el_status (core_entities EK_Device c) \<in> {SUCCESS, PARTIAL_RESULT} \<and>
    el_entities (core_entities EK_Device c) = cv_entities (sc_snapshot (co_catalog c)) \<and>
    (\<forall>e \<in> set (cv_entities (sc_snapshot (co_catalog c))).
       fst (core_capabilities (en_ref e) c) = SUCCESS \<and>
       (\<forall>q now. hq_entity q = en_ref e \<and> hq_catalog_generation q \<in> {0, cn_catalog_generation (co_snapshot c)} \<and> 0 \<le> now \<longrightarrow>
          hqr_status (core_health q now c) \<in> {SUCCESS, PARTIAL_RESULT} \<and> hqr_item (core_health q now c) \<noteq> None))"
proof -
  let ?v = "sc_snapshot (co_catalog c)"
  have inv: "core_inv c" by (rule core_reachable_inv [OF assms(1)])
  then have agree: "core_agrees c" "cn_catalog_generation (co_snapshot c) = cv_generation ?v" "cat_inv (co_catalog c)"
    using assms(2) by (simp_all add: core_inv_def)
  then have v: "cv_generation ?v \<noteq> 0" "\<not> cv_topology_unsupported ?v" by (simp_all add: core_agrees_def Let_def)
  have serve: "serving (cn_state (co_snapshot c))" using assms(2) by (simp add: serving_def)
  have "fst (core_capabilities (en_ref e) c) = SUCCESS \<and>
      (\<forall>q now. hq_entity q = en_ref e \<and> hq_catalog_generation q \<in> {0, cn_catalog_generation (co_snapshot c)} \<and> 0 \<le> now \<longrightarrow>
          hqr_status (core_health q now c) \<in> {SUCCESS, PARTIAL_RESULT} \<and> hqr_item (core_health q now c) \<noteq> None)"
    if e: "e \<in> set (cv_entities ?v)" for e
  proof -
    obtain s where "CatalogView_capabilities (en_ref e) ?v = (SUCCESS, Some s)" by (rule view_capabilities [OF agree(3) e])
    moreover have "mr_entity (mm_runtime (co_metrics c)) = Some (en_ref e)" "mr_catalog_generation (mm_runtime (co_metrics c)) = cv_generation ?v"
      using agree(1) e by (auto simp: core_agrees_def Let_def split: option.splits)
    ultimately show ?thesis
      using query_answered [of "co_metrics c"] v(1) serve agree(2)
      by (auto simp: core_capabilities_def core_health_def Let_def)
  qed
  moreover have "core_entities EK_Device c = CatalogView_list EK_Device ?v"
    using serve v(1) by (simp add: core_entities_def Let_def)
  ultimately show ?thesis using agree(1) v(2) by (auto simp: CatalogView_list_def Let_def)
qed

theorem core_ready_serves_witness:
  "cn_state (co_snapshot mock_started) = CS_Ready \<and> core_agrees mock_started \<and>
   length (el_entities (core_entities EK_Device mock_started)) = 1"
proof -
  have "cn_state (co_snapshot mock_started) = CS_Ready \<and> length (cv_entities (sc_snapshot (co_catalog mock_started))) = 1"
    by code_simp
  then show ?thesis using core_ready_serves [OF mock_started_reachable] by simp
qed

text \<open>
  Stopping is final for callers in sequence: after \<open>stop\<close> any later starts and stops leave the
  whole core unchanged, its provider is shut down, and every request is refused.
\<close>

theorem core_stop_final:
  assumes "core_reachable P config p tc ops = Some c"
  shows "let c' = snd (core_stop P c) in fold (core_step P) later c' = c' \<and>
    pm_state (co_provider c') = PS_Shutdown \<and> el_status (core_entities kind c') = NOT_INITIALIZED \<and>
    core_capabilities entity c' = (NOT_INITIALIZED, None) \<and> hqr_status (core_health q now c') = NOT_INITIALIZED"
proof -
  have "core_inv (snd (core_stop P c))" by (rule core_inv_stop [OF core_reachable_inv [OF assms]])
  then have "pm_state (co_provider (snd (core_stop P c))) = PS_Shutdown" using stop_stops [of P c] by (simp add: core_inv_def)
  then show ?thesis
    using stop_stops [of P c] stopped_fold [of "snd (core_stop P c)" P later]
    by (simp add: Let_def core_entities_def core_capabilities_def core_health_def serving_def)
qed

text \<open>
  C36: A stop that overtakes a running start is undone. \<open>start\<close> publishes its outcome without
  looking at the state again: when \<open>stop\<close> runs between the component calls of \<open>start\<close> and that
  publication, \<open>stop\<close> has returned and the provider is shut down, and yet the core ends in the
  state the start had computed, ready or degraded, and serves requests.
\<close>

theorem stop_during_start_undone:
  assumes "PdcmServiceCore config p tc = Some c"
    and "start_run P t1 t2 t3 t4 (c\<lparr>co_snapshot := (co_snapshot c)\<lparr>cn_state := CS_Starting\<rparr>\<rparr>) = ((SUCCESS, snap), c1)"
  shows "\<exists>s. (core_race P)\<^sup>*\<^sup>* (core_threads c) s \<and> ct_stop s = TP_Returned \<and> ct_start s = SP_Returned SUCCESS \<and>
    serving (cn_state (co_snapshot (ct_core s))) \<and> pm_state (co_provider (ct_core s)) = PS_Shutdown"
proof -
  have "cn_state snap \<in> {CS_Ready, CS_Degraded}"
    using assms(2)
  proof (cases rule: start_run_elim)
    case (services pm d r cat)
    then show ?thesis using activate_services_frame(8,9) [OF services(4)] by auto
  qed simp_all
  moreover have "cn_state (co_snapshot c) = CS_Created"
    using assms(1) by (simp add: PdcmServiceCore_Some core_initial_def default_core_snapshot_def)
  ultimately show ?thesis using overtaken_run [OF _ assms(2)] by (auto simp: serving_def)
qed

theorem stop_during_start_undone_witness:
  "\<exists>s. (core_race (MockProvider 5))\<^sup>*\<^sup>* (core_threads mock_core) s \<and> ct_stop s = TP_Returned \<and>
     serving (cn_state (co_snapshot (ct_core s)))"
proof -
  let ?run = "start_run (MockProvider 5) 5 5 5 5 (mock_core\<lparr>co_snapshot := (co_snapshot mock_core)\<lparr>cn_state := CS_Starting\<rparr>\<rparr>)"
  have "fst (fst ?run) = SUCCESS" by code_simp
  then have "?run = ((SUCCESS, snd (fst ?run)), snd ?run)" by (metis prod.collapse)
  from stop_during_start_undone [OF mock_core_constructed this] show ?thesis by blast
qed

end
