(* ===== verification/Spec2Isabelle.thy ===== *)
theory Spec2Isabelle
  imports Session Query Collection_Commit Collection_Runtime DataStore_Health Subscription_Order Subscription_Close Frames Counter_Processor Watches Service_Core
begin

text \<open>
  A verification development for PDCM, a device monitoring service written in C++: a daemon that
  discovers one device through a provider, publishes a catalog of entities and capabilities,
  collects metric observations and firmware heartbeats, derives metrics and health from them, and
  serves clients over a local socket. Paths below are relative to \<open>src/product/src\<close> unless they
  say otherwise.

  \<^bold>\<open>The program.\<close> A provider (\<open>provider/\<close>) reads the hardware. The service core
  (\<open>core/service_core\<close>) starts it through the provider manager, feeds what it discovers to the
  semantic catalog (\<open>semantic/\<close>), and activates the published view in the data manager (\<open>data/\<close>),
  which stores observations, heartbeat evidence and health results and publishes an event for each
  change. The metrics manager (\<open>metrics/\<close>) turns evidence into health; processors derive metrics
  from observations. Clients register watches (\<open>collection/watch_manager\<close>); the collection
  coordinator compiles the merged watches into a plan of jobs, runs them when they are due and
  commits what the provider returns. Queries (\<open>data/query_engine\<close>) and subscriptions
  (\<open>data/subscription_manager\<close>) read the data manager. Sessions (\<open>core/session_manager\<close>) limit
  clients; frames (\<open>ipc/frame\<close>) carry their requests.

  \<^bold>\<open>How code becomes definitions.\<close>
  \<^item> A class is a record of its fields, an enum a datatype, a method a function from the arguments
    and the state to the result and the new state; a method that returns a status and may leave the
    state changed returns both on every branch. Names are those of the code.
  \<^item> Unsigned machine integers are words and wrap; \<open>int64\<close> is \<open>int\<close>, converted with \<open>to_u64\<close> and
    \<open>to_i64\<close>; \<open>size_t\<close> is \<open>nat\<close>, with \<open>szsub\<close> where a difference may wrap. A \<open>double\<close> is the
    rational it stands for; where the code computes with doubles each operation is rounded as IEEE
    754 says (\<open>Doubles\<close>).
  \<^item> A \<open>std::map\<close> is an association list sorted by key, so that iteration order is the code's.
  \<^item> Clock readings are arguments, one per reading. The byte sizes of C++ types (\<open>sizeof\<close>) are
    those of the 64-bit ABI.
  \<^item> A block under a mutex is one atomic step. A method that runs wholly under its lock is one step of
    its component; where a method gives the lock up, or reads an atomic outside of it, it is cut
    there and other threads may step in between (\<open>Processor_Executor\<close>, \<open>Collection_Runtime\<close>,
    \<open>Subscription_Order\<close>, \<open>Subscription_Close\<close>, \<open>Service_Core\<close>; in \<open>Query\<close> a run of clock readings
    and data managers). Inductive relations are used where threads are many, functions over
    lists of operations elsewhere.
  \<^item> The provider and the metric processors are interfaces: records of operations, passed as
    arguments. The laws the clients rely on are the locales \<open>provider\<close> and \<open>processor_contract\<close>,
    interpreted on \<open>UnavailableProvider\<close>, on the scripted provider of the test kit and on the
    counter processor.
  \<^item> Messages of statuses are left out; their codes are kept.

  \<^bold>\<open>Loops.\<close> Loops over containers are structural recursion; the loops that shrink a queue, a
  history or a buffer are functions with a measure. The only fuel is that of \<open>kahnLoop\<close>
  (\<open>Processor_Graph\<close>), one more than the number of processors, and \<open>kahnLoop_fuel\<close> shows that it
  never runs out. The waits of a query may last for ever, so they are partial functions with result
  \<open>None\<close> when they do; that they return once the clock passes the deadline is a theorem
  (\<open>query_returns\<close>).
\<close>

text \<open>
  \<^bold>\<open>The theories\<close>, each with the code it models and what it shows.

  \<^item> \<open>Prelude\<close>: machine types, sorted association lists, list lemmas shared by the components; the
    locales \<open>component\<close> (an initial state, a step function, an invariant: the invariant holds after
    every sequence of steps) and \<open>ranked_component\<close> (a number that never falls, such as an epoch).
    Every stateful component below is an interpretation of one of them.
  \<^item> \<open>Doubles\<close>: rounding to 53 significant bits, nearest, ties to even, with its error bound.
  \<^item> \<open>Common\<close> (\<open>common/domain_types\<close>, \<open>status\<close>, \<open>observation\<close>, \<open>health\<close>): values, observations,
    evidence, health results, their validators and byte counts.
  \<^item> \<open>Provider\<close> (\<open>provider/provider.hpp\<close>, \<open>provider_manager\<close>, \<open>unavailable_provider\<close>): the interface
    and its contract, the manager that guards it.
  \<^item> \<open>Mock_Provider\<close> (\<open>src/testkit/src/mock_provider.cpp\<close>): every scenario of the scripted provider;
    it meets the contract.
  \<^item> \<open>Session\<close> (\<open>core/runtime_config\<close>, \<open>core/session_manager\<close>): quotas of sessions and requests are
    kept.
  \<^item> \<open>Catalog\<close> (\<open>semantic/\<close>): validation, discovery and the identity history; published views are
    consistent and their generations grow.
  \<^item> \<open>Events\<close> (\<open>data/event\<close>, \<open>data/event_store\<close>): the bounded event store; sequence numbers are
    consecutive, a cursor reads every retained event and learns of a gap. The locale
    \<open>event_source\<close> is what readers of events rely on, met by the store and by the data manager.
  \<^item> \<open>DataStore\<close> (\<open>data/data_manager\<close>): all operations of the data manager. \<open>DataStore_Commit\<close>:
    the shards implement one map, a commit is atomic, epochs grow. \<open>DataStore_Health\<close>: limits are
    kept, evidence that a health result cites is retained. The limits are the ones the code
    enforces: \<open>max_total_bytes\<close> bounds the observations, and \<open>storedBytes\<close> may exceed it by what
    the other limits allow.
  \<^item> \<open>Query\<close> (\<open>data/query_engine\<close>): a result is a consistent view, is cut exactly at the limits,
    and comes; what the read policies promise, and for which consistency they do.
  \<^item> \<open>Subscriptions\<close> (\<open>data/subscription_manager\<close>): filters, queues and overflow policies; every
    event offered is delivered, queued or counted as lost. \<open>Subscription_Dispatch\<close>: the manager over the
    data manager, calls one after another. \<open>Subscription_Order\<close>: overlapping commits, dispatches,
    deliveries and a close; events are taken in order and once. \<open>Subscription_Close\<close>: no callback
    starts after a close has returned, and a close from inside a callback does not return.
  \<^item> \<open>Frames\<close> (\<open>ipc/frame\<close>): encoder and incremental decoder; round trip over any cutting into
    chunks, and independence of the cutting for malformed streams.
  \<^item> \<open>Processor_Graph\<close> (\<open>metrics/processor\<close>, graph): exactly the acyclic graphs of bounded depth
    are accepted, in a topological order; the algorithm is verified in the locale \<open>kahn_graph\<close>.
    \<open>Processor_Executor\<close> (\<open>metrics/processor\<close>, executor): queue, deduplication, and \<open>runNext\<close> cut
    where it gives up its locks; only conforming results are committed.
  \<^item> \<open>Counter_Processor\<close> (\<open>metrics/counter_processor\<close>): when an increment is published and that it is
    exact, the rate as computed in doubles and its distance from the exact quotient.
  \<^item> \<open>Metrics_Manager\<close> (\<open>metrics/metrics_manager\<close>): health follows the evidence and its age; a change
    of the provider state is stored, but does not change what a query answers.
  \<^item> \<open>Watches\<close> (\<open>collection/watch_manager\<close>): the snapshot is the merge of the registered watches;
    samples are counted exactly.
  \<^item> \<open>Collection_Plan\<close>, \<open>Collection_Commit\<close>, \<open>Collection_Runtime\<close>
    (\<open>collection/collection_coordinator\<close>): the compilation of a snapshot into jobs; the
    normalisation and commit of one provider result (\<open>normalizeAndCommit\<close>); the queue between
    scheduler, fresh reads and worker, with plans published and read outside the lock.
  \<^item> \<open>Service_Core\<close> (\<open>core/service_core\<close>): construction, start, stop and requests over the models of
    all its parts; a start and a stop on two threads.

  The numbered claims stand in the theories of their components. Those that record a
  surprising behaviour (a close inside a callback, a stop during a start, a watch lost at a change
  of the catalog, a period lost to eviction, a period counted again after an overtaken plan) are
  theorems about the code as it is.

  \<^bold>\<open>Not modelled.\<close> The handshake and the request router work on protobuf classes that the build
  generates. The local API server, the sockets, the clock, the daemon and the command line are
  calls of the operating system and text output; the client backends and the C API copy between
  structs, messages and the managers. Of the collection coordinator, the threads themselves and
  \<open>collectJob\<close>, which joins the provider call to \<open>normalizeAndCommit\<close>, are left out: the provider's
  answer is an argument.
\<close>

end
